(* ===== verification/Prelude.thy ===== *)
theory Prelude
  imports Main "HOL-Library.Word" "HOL-Library.Code_Target_Nat"
begin

text \<open>
  The shared vocabulary of the development: bytes, the error monad used for every
  operation of the source that can throw, the update of a \<^verbatim>\<open>Map\<close> kept as an association list
  in insertion order, and the list lemmas the components share.
\<close>

section \<open>Collections of rewrite rules\<close>

named_theorems result_simps
  \<open>unfolding of the error monad at a known result\<close>

named_theorems wire_simps
  \<open>byte level rewriting: big-endian integers and buffers\<close>

section \<open>Bytes\<close>

type_synonym byte = "8 word"

definition byte_of_nat :: "nat \<Rightarrow> byte" where
  "byte_of_nat n = word_of_nat n"

definition nat_of_byte :: "byte \<Rightarrow> nat" where
  "nat_of_byte b = unat b"

lemma nat_of_byte_of_nat [wire_simps]: "nat_of_byte (byte_of_nat n) = n mod 256"
  by (simp add: nat_of_byte_def byte_of_nat_def unat_of_nat)

lemma byte_of_nat_of_byte [simp]: "byte_of_nat (nat_of_byte b) = b"
  by (simp add: nat_of_byte_def byte_of_nat_def)

lemma nat_of_byte_less [simp]: "nat_of_byte b < 256"
  using unsigned_less [of b] by (simp add: nat_of_byte_def)

lemma nat_of_byte_le [simp]: "nat_of_byte b \<le> 255"
  using nat_of_byte_less [of b] by linarith

text \<open>Writing a short byte list into a buffer, as \<^verbatim>\<open>Uint8Array.prototype.set\<close> does when it fits.\<close>

definition blit :: "'a list \<Rightarrow> nat \<Rightarrow> 'a list \<Rightarrow> 'a list" where
  "blit dst off src = take off dst @ src @ drop (off + length src) dst"

lemma length_blit [simp]: "off + length src \<le> length dst \<Longrightarrow> length (blit dst off src) = length dst"
  by (simp add: blit_def)

lemma take_blit: "off + length src \<le> length dst \<Longrightarrow> take (off + length src) (blit dst off src) = take off dst @ src"
  by (simp add: blit_def)

lemma blit_full: "off + length src = length dst \<Longrightarrow> blit dst off src = take off dst @ src"
  by (simp add: blit_def)

section \<open>The error monad\<close>

type_synonym ('e, 'a) result = "'e + 'a"

definition rbind :: "('e, 'a) result \<Rightarrow> ('a \<Rightarrow> ('e, 'b) result) \<Rightarrow> ('e, 'b) result" where
  "rbind m f = (case m of Inl e \<Rightarrow> Inl e | Inr x \<Rightarrow> f x)"

lemma rbind_simps [simp, result_simps]:
  "rbind (Inl e) f = Inl e"
  "rbind (Inr x) f = f x"
  by (simp_all add: rbind_def)

lemma rbind_Inr_iff: "rbind m f = Inr y \<longleftrightarrow> (\<exists>x. m = Inr x \<and> f x = Inr y)"
  by (cases m) auto

lemma rbind_Inl_iff: "rbind m f = Inl e \<longleftrightarrow> m = Inl e \<or> (\<exists>x. m = Inr x \<and> f x = Inl e)"
  by (cases m) auto

lemma rbind_assoc: "rbind (rbind m f) g = rbind m (\<lambda>x. rbind (f x) g)"
  by (cases m) auto

lemma rbind_Inr_right [simp]: "rbind m Inr = m"
  by (cases m) auto

lemma rbind_cong [fundef_cong]:
  "m = n \<Longrightarrow> (\<And>x. n = Inr x \<Longrightarrow> f x = g x) \<Longrightarrow> rbind m f = rbind n g"
  by (cases n) auto

lemma rbindE:
  assumes "rbind m f = Inr y"
  obtains x where "m = Inr x" "f x = Inr y"
  using assms by (auto simp: rbind_Inr_iff)

text \<open>A guard that throws.\<close>

definition rassert :: "bool \<Rightarrow> 'e \<Rightarrow> ('e, unit) result" where
  "rassert b e = (if b then Inr () else Inl e)"

lemma rassert_Inr_iff [simp]: "rassert b e = Inr u \<longleftrightarrow> b"
  by (simp add: rassert_def)

lemma rassert_simps [simp, result_simps]: "rassert True e = Inr ()" "rassert False e = Inl e"
  by (simp_all add: rassert_def)

text \<open>A loop over a list whose body may throw, with and without a result per element.\<close>

fun rfold :: "('s \<Rightarrow> 'a \<Rightarrow> ('e, 's) result) \<Rightarrow> 's \<Rightarrow> 'a list \<Rightarrow> ('e, 's) result" where
  "rfold f s [] = Inr s"
| "rfold f s (x # xs) = rbind (f s x) (\<lambda>s'. rfold f s' xs)"

lemma rfold_append: "rfold f s (xs @ ys) = rbind (rfold f s xs) (\<lambda>s'. rfold f s' ys)"
  by (induction xs arbitrary: s) (auto simp: rbind_assoc)

lemma rfold_cong [fundef_cong]:
  assumes "s = t" "xs = ys" "\<And>s' x. x \<in> set ys \<Longrightarrow> f s' x = g s' x"
  shows "rfold f s xs = rfold g t ys"
proof -
  have "(\<And>s' x. x \<in> set ys \<Longrightarrow> f s' x = g s' x) \<Longrightarrow> rfold f t ys = rfold g t ys"
    by (induction ys arbitrary: t) (auto intro: rbind_cong)
  then show ?thesis using assms by simp
qed

text \<open>An invariant of the state that every step keeps holds at the end of the loop.\<close>

lemma rfold_invariant:
  assumes "rfold f s xs = Inr t" "I s"
    and "\<And>u x v. x \<in> set xs \<Longrightarrow> I u \<Longrightarrow> f u x = Inr v \<Longrightarrow> I v"
  shows "I t"
  using assms
proof (induction xs arbitrary: s)
  case Nil
  then show ?case by simp
next
  case (Cons x xs)
  from Cons.prems(1) obtain u where u: "f s x = Inr u" "rfold f u xs = Inr t"
    by (auto elim: rbindE)
  have "I u" using Cons.prems(3) [OF _ Cons.prems(2) u(1)] by simp
  then show ?case
    by (rule Cons.IH [OF u(2)]) (rule Cons.prems(3), simp_all)
qed

fun rmap :: "('a \<Rightarrow> ('e, 'b) result) \<Rightarrow> 'a list \<Rightarrow> ('e, 'b list) result" where
  "rmap f [] = Inr []"
| "rmap f (x # xs) = rbind (f x) (\<lambda>y. rbind (rmap f xs) (\<lambda>ys. Inr (y # ys)))"

lemma rmap_cong [fundef_cong]:
  "xs = ys \<Longrightarrow> (\<And>x. x \<in> set ys \<Longrightarrow> f x = g x) \<Longrightarrow> rmap f xs = rmap g ys"
  by (induction ys arbitrary: xs) auto

lemma rmap_Inr_length: "rmap f xs = Inr ys \<Longrightarrow> length ys = length xs"
  by (induction xs arbitrary: ys) (auto elim!: rbindE)

lemma rmap_all_Inr: "(\<And>x. x \<in> set xs \<Longrightarrow> f x = Inr (g x)) \<Longrightarrow> rmap f xs = Inr (map g xs)"
  by (induction xs) auto

section \<open>Maps kept in insertion order\<close>

text \<open>
  The JavaScript \<^verbatim>\<open>Map.prototype.set\<close>: an existing key keeps its position, a new key goes last.
\<close>

fun map_set :: "'k \<Rightarrow> 'v \<Rightarrow> ('k \<times> 'v) list \<Rightarrow> ('k \<times> 'v) list" where
  "map_set k v [] = [(k, v)]"
| "map_set k v ((a, b) # xs) = (if a = k then (k, v) # xs else (a, b) # map_set k v xs)"

definition map_delete :: "'k \<Rightarrow> ('k \<times> 'v) list \<Rightarrow> ('k \<times> 'v) list" where
  "map_delete k xs = filter (\<lambda>(a, b). a \<noteq> k) xs"

lemma map_of_map_set [simp]: "map_of (map_set k v xs) = (map_of xs)(k \<mapsto> v)"
  by (induction k v xs rule: map_set.induct) auto

lemma fst_map_set: "fst ` set (map_set k v xs) = insert k (fst ` set xs)"
  by (induction k v xs rule: map_set.induct) auto

lemma distinct_map_set: "distinct (map fst xs) \<Longrightarrow> distinct (map fst (map_set k v xs))"
  by (induction k v xs rule: map_set.induct) (auto simp: fst_map_set [unfolded image_set] simp del: set_map)

lemma map_of_map_delete [simp]: "map_of (map_delete k xs) = (map_of xs)(k := None)"
  by (induction xs) (auto simp: map_delete_def)

lemma distinct_map_delete: "distinct (map fst xs) \<Longrightarrow> distinct (map fst (map_delete k xs))"
  by (induction xs) (auto simp: map_delete_def)

lemma fst_map_delete: "fst ` set (map_delete k xs) = fst ` set xs - {k}"
  by (auto simp: map_delete_def image_iff)

lemma map_set_new: "k \<notin> fst ` set xs \<Longrightarrow> map_set k v xs = xs @ [(k, v)]"
  by (induction k v xs rule: map_set.induct) auto

text \<open>The JavaScript \<^verbatim>\<open>Set.prototype.add\<close>.\<close>

definition set_add :: "'a \<Rightarrow> 'a list \<Rightarrow> 'a list" where
  "set_add x xs = (if List.member xs x then xs else xs @ [x])"

lemma set_add_simps [simp]: "set (set_add x xs) = insert x (set xs)" "distinct (set_add x xs) = distinct xs"
  by (auto simp: set_add_def)

text \<open>A loop that runs a fixed number of times.\<close>

fun rrepeat :: "nat \<Rightarrow> ('s \<Rightarrow> ('e, 's) result) \<Rightarrow> 's \<Rightarrow> ('e, 's) result" where
  "rrepeat 0 f s = Inr s"
| "rrepeat (Suc n) f s = rbind (f s) (rrepeat n f)"

lemma rrepeat_cong [fundef_cong]:
  assumes "m = n" "s = t" "\<And>x. f x = g x"
  shows "rrepeat m f s = rrepeat n g t"
proof -
  have "f = g" using assms(3) by blast
  then show ?thesis using assms by simp
qed

lemma rrepeat_invariant:
  "rrepeat n f s = Inr t \<Longrightarrow> I s \<Longrightarrow> (\<And>u v. I u \<Longrightarrow> f u = Inr v \<Longrightarrow> I v) \<Longrightarrow> I t"
  by (induction n arbitrary: s) (auto elim!: rbindE)

end
