(* ===== verification/Framing.thy ===== *)
theory Framing
  imports Prelude
begin

text \<open>
  The length-prefixed framing of \<^verbatim>\<open>packages/protocol/src/framing.ts\<close>: the encoder of one frame and
  the incremental decoder with its header buffer, its 64 KiB payload blocks and its three states.
\<close>

section \<open>Constants and options\<close>

definition FRAME_HEADER_LENGTH :: nat where
  "FRAME_HEADER_LENGTH = 4"

definition MAX_UINT32 :: nat where
  "MAX_UINT32 = 0xffffffff"

definition PAYLOAD_BLOCK_SIZE :: nat where
  "PAYLOAD_BLOCK_SIZE = 64 * 1024"

definition DEFAULT_MAX_FRAME_LENGTH :: nat where
  "DEFAULT_MAX_FRAME_LENGTH = 16 * 1024 * 1024"

datatype frame_error =
    DecoderEnded
  | DecoderFailed
  | FrameTooLong nat nat
  | TruncatedFrame
  | PayloadTooLong
  | BadMaxFrameLength

text \<open>The configured limit is an integer (a JavaScript number that is not one is refused as well).\<close>

definition resolveMaxFrameLength :: "int option \<Rightarrow> (frame_error, nat) result" where
  "resolveMaxFrameLength opt =
     (let value = (case opt of None \<Rightarrow> int DEFAULT_MAX_FRAME_LENGTH | Some v \<Rightarrow> v)
      in if value < 0 \<or> value > int MAX_UINT32 then Inl BadMaxFrameLength else Inr (nat value))"

section \<open>Frames\<close>

text \<open>Four bytes of a length, most significant first: a \<^verbatim>\<open>Uint8Array\<close> store keeps a number modulo 256.\<close>

definition uint32_be :: "nat \<Rightarrow> byte list" where
  "uint32_be n = [byte_of_nat (n div 2 ^ 24), byte_of_nat (n div 2 ^ 16), byte_of_nat (n div 2 ^ 8), byte_of_nat n]"

definition header_value :: "byte list \<Rightarrow> nat" where
  "header_value h =
     nat_of_byte (h ! 0) * 0x1000000 + nat_of_byte (h ! 1) * 0x10000 + nat_of_byte (h ! 2) * 0x100 + nat_of_byte (h ! 3)"

definition encodeFrame :: "byte list \<Rightarrow> (frame_error, byte list) result" where
  "encodeFrame payload =
     (if length payload > MAX_UINT32 then Inl PayloadTooLong
      else Inr (blit (uint32_be (length payload) @ replicate (length payload) 0) FRAME_HEADER_LENGTH payload))"

lemma length_uint32_be [simp]: "length (uint32_be n) = 4"
  by (simp add: uint32_be_def)

lemma header_value_uint32_be [wire_simps]:
  assumes "n \<le> MAX_UINT32"
  shows "header_value (uint32_be n) = n"
proof -
  define q where "q = n div 256"
  define r where "r = q div 256"
  have "n = q * 256 + n mod 256" "q = r * 256 + q mod 256" "r = r div 256 * 256 + r mod 256"
    by (simp_all add: q_def r_def)
  moreover have "n div 2 ^ 8 = q" "n div 2 ^ 16 = r" "n div 2 ^ 24 = r div 256"
    by (simp_all add: q_def r_def flip: div_mult2_eq)
  moreover have "r div 256 < 256" using assms by (simp add: q_def r_def MAX_UINT32_def flip: div_mult2_eq)
  moreover have "r div 256 * 16777216 + r mod 256 * 65536 + q mod 256 * 256 + n mod 256 = n"
    using calculation(1-3) by linarith
  ultimately show ?thesis
    by (simp add: header_value_def uint32_be_def nat_of_byte_of_nat)
qed

lemma uint32_be_header_value:
  assumes "length h = 4"
  shows "uint32_be (header_value h) = h"
proof -
  obtain a b c d where h: "h = [a, b, c, d]"
    using assms by (auto simp: numeral_eq_Suc length_Suc_conv)
  define q where "q = nat_of_byte a * 65536 + nat_of_byte b * 256 + nat_of_byte c"
  define r where "r = nat_of_byte a * 256 + nat_of_byte b"
  have v: "header_value h = q * 256 + nat_of_byte d" by (simp add: h header_value_def q_def)
  have q: "q = r * 256 + nat_of_byte c" by (simp add: q_def r_def)
  have d8: "header_value h div 2 ^ 8 = q" using v by simp
  have "header_value h div 2 ^ 16 = header_value h div 2 ^ 8 div 2 ^ 8" by (simp flip: div_mult2_eq)
  then have d16: "header_value h div 2 ^ 16 = r" using d8 q by simp
  have "header_value h div 2 ^ 24 = header_value h div 2 ^ 16 div 2 ^ 8" by (simp flip: div_mult2_eq)
  then have d24: "header_value h div 2 ^ 24 = nat_of_byte a" using d16 by (simp add: r_def)
  have eq: "byte_of_nat (x * 256 + nat_of_byte y) = y" for x y
    by (metis byte_of_nat_of_byte nat_of_byte_of_nat mod_mult_self3 mod_less nat_of_byte_less)
  have "byte_of_nat r = b" "byte_of_nat q = c" "byte_of_nat (header_value h) = d"
    using eq [of "nat_of_byte a" b] eq [of r c] eq [of q d] v q by (simp_all add: r_def)
  then show ?thesis by (simp only: uint32_be_def d8 d16 d24 byte_of_nat_of_byte) (simp add: h)
qed

lemma encodeFrame_eq:
  "length payload \<le> MAX_UINT32 \<Longrightarrow> encodeFrame payload = Inr (uint32_be (length payload) @ payload)"
  by (simp add: encodeFrame_def blit_def FRAME_HEADER_LENGTH_def)

section \<open>The incremental decoder\<close>

datatype decoder_state = Open | Ended | Failed

text \<open>
  \<^verbatim>\<open>currentPayloadBlock\<close> is a reference to the last block pushed on \<^verbatim>\<open>payloadBlocks\<close>: writes through
  it change that element. The model keeps its index.
\<close>

record frame_decoder =
  fd_header :: "byte list"
  fd_headerLength :: nat
  fd_maxFrameLength :: nat
  fd_payloadBlocks :: "byte list list"
  fd_currentPayloadBlock :: "nat option"
  fd_currentPayloadBlockLength :: nat
  fd_expectedPayloadLength :: "nat option"
  fd_payloadLength :: nat
  fd_state :: decoder_state

definition new_frame_decoder :: "int option \<Rightarrow> (frame_error, frame_decoder) result" where
  "new_frame_decoder options = rbind (resolveMaxFrameLength options) (\<lambda>limit.
     Inr \<lparr>fd_header = replicate FRAME_HEADER_LENGTH 0, fd_headerLength = 0, fd_maxFrameLength = limit,
       fd_payloadBlocks = [], fd_currentPayloadBlock = None, fd_currentPayloadBlockLength = 0,
       fd_expectedPayloadLength = None, fd_payloadLength = 0, fd_state = Open\<rparr>)"

text \<open>An operation of the decoder returns the decoder after it, and what it returned or threw.\<close>

type_synonym 'a fd_outcome = "frame_decoder \<times> (frame_error, 'a) result"

definition fd_fail :: "frame_decoder \<Rightarrow> frame_error \<Rightarrow> 'a fd_outcome" where
  "fd_fail d e = (d\<lparr>fd_state := Failed, fd_headerLength := 0, fd_payloadBlocks := [],
     fd_currentPayloadBlock := None, fd_currentPayloadBlockLength := 0,
     fd_expectedPayloadLength := None, fd_payloadLength := 0\<rparr>, Inl e)"

text \<open>The block a write goes to: the current one, or a fresh one when there is none or it is full.\<close>

definition select_block :: "frame_decoder \<Rightarrow> nat \<Rightarrow> frame_decoder" where
  "select_block d expected =
     (let fresh = replicate (min PAYLOAD_BLOCK_SIZE (expected - fd_payloadLength d)) 0;
          allocate = d\<lparr>fd_payloadBlocks := fd_payloadBlocks d @ [fresh],
            fd_currentPayloadBlock := Some (length (fd_payloadBlocks d)), fd_currentPayloadBlockLength := 0\<rparr>
      in case fd_currentPayloadBlock d of
           None \<Rightarrow> allocate
         | Some i \<Rightarrow> if fd_currentPayloadBlockLength d = length (fd_payloadBlocks d ! i) then allocate else d)"

text \<open>The inner loop: copy the part of the chunk that belongs to the current payload.\<close>

partial_function (option) copy_payload ::
    "frame_decoder \<Rightarrow> nat \<Rightarrow> byte list \<Rightarrow> (frame_decoder \<times> byte list) option" where
  "copy_payload d expected chunk =
     (if chunk \<noteq> [] \<and> fd_payloadLength d < expected then
        (let d1 = select_block d expected;
             i = the (fd_currentPayloadBlock d1);
             block = fd_payloadBlocks d1 ! i;
             payloadBytes = min (length block - fd_currentPayloadBlockLength d1) (length chunk)
         in copy_payload
              (d1\<lparr>fd_payloadBlocks := (fd_payloadBlocks d1)[i :=
                     blit block (fd_currentPayloadBlockLength d1) (take payloadBytes chunk)],
                  fd_currentPayloadBlockLength := fd_currentPayloadBlockLength d1 + payloadBytes,
                  fd_payloadLength := fd_payloadLength d1 + payloadBytes\<rparr>)
              expected (drop payloadBytes chunk))
      else Some (d, chunk))"

text \<open>Joining the blocks of a complete payload into one array.\<close>

fun join_blocks :: "byte list \<Rightarrow> nat \<Rightarrow> byte list list \<Rightarrow> byte list" where
  "join_blocks payload off [] = payload"
| "join_blocks payload off (b # bs) = join_blocks (blit payload off b) (off + length b) bs"

definition complete_payload :: "frame_decoder \<Rightarrow> nat \<Rightarrow> byte list" where
  "complete_payload d expected =
     (if length (fd_payloadBlocks d) = 1 then fd_payloadBlocks d ! 0
      else join_blocks (replicate expected 0) 0 (fd_payloadBlocks d))"

definition reset_payload :: "frame_decoder \<Rightarrow> frame_decoder" where
  "reset_payload d = d\<lparr>fd_payloadBlocks := [], fd_currentPayloadBlock := None,
     fd_currentPayloadBlockLength := 0, fd_expectedPayloadLength := None, fd_payloadLength := 0\<rparr>"

definition start_payload :: "frame_decoder \<Rightarrow> nat \<Rightarrow> frame_decoder" where
  "start_payload d frameLength = d\<lparr>fd_expectedPayloadLength := Some frameLength, fd_payloadBlocks := [],
     fd_currentPayloadBlock := None, fd_currentPayloadBlockLength := 0, fd_payloadLength := 0\<rparr>"

text \<open>The outer loop of \<^verbatim>\<open>push\<close>, over what is left of the chunk; not returning is \<^term>\<open>None\<close>.\<close>

partial_function (option) push_loop ::
    "frame_decoder \<Rightarrow> byte list \<Rightarrow> byte list list \<Rightarrow> byte list list fd_outcome option" where
  "push_loop d chunk frames =
     (if chunk = [] then Some (d, Inr frames)
      else (case fd_expectedPayloadLength d of
        None \<Rightarrow>
          (let headerBytes = min (FRAME_HEADER_LENGTH - fd_headerLength d) (length chunk);
               d1 = d\<lparr>fd_header := blit (fd_header d) (fd_headerLength d) (take headerBytes chunk),
                      fd_headerLength := fd_headerLength d + headerBytes\<rparr>;
               rest = drop headerBytes chunk
           in if fd_headerLength d1 < FRAME_HEADER_LENGTH then push_loop d1 rest frames
              else
                (let frameLength = header_value (fd_header d1); d2 = d1\<lparr>fd_headerLength := 0\<rparr>
                 in if frameLength > fd_maxFrameLength d2
                    then Some (fd_fail d2 (FrameTooLong frameLength (fd_maxFrameLength d2)))
                    else if frameLength = 0 then push_loop d2 rest (frames @ [[]])
                    else Option.bind (copy_payload (start_payload d2 frameLength) frameLength rest) (\<lambda>(d3, rest').
                      if fd_payloadLength d3 = frameLength
                      then push_loop (reset_payload d3) rest' (frames @ [complete_payload d3 frameLength])
                      else push_loop d3 rest' frames)))
      | Some expected \<Rightarrow>
          Option.bind (copy_payload d expected chunk) (\<lambda>(d3, rest').
            if fd_payloadLength d3 = expected
            then push_loop (reset_payload d3) rest' (frames @ [complete_payload d3 expected])
            else push_loop d3 rest' frames)))"

definition fd_push :: "frame_decoder \<Rightarrow> byte list \<Rightarrow> byte list list fd_outcome option" where
  "fd_push d chunk =
     (case fd_state d of
        Ended \<Rightarrow> Some (d, Inl DecoderEnded)
      | Failed \<Rightarrow> Some (d, Inl DecoderFailed)
      | Open \<Rightarrow> push_loop d chunk [])"

definition fd_end :: "frame_decoder \<Rightarrow> unit fd_outcome" where
  "fd_end d =
     (case fd_state d of
        Ended \<Rightarrow> (d, Inl DecoderEnded)
      | Failed \<Rightarrow> (d, Inl DecoderFailed)
      | Open \<Rightarrow>
          (if fd_headerLength d \<noteq> 0 \<or> fd_expectedPayloadLength d \<noteq> None then fd_fail d TruncatedFrame
           else (d\<lparr>fd_state := Ended\<rparr>, Inr ())))"

section \<open>What the decoder has buffered\<close>

definition payload_bytes :: "frame_decoder \<Rightarrow> byte list" where
  "payload_bytes d =
     (if fd_payloadBlocks d = [] then []
      else concat (butlast (fd_payloadBlocks d)) @ take (fd_currentPayloadBlockLength d) (last (fd_payloadBlocks d)))"

text \<open>The payload buffer is consistent: only the last block is partly filled, and the blocks never exceed the frame.\<close>

definition payload_inv :: "frame_decoder \<Rightarrow> nat \<Rightarrow> bool" where
  "payload_inv d expected \<longleftrightarrow>
     (if fd_payloadBlocks d = []
      then fd_currentPayloadBlock d = None \<and> fd_payloadLength d = 0 \<and> fd_currentPayloadBlockLength d = 0
      else fd_currentPayloadBlock d = Some (length (fd_payloadBlocks d) - 1)
        \<and> fd_currentPayloadBlockLength d \<le> length (last (fd_payloadBlocks d))
        \<and> fd_payloadLength d = length (concat (butlast (fd_payloadBlocks d))) + fd_currentPayloadBlockLength d
        \<and> length (concat (fd_payloadBlocks d)) \<le> expected)"

definition decoder_inv :: "frame_decoder \<Rightarrow> bool" where
  "decoder_inv d \<longleftrightarrow>
     length (fd_header d) = FRAME_HEADER_LENGTH \<and> fd_maxFrameLength d \<le> MAX_UINT32
     \<and> (case fd_expectedPayloadLength d of
          None \<Rightarrow> fd_headerLength d < FRAME_HEADER_LENGTH
        | Some n \<Rightarrow> fd_headerLength d = 0 \<and> fd_payloadLength d < n \<and> n \<le> fd_maxFrameLength d \<and> payload_inv d n)"

text \<open>The abstraction: the bytes of the stream that are not yet part of a returned frame.\<close>

definition pending :: "frame_decoder \<Rightarrow> byte list" where
  "pending d =
     (case fd_expectedPayloadLength d of
        None \<Rightarrow> take (fd_headerLength d) (fd_header d)
      | Some n \<Rightarrow> uint32_be n @ payload_bytes d)"

text \<open>
  The specification: cut a byte string into frames. The result is the list of payloads and the
  incomplete rest, or the offending length.
\<close>

function split_frames :: "nat \<Rightarrow> byte list \<Rightarrow> (nat, byte list list \<times> byte list) result" where
  "split_frames limit bs =
     (if length bs < FRAME_HEADER_LENGTH then Inr ([], bs)
      else let n = header_value bs in
        if n > limit then Inl n
        else if length bs < FRAME_HEADER_LENGTH + n then Inr ([], bs)
        else rbind (split_frames limit (drop (FRAME_HEADER_LENGTH + n) bs)) (\<lambda>(frames, rest).
          Inr (take n (drop FRAME_HEADER_LENGTH bs) # frames, rest)))"
  by pat_completeness auto
termination
  by (relation "measure (\<lambda>(limit, bs). length bs)") (auto simp: FRAME_HEADER_LENGTH_def)

declare split_frames.simps [simp del]

section \<open>The inner loop fills the payload\<close>

lemma payload_inv_length: "payload_inv d n \<Longrightarrow> length (payload_bytes d) = fd_payloadLength d"
  by (auto simp: payload_inv_def payload_bytes_def split: if_splits)

lemma concat_butlast_last: "xs \<noteq> [] \<Longrightarrow> concat xs = concat (butlast xs) @ last xs"
  by (metis append_butlast_last_id concat.simps(1) concat.simps(2) concat_append append_Nil2)

lemma payload_inv_complete:
  assumes "payload_inv d n" "fd_payloadLength d = n" "0 < n"
  shows "complete_payload d n = payload_bytes d"
proof -
  have join: "off + length (concat bs) = length p \<Longrightarrow> join_blocks p off bs = take off p @ concat bs" for p off bs
  proof (induction p off bs rule: join_blocks.induct)
    case (1 payload off)
    then show ?case by simp
  next
    case (2 payload off b bs)
    have "off + length b \<le> length payload" using 2(2) by simp
    with 2 show ?case by (simp add: take_blit)
  qed
  have ne: "fd_payloadBlocks d \<noteq> []" using assms by (auto simp: payload_inv_def split: if_splits)
  have len: "length (concat (fd_payloadBlocks d)) = n" "fd_currentPayloadBlockLength d = length (last (fd_payloadBlocks d))"
    using assms ne by (auto simp: payload_inv_def concat_butlast_last [OF ne])
  then have "payload_bytes d = concat (fd_payloadBlocks d)"
    using ne by (simp add: payload_bytes_def concat_butlast_last [OF ne])
  moreover have "fd_payloadBlocks d ! 0 = concat (fd_payloadBlocks d)" if "length (fd_payloadBlocks d) = 1"
    using that by (cases "fd_payloadBlocks d") auto
  moreover have "join_blocks (replicate n 0) 0 (fd_payloadBlocks d) = concat (fd_payloadBlocks d)"
    using join [of 0 "fd_payloadBlocks d" "replicate n 0"] len(1) by simp
  ultimately show ?thesis by (simp add: complete_payload_def)
qed

text \<open>Choosing the block keeps what is buffered and leaves room in the current block.\<close>

lemma select_block_inv:
  assumes "payload_inv d n" "fd_payloadLength d < n"
  shows "payload_inv (select_block d n) n"
    and "payload_bytes (select_block d n) = payload_bytes d"
    and "fd_payloadLength (select_block d n) = fd_payloadLength d"
    and "fd_payloadBlocks (select_block d n) \<noteq> []"
    and "fd_currentPayloadBlockLength (select_block d n) < length (last (fd_payloadBlocks (select_block d n)))"
proof -
  have size: "0 < PAYLOAD_BLOCK_SIZE" by (simp add: PAYLOAD_BLOCK_SIZE_def)
  have all: "payload_inv (select_block d n) n
    \<and> payload_bytes (select_block d n) = payload_bytes d
    \<and> fd_payloadLength (select_block d n) = fd_payloadLength d
    \<and> fd_payloadBlocks (select_block d n) \<noteq> []
    \<and> fd_currentPayloadBlockLength (select_block d n) < length (last (fd_payloadBlocks (select_block d n)))"
  proof (cases "fd_payloadBlocks d = []")
    case True
    then show ?thesis using assms size
      by (simp add: select_block_def payload_inv_def payload_bytes_def Let_def)
  next
    case False
    have last: "fd_payloadBlocks d ! (length (fd_payloadBlocks d) - Suc 0) = last (fd_payloadBlocks d)"
      using False by (simp add: last_conv_nth)
    show ?thesis using assms size False
      by (auto simp: select_block_def payload_inv_def payload_bytes_def Let_def last concat_butlast_last [OF False])
  qed
  then show "payload_inv (select_block d n) n"
    "payload_bytes (select_block d n) = payload_bytes d"
    "fd_payloadLength (select_block d n) = fd_payloadLength d"
    "fd_payloadBlocks (select_block d n) \<noteq> []"
    "fd_currentPayloadBlockLength (select_block d n) < length (last (fd_payloadBlocks (select_block d n)))"
    by simp_all
qed

text \<open>The fields the payload loop does not touch.\<close>

definition same_frame :: "frame_decoder \<Rightarrow> frame_decoder \<Rightarrow> bool" where
  "same_frame d d' \<longleftrightarrow> fd_header d' = fd_header d \<and> fd_headerLength d' = fd_headerLength d
     \<and> fd_maxFrameLength d' = fd_maxFrameLength d \<and> fd_expectedPayloadLength d' = fd_expectedPayloadLength d
     \<and> fd_state d' = fd_state d"

lemma same_frame_select_block: "same_frame d (select_block d n)"
  by (auto simp: same_frame_def select_block_def Let_def split: option.splits)

definition fill_block :: "frame_decoder \<Rightarrow> byte list \<Rightarrow> frame_decoder" where
  "fill_block d src =
     d\<lparr>fd_payloadBlocks := (fd_payloadBlocks d)[the (fd_currentPayloadBlock d) :=
           blit (fd_payloadBlocks d ! the (fd_currentPayloadBlock d)) (fd_currentPayloadBlockLength d) src],
       fd_currentPayloadBlockLength := fd_currentPayloadBlockLength d + length src,
       fd_payloadLength := fd_payloadLength d + length src\<rparr>"

lemma fill_block_inv:
  assumes inv: "payload_inv d n" and ne: "fd_payloadBlocks d \<noteq> []"
    and fits: "fd_currentPayloadBlockLength d + length src \<le> length (last (fd_payloadBlocks d))"
  shows "payload_inv (fill_block d src) n" and "payload_bytes (fill_block d src) = payload_bytes d @ src"
proof -
  define i where "i = length (fd_payloadBlocks d) - Suc 0"
  have i: "fd_currentPayloadBlock d = Some i" "fd_payloadBlocks d ! i = last (fd_payloadBlocks d)"
    using inv ne by (simp_all add: payload_inv_def i_def last_conv_nth)
  have upd: "(fd_payloadBlocks d)[i := b] = butlast (fd_payloadBlocks d) @ [b]" for b
    using ne by (cases "fd_payloadBlocks d" rule: rev_cases) (simp_all add: i_def)
  have b: "length (blit (last (fd_payloadBlocks d)) (fd_currentPayloadBlockLength d) src) = length (last (fd_payloadBlocks d))"
    using fits by simp
  show "payload_inv (fill_block d src) n"
    using inv ne fits by (simp add: payload_inv_def fill_block_def i upd b concat_butlast_last [OF ne] i_def [symmetric])
  show "payload_bytes (fill_block d src) = payload_bytes d @ src"
    using ne fits by (simp add: payload_bytes_def fill_block_def i upd take_blit)
qed

lemma copy_payload_result:
  assumes "payload_inv d n" "fd_payloadLength d \<le> n"
  shows "\<exists>d'. copy_payload d n chunk = Some (d', drop (n - fd_payloadLength d) chunk)
    \<and> payload_inv d' n \<and> same_frame d d'
    \<and> payload_bytes d' = payload_bytes d @ take (n - fd_payloadLength d) chunk"
  using assms
proof (induction "length chunk" arbitrary: chunk d rule: less_induct)
  case less
  show ?case
  proof (cases "chunk \<noteq> [] \<and> fd_payloadLength d < n")
    case False
    then show ?thesis using less.prems
      by (subst copy_payload.simps) (auto simp: same_frame_def)
  next
    case True
    define d1 where "d1 = select_block d n"
    define room where "room = length (last (fd_payloadBlocks d1)) - fd_currentPayloadBlockLength d1"
    define k where "k = min room (length chunk)"
    define d2 where "d2 = fill_block d1 (take k chunk)"
    note sel = select_block_inv [OF less.prems(1), folded d1_def]
    have d1: "payload_inv d1 n" "payload_bytes d1 = payload_bytes d" "fd_payloadLength d1 = fd_payloadLength d"
      "fd_payloadBlocks d1 \<noteq> []" "fd_currentPayloadBlockLength d1 < length (last (fd_payloadBlocks d1))"
      using sel True by simp_all
    have cur: "fd_payloadBlocks d1 ! the (fd_currentPayloadBlock d1) = last (fd_payloadBlocks d1)"
      using d1(1,4) by (simp add: payload_inv_def last_conv_nth)
    have k: "0 < k" "k \<le> length chunk" "k \<le> room" using True d1(5) by (auto simp: k_def room_def)
    have "fd_payloadLength d1 + room \<le> n"
      using d1(1,4,5) by (auto simp: payload_inv_def room_def concat_butlast_last)
    then have le: "fd_payloadLength d + k \<le> n" using k d1(3) by linarith
    have len: "length (take k chunk) = k" using k by simp
    have d2: "payload_inv d2 n" "payload_bytes d2 = payload_bytes d @ take k chunk"
      "fd_payloadLength d2 = fd_payloadLength d + k"
      using fill_block_inv [OF d1(1,4), of "take k chunk"] k d1 len
      by (simp_all add: d2_def room_def fill_block_def)
    have same: "same_frame d d2"
      using same_frame_select_block [of d n] by (auto simp: same_frame_def d2_def d1_def fill_block_def)
    have step: "copy_payload d n chunk = copy_payload d2 n (drop k chunk)"
      using True len by (subst copy_payload.simps)
        (simp add: Let_def cur d2_def fill_block_def k_def room_def flip: d1_def)
    have "length (drop k chunk) < length chunk" using k by simp
    from less.hyps [OF this d2(1)] le d2(3) obtain d' where
      "copy_payload d2 n (drop k chunk) = Some (d', drop (n - fd_payloadLength d2) (drop k chunk))"
      "payload_inv d' n" "same_frame d2 d'"
      "payload_bytes d' = payload_bytes d2 @ take (n - fd_payloadLength d2) (drop k chunk)"
      by auto
    moreover have "drop (n - fd_payloadLength d2) (drop k chunk) = drop (n - fd_payloadLength d) chunk"
      using le d2(3) by simp
    moreover have "take k chunk @ take (n - fd_payloadLength d2) (drop k chunk) = take (n - fd_payloadLength d) chunk"
    proof -
      have "n - fd_payloadLength d = k + (n - fd_payloadLength d2)" using le d2(3) by simp
      then show ?thesis by (simp add: take_add)
    qed
    ultimately show ?thesis using step d2(2) same by (auto simp: same_frame_def)
  qed
qed

section \<open>The outer loop implements the specification\<close>

lemma header_value_append: "length h = 4 \<Longrightarrow> header_value (h @ x) = header_value h"
  by (simp add: header_value_def nth_append)

lemma split_frames_cons:
  assumes "length p \<le> limit" "limit \<le> MAX_UINT32"
  shows "split_frames limit (uint32_be (length p) @ p @ rest) =
    rbind (split_frames limit rest) (\<lambda>(frames, r). Inr (p # frames, r))"
  using assms by (subst split_frames.simps)
    (simp add: header_value_append header_value_uint32_be FRAME_HEADER_LENGTH_def)

lemma split_frames_pending:
  assumes "decoder_inv d"
  shows "split_frames (fd_maxFrameLength d) (pending d) = Inr ([], pending d)"
proof (cases "fd_expectedPayloadLength d")
  case None
  then show ?thesis using assms
    by (subst split_frames.simps) (simp add: pending_def decoder_inv_def)
next
  case (Some n)
  then have "length (pending d) < FRAME_HEADER_LENGTH + n" "header_value (pending d) = n" "n \<le> fd_maxFrameLength d"
    using assms payload_inv_length [of d n]
    by (auto simp: pending_def decoder_inv_def FRAME_HEADER_LENGTH_def header_value_append header_value_uint32_be)
  then show ?thesis by (subst split_frames.simps) (simp add: Let_def)
qed

text \<open>
  What \<^verbatim>\<open>push\<close> must do from a decoder \<^term>\<open>d\<close> with \<^term>\<open>chunk\<close> to go, after the frames \<^term>\<open>fs\<close>: what
  the specification does on the buffered bytes followed by the chunk.
\<close>

definition refines :: "frame_decoder \<Rightarrow> byte list \<Rightarrow> byte list list \<Rightarrow> byte list list fd_outcome option \<Rightarrow> bool" where
  "refines d chunk fs out \<longleftrightarrow>
     (case split_frames (fd_maxFrameLength d) (pending d @ chunk) of
        Inl n \<Rightarrow> \<exists>d'. out = Some (d', Inl (FrameTooLong n (fd_maxFrameLength d))) \<and> fd_state d' = Failed
      | Inr (frames, rest) \<Rightarrow> \<exists>d'. out = Some (d', Inr (fs @ frames)) \<and> decoder_inv d' \<and> pending d' = rest
          \<and> fd_maxFrameLength d' = fd_maxFrameLength d \<and> fd_state d' = fd_state d)"

lemma refines_nil: "decoder_inv d \<Longrightarrow> refines d [] fs (push_loop d [] fs)"
  by (subst push_loop.simps) (simp add: refines_def split_frames_pending)

lemma refines_shift:
  assumes "refines d1 rest fs out" "pending d1 @ rest = pending d @ chunk"
    "fd_maxFrameLength d1 = fd_maxFrameLength d" "fd_state d1 = fd_state d"
  shows "refines d chunk fs out"
  using assms by (auto simp: refines_def split: sum.splits prod.splits)

lemma refines_cons:
  assumes "refines d1 rest (fs @ [p]) out" "pending d1 = []"
    and "pending d @ chunk = uint32_be (length p) @ p @ rest" "length p \<le> fd_maxFrameLength d"
    and "fd_maxFrameLength d1 = fd_maxFrameLength d" "fd_state d1 = fd_state d" "decoder_inv d"
  shows "refines d chunk fs out"
proof -
  have "fd_maxFrameLength d \<le> MAX_UINT32" using assms(7) by (simp add: decoder_inv_def)
  then show ?thesis
    using assms split_frames_cons [of p "fd_maxFrameLength d" rest]
    by (auto simp: refines_def split: sum.splits)
qed

text \<open>The payload half of an iteration, given that the loop is right on what remains.\<close>

lemma refines_payload:
  assumes inv: "decoder_inv d" and n: "fd_expectedPayloadLength d = Some n"
    and IH: "\<And>d' rest fs. length rest < L \<Longrightarrow> decoder_inv d' \<Longrightarrow> refines d' rest fs (push_loop d' rest fs)"
    and L: "0 < L" "length (drop (n - fd_payloadLength d) chunk) < L"
  shows "refines d chunk fs (Option.bind (copy_payload d n chunk) (\<lambda>(d3, rest').
      if fd_payloadLength d3 = n
      then push_loop (reset_payload d3) rest' (fs @ [complete_payload d3 n])
      else push_loop d3 rest' fs))"
proof -
  have pinv: "payload_inv d n" "fd_payloadLength d < n" "n \<le> fd_maxFrameLength d" "fd_headerLength d = 0"
    using inv n by (auto simp: decoder_inv_def)
  obtain d3 where d3: "copy_payload d n chunk = Some (d3, drop (n - fd_payloadLength d) chunk)"
    "payload_inv d3 n" "same_frame d d3"
    "payload_bytes d3 = payload_bytes d @ take (n - fd_payloadLength d) chunk"
    using copy_payload_result [OF pinv(1), of chunk] pinv(2) by auto
  have len: "fd_payloadLength d3 = fd_payloadLength d + min (n - fd_payloadLength d) (length chunk)"
    using payload_inv_length [OF d3(2)] payload_inv_length [OF pinv(1)] d3(4) by (simp add: min.commute)
  show ?thesis
  proof (cases "fd_payloadLength d3 = n")
    case True
    let ?rest = "drop (n - fd_payloadLength d) chunk"
    have p: "complete_payload d3 n = payload_bytes d3" "length (payload_bytes d3) = n"
      using payload_inv_complete [OF d3(2) True] pinv(2) payload_inv_length [OF d3(2)] True by simp_all
    have r: "decoder_inv (reset_payload d3)" "pending (reset_payload d3) = []"
      using inv d3(3) pinv(4)
      by (auto simp: decoder_inv_def reset_payload_def same_frame_def pending_def FRAME_HEADER_LENGTH_def)
    have "refines d chunk fs (push_loop (reset_payload d3) ?rest (fs @ [payload_bytes d3]))"
    proof (rule refines_cons [OF IH [OF L(2) r(1)] r(2)])
      show "pending d @ chunk = uint32_be (length (payload_bytes d3)) @ payload_bytes d3 @ ?rest"
        using p(2) d3(4) n by (simp add: pending_def)
    qed (use p pinv inv d3(3) in \<open>auto simp: same_frame_def reset_payload_def\<close>)
    then show ?thesis using d3(1) True p(1) by simp
  next
    case False
    then have short: "length chunk < n - fd_payloadLength d" using len pinv(2) by (simp add: min_def split: if_splits)
    then have rest: "drop (n - fd_payloadLength d) chunk = []" "take (n - fd_payloadLength d) chunk = chunk"
      by simp_all
    have "decoder_inv d3" "pending d3 = pending d @ chunk"
      using inv n d3(2,3,4) pinv len short rest(2) by (auto simp: decoder_inv_def same_frame_def pending_def)
    then have "refines d3 [] fs (push_loop d3 [] fs)" using IH L(1) by simp
    then have "refines d chunk fs (push_loop d3 [] fs)"
      by (rule refines_shift) (use \<open>pending d3 = pending d @ chunk\<close> d3(3) in \<open>auto simp: same_frame_def\<close>)
    then show ?thesis using d3(1) False rest(1) by simp
  qed
qed

lemma push_loop_refines: "decoder_inv d \<Longrightarrow> refines d chunk fs (push_loop d chunk fs)"
proof (induction "length chunk" arbitrary: chunk d fs rule: less_induct)
  case less
  note inv = less.prems
  show ?case
  proof (cases "chunk = []")
    case True
    then show ?thesis using refines_nil [OF inv] by simp
  next
    case False
    show ?thesis
    proof (cases "fd_expectedPayloadLength d")
      case (Some n)
      have "0 < n - fd_payloadLength d" using inv Some by (simp add: decoder_inv_def)
      then have "length (drop (n - fd_payloadLength d) chunk) < length chunk" using False by (cases chunk) auto
      then have "refines d chunk fs (Option.bind (copy_payload d n chunk) (\<lambda>(d3, rest').
          if fd_payloadLength d3 = n
          then push_loop (reset_payload d3) rest' (fs @ [complete_payload d3 n])
          else push_loop d3 rest' fs))"
        using refines_payload [OF inv Some less.hyps, of "length chunk"] False by simp
      then show ?thesis using False Some by (subst push_loop.simps) simp
    next
      case None
      define k where "k = min (4 - fd_headerLength d) (length chunk)"
      define d1 where "d1 = d\<lparr>fd_header := blit (fd_header d) (fd_headerLength d) (take k chunk),
        fd_headerLength := fd_headerLength d + k\<rparr>"
      have hl: "fd_headerLength d < 4" "length (fd_header d) = 4"
        using inv None by (simp_all add: decoder_inv_def FRAME_HEADER_LENGTH_def)
      have k: "0 < k" "k \<le> length chunk" "fd_headerLength d + k \<le> 4" using hl False by (auto simp: k_def)
      have len: "length (take k chunk) = k" using k by simp
      have short: "length (drop k chunk) < length chunk" using k by simp
      have d1: "take (fd_headerLength d1) (fd_header d1) = pending d @ take k chunk" "length (fd_header d1) = 4"
        "fd_expectedPayloadLength d1 = None" "fd_maxFrameLength d1 = fd_maxFrameLength d" "fd_state d1 = fd_state d"
        using take_blit [of "fd_headerLength d" "take k chunk" "fd_header d"] k hl len None
        by (simp_all add: d1_def pending_def)
      show ?thesis
      proof (cases "fd_headerLength d1 < 4")
        case True
        have inv1: "decoder_inv d1"
          using inv d1 True by (simp add: decoder_inv_def FRAME_HEADER_LENGTH_def)
        have "refines d chunk fs (push_loop d1 (drop k chunk) fs)"
          by (rule refines_shift [OF less.hyps [OF short inv1]]) (use d1 in \<open>simp_all add: pending_def\<close>)
        moreover have "push_loop d chunk fs = push_loop d1 (drop k chunk) fs"
          using False None True by (subst push_loop.simps)
            (simp add: Let_def FRAME_HEADER_LENGTH_def d1_def flip: k_def)
        ultimately show ?thesis by simp
      next
        case full: False
        define rest where "rest = drop k chunk"
        define n where "n = header_value (fd_header d1)"
        define d2 where "d2 = d1\<lparr>fd_headerLength := 0\<rparr>"
        have hd1: "fd_header d1 = pending d @ take k chunk" using d1(1,2) full by simp
        have split: "pending d @ chunk = fd_header d1 @ rest" by (simp add: hd1 rest_def)
        have hv: "header_value (pending d @ chunk) = n" using d1(2) by (simp add: split n_def header_value_append)
        have step: "push_loop d chunk fs =
          (if n > fd_maxFrameLength d then Some (fd_fail d2 (FrameTooLong n (fd_maxFrameLength d)))
           else if n = 0 then push_loop d2 rest (fs @ [[]])
           else Option.bind (copy_payload (start_payload d2 n) n rest) (\<lambda>(d3, rest').
             if fd_payloadLength d3 = n
             then push_loop (reset_payload d3) rest' (fs @ [complete_payload d3 n])
             else push_loop d3 rest' fs))"
          using False None full unfolding n_def d2_def rest_def d1_def
          by (subst push_loop.simps) (simp add: Let_def FRAME_HEADER_LENGTH_def flip: k_def cong: if_cong)
        consider (long) "n > fd_maxFrameLength d" | (zero) "n \<le> fd_maxFrameLength d" "n = 0"
          | (payload) "n \<le> fd_maxFrameLength d" "0 < n" by linarith
        then show ?thesis
        proof cases
          case long
          have "split_frames (fd_maxFrameLength d) (pending d @ chunk) = Inl n"
            using long hv d1(2) split by (subst split_frames.simps) (simp add: FRAME_HEADER_LENGTH_def)
          then show ?thesis using step long by (simp add: refines_def fd_fail_def)
        next
          case zero
          have inv2: "decoder_inv d2" "pending d2 = []"
            using inv d1 by (simp_all add: d2_def decoder_inv_def FRAME_HEADER_LENGTH_def pending_def)
          have "refines d chunk fs (push_loop d2 rest (fs @ [[]]))"
          proof (rule refines_cons [OF less.hyps [OF _ inv2(1)] inv2(2)])
            show "pending d @ chunk = uint32_be (length []) @ [] @ rest"
              using zero uint32_be_header_value [OF d1(2)] by (simp add: split n_def)
          qed (use short inv d1 in \<open>simp_all add: d2_def rest_def\<close>)
          then show ?thesis using step zero by simp
        next
          case payload
          have inv2: "decoder_inv (start_payload d2 n)" "fd_expectedPayloadLength (start_payload d2 n) = Some n"
            using inv d1 payload
            by (simp_all add: d2_def decoder_inv_def start_payload_def payload_inv_def FRAME_HEADER_LENGTH_def)
          have "refines (start_payload d2 n) rest fs (Option.bind (copy_payload (start_payload d2 n) n rest) (\<lambda>(d3, rest').
              if fd_payloadLength d3 = n
              then push_loop (reset_payload d3) rest' (fs @ [complete_payload d3 n])
              else push_loop d3 rest' fs))"
            using short False by (intro refines_payload [OF inv2 less.hyps, of "length chunk"]) (auto simp: rest_def)
          then have "refines (start_payload d2 n) rest fs (push_loop d chunk fs)"
            using step payload by simp
          then show ?thesis
          proof (rule refines_shift)
            have "pending (start_payload d2 n) = fd_header d1"
              using uint32_be_header_value [OF d1(2)]
              by (simp add: pending_def start_payload_def payload_bytes_def n_def)
            then show "pending (start_payload d2 n) @ rest = pending d @ chunk" using split by simp
          qed (use d1 in \<open>simp_all add: start_payload_def d2_def\<close>)
        qed
      qed
    qed
  qed
qed

section \<open>The interface of a frame stream\<close>

text \<open>
  A stream of chunks fed to a decoder, one call of \<^verbatim>\<open>push\<close> after the other; the results are
  concatenated and the first exception ends the run.
\<close>

fun feed :: "('d \<Rightarrow> 'c \<Rightarrow> ('d \<times> ('e, 'a list) result) option) \<Rightarrow> 'd \<Rightarrow> 'c list \<Rightarrow>
    ('d \<times> ('e, 'a list) result) option" where
  "feed push d [] = Some (d, Inr [])"
| "feed push d (c # cs) =
     (case push d c of
        None \<Rightarrow> None
      | Some (d', Inl e) \<Rightarrow> Some (d', Inl e)
      | Some (d', Inr xs) \<Rightarrow>
          (case feed push d' cs of
             None \<Rightarrow> None
           | Some (d'', r) \<Rightarrow> Some (d'', rbind r (\<lambda>ys. Inr (xs @ ys)))))"

text \<open>
  What a decoder of frames promises its clients: it holds the bytes of the stream that are not yet
  part of a delivered frame, a chunk that continues a stream of frames delivers the frames it
  completes, and what it holds back is never a complete frame.
\<close>

locale frame_stream =
  fixes frame :: "byte list \<Rightarrow> byte list"
    and fits :: "byte list \<Rightarrow> bool"
    and push :: "'d \<Rightarrow> byte list \<Rightarrow> ('d \<times> ('e, byte list list) result) option"
    and ready :: "'d \<Rightarrow> bool"
    and held :: "'d \<Rightarrow> byte list"
  assumes push_prefix: "ready d \<Longrightarrow> list_all fits ps \<Longrightarrow> held d @ chunk @ later = concat (map frame ps) \<Longrightarrow>
      \<exists>d' fs ps'. push d chunk = Some (d', Inr fs) \<and> ready d' \<and> ps = fs @ ps' \<and> held d' @ later = concat (map frame ps')"
    and held_incomplete: "ready d \<Longrightarrow> list_all fits ps \<Longrightarrow> held d = concat (map frame ps) \<Longrightarrow> ps = []"
begin

lemma feed_complete:
  "ready d \<Longrightarrow> list_all fits ps \<Longrightarrow> held d @ concat chunks = concat (map frame ps) \<Longrightarrow>
     \<exists>d'. feed push d chunks = Some (d', Inr ps) \<and> ready d' \<and> held d' = []"
proof (induction chunks arbitrary: d ps)
  case Nil
  then show ?case using held_incomplete [of d ps] by simp
next
  case (Cons c cs)
  from Cons.prems obtain d' fs ps' where d': "push d c = Some (d', Inr fs)" "ready d'" "ps = fs @ ps'"
    "held d' @ concat cs = concat (map frame ps')"
    using push_prefix [of d ps c "concat cs"] by auto
  have "list_all fits ps'" using Cons.prems(2) d'(3) by simp
  from Cons.IH [OF d'(2) this d'(4)] show ?case using d'(1,3) by auto
qed

end

definition frame_bytes :: "byte list \<Rightarrow> byte list" where
  "frame_bytes p = uint32_be (length p) @ p"

definition ready :: "nat \<Rightarrow> frame_decoder \<Rightarrow> bool" where
  "ready limit d \<longleftrightarrow> decoder_inv d \<and> fd_state d = Open \<and> fd_maxFrameLength d = limit"

lemma ready_new: "new_frame_decoder options = Inr d \<Longrightarrow> ready (fd_maxFrameLength d) d \<and> pending d = []"
  by (auto simp: new_frame_decoder_def ready_def decoder_inv_def pending_def FRAME_HEADER_LENGTH_def
      resolveMaxFrameLength_def Let_def split: if_splits)

lemma push_refines: "ready limit d \<Longrightarrow> refines d chunk [] (fd_push d chunk)"
  using push_loop_refines [of d chunk "[]"] by (simp add: ready_def fd_push_def)

text \<open>A prefix of a stream of frames is cut into the frames that are complete in it.\<close>

lemma split_frames_prefix:
  assumes "limit \<le> MAX_UINT32" "list_all (\<lambda>p. length p \<le> limit) ps" "bs @ later = concat (map frame_bytes ps)"
  shows "\<exists>fs ps' r. split_frames limit bs = Inr (fs, r) \<and> ps = fs @ ps' \<and> r @ later = concat (map frame_bytes ps')"
  using assms(2,3)
proof (induction ps arbitrary: bs)
  case Nil
  then have "split_frames limit bs = Inr ([], [])" by (subst split_frames.simps) (simp add: FRAME_HEADER_LENGTH_def)
  then show ?case using Nil by simp
next
  case (Cons p ps)
  show ?case
  proof (cases "length (frame_bytes p) \<le> length bs")
    case True
    have "bs = frame_bytes p @ drop (length (frame_bytes p)) bs"
      using Cons.prems(2) True by (metis append_eq_append_conv_if append_take_drop_id concat.simps(2) list.simps(9))
    then obtain bs' where bs': "bs = frame_bytes p @ bs'" by blast
    then obtain fs ps' r where r: "split_frames limit bs' = Inr (fs, r)" "ps = fs @ ps'" "r @ later = concat (map frame_bytes ps')"
      using Cons.IH [of bs'] Cons.prems by auto
    have "split_frames limit bs = Inr (p # fs, r)"
      using split_frames_cons [of p limit bs'] Cons.prems(1) assms(1) r(1) by (simp add: bs' frame_bytes_def)
    then show ?thesis using r(2,3) by (intro exI [of _ "p # fs"] exI [of _ ps'] exI [of _ r]) simp
  next
    case False
    have bs: "bs = take (length bs) (frame_bytes p)"
      using Cons.prems(2) False by (metis append_eq_append_conv_if append_take_drop_id concat.simps(2) linorder_le_cases list.simps(9) take_all)
    have "header_value bs = length p" if "4 \<le> length bs"
    proof -
      have "take 4 bs = uint32_be (length p)" by (subst bs) (simp add: frame_bytes_def that min_absorb1)
      then have "bs = uint32_be (length p) @ drop 4 bs" by (metis append_take_drop_id)
      moreover have "length p \<le> MAX_UINT32" using Cons.prems(1) assms(1) by simp
      ultimately show ?thesis by (metis header_value_append length_uint32_be header_value_uint32_be)
    qed
    then have "split_frames limit bs = Inr ([], bs)"
      using False Cons.prems(1) by (subst split_frames.simps) (auto simp: FRAME_HEADER_LENGTH_def frame_bytes_def Let_def)
    then show ?thesis using Cons.prems(2) by fastforce
  qed
qed

interpretation fstream: frame_stream frame_bytes "\<lambda>p. length p \<le> limit" fd_push "ready limit" pending for limit
proof
  fix d ps chunk later
  assume d: "ready limit d" and ps: "list_all (\<lambda>p. length p \<le> limit) ps" "pending d @ chunk @ later = concat (map frame_bytes ps)"
  have "limit \<le> MAX_UINT32" using d by (auto simp: ready_def decoder_inv_def)
  then obtain fs ps' r where *: "split_frames limit (pending d @ chunk) = Inr (fs, r)" "ps = fs @ ps'"
    "r @ later = concat (map frame_bytes ps')"
    using split_frames_prefix [OF _ ps(1), of "pending d @ chunk" later] ps(2) by auto
  then show "\<exists>d' fs ps'. fd_push d chunk = Some (d', Inr fs) \<and> ready limit d' \<and> ps = fs @ ps' \<and>
      pending d' @ later = concat (map frame_bytes ps')"
    using push_refines [OF d, of chunk] d by (fastforce simp: refines_def ready_def)
next
  fix d ps
  assume d: "ready limit d" and ps: "list_all (\<lambda>p. length p \<le> limit) ps" "pending d = concat (map frame_bytes ps)"
  have "limit \<le> MAX_UINT32" using d by (auto simp: ready_def decoder_inv_def)
  then obtain fs ps' where *: "split_frames limit (pending d) = Inr (fs, concat (map frame_bytes ps'))" "ps = fs @ ps'"
    using split_frames_prefix [OF _ ps(1), of "pending d" "[]"] ps(2) by auto
  then have "fs = []" "concat (map frame_bytes ps') = pending d"
    using split_frames_pending [of d] d by (auto simp: ready_def)
  show "ps = []"
  proof (cases ps)
    case (Cons p qs)
    then have "split_frames limit (pending d) = rbind (split_frames limit (concat (map frame_bytes qs)))
        (\<lambda>(frames, r). Inr (p # frames, r))"
      using split_frames_cons [of p limit] ps \<open>limit \<le> MAX_UINT32\<close> by (simp add: frame_bytes_def)
    then show ?thesis using * \<open>fs = []\<close>
      by (cases "split_frames limit (concat (map frame_bytes qs))") auto
  qed simp
qed

section \<open>Properties\<close>

lemma frame_bytes_encodeFrame: "encodeFrame p = Inr f \<Longrightarrow> f = frame_bytes p"
  using encodeFrame_eq [of p] by (auto simp: frame_bytes_def encodeFrame_def split: if_splits)

lemma rmap_encodeFrame: "rmap encodeFrame ps = Inr fs \<Longrightarrow> fs = map frame_bytes ps"
  by (induction ps arbitrary: fs) (auto elim!: rbindE dest: frame_bytes_encodeFrame)

lemma stream_complete:
  assumes "new_frame_decoder options = Inr d" "list_all (\<lambda>p. length p \<le> fd_maxFrameLength d) payloads"
    and "concat chunks = concat (map frame_bytes payloads)"
  shows "\<exists>d'. feed fd_push d chunks = Some (d', Inr payloads) \<and> snd (fd_end d') = Inr ()"
proof -
  have d: "ready (fd_maxFrameLength d) d" "pending d = []" using ready_new [OF assms(1)] by auto
  obtain d' where d': "feed fd_push d chunks = Some (d', Inr payloads)" "ready (fd_maxFrameLength d) d'" "pending d' = []"
    using fstream.feed_complete [OF d(1) assms(2), of chunks] d(2) assms(3) by auto
  have "fd_expectedPayloadLength d' = None" "fd_headerLength d' = 0"
    using d'(2,3) by (auto simp: pending_def ready_def decoder_inv_def uint32_be_def FRAME_HEADER_LENGTH_def split: option.splits)
  then have "snd (fd_end d') = Inr ()" using d'(2) by (simp add: fd_end_def ready_def)
  then show ?thesis using d'(1) by blast
qed

text \<open>
  C9. However a byte stream made of encoded frames is cut into chunks, a fresh decoder returns
  exactly the payloads, in order, and accepts the end of the stream.
\<close>

theorem frame_stream_roundtrip:
  assumes "new_frame_decoder options = Inr d" "rmap encodeFrame payloads = Inr frames"
    and "list_all (\<lambda>p. length p \<le> fd_maxFrameLength d) payloads" "concat chunks = concat frames"
  shows "\<exists>d'. feed fd_push d chunks = Some (d', Inr payloads) \<and> snd (fd_end d') = Inr ()"
  using stream_complete [OF assms(1,3)] assms(4) rmap_encodeFrame [OF assms(2)] by simp

text \<open>
  C21. The incremental decoder is equivalent to cutting the whole stream at once: from any open
  decoder in a consistent state, \<^verbatim>\<open>push\<close> returns (it never loops), returns the frames that the
  buffered bytes followed by the chunk contain, keeps exactly the incomplete rest, and fails on the
  first length above the limit, after which the decoder is in its failed state.
\<close>

theorem push_implements_split:
  assumes "decoder_inv d" "fd_state d = Open"
  shows "case split_frames (fd_maxFrameLength d) (pending d @ chunk) of
      Inl n \<Rightarrow> \<exists>d'. fd_push d chunk = Some (d', Inl (FrameTooLong n (fd_maxFrameLength d))) \<and> fd_state d' = Failed
    | Inr (frames, rest) \<Rightarrow> \<exists>d'. fd_push d chunk = Some (d', Inr frames) \<and> decoder_inv d' \<and> pending d' = rest"
  using push_refines [of "fd_maxFrameLength d" d chunk] assms
  by (auto simp: refines_def ready_def split: sum.splits)

text \<open>The end of the stream is refused exactly when bytes of an incomplete frame are buffered.\<close>

lemma end_truncated:
  assumes "decoder_inv d" "fd_state d = Open"
  shows "snd (fd_end d) = (if pending d = [] then Inr () else Inl TruncatedFrame)"
  using assms by (auto simp: fd_end_def fd_fail_def pending_def decoder_inv_def uint32_be_def FRAME_HEADER_LENGTH_def
      split: option.splits)

section \<open>Witnesses\<close>

definition sample_decoder :: frame_decoder where
  "sample_decoder = \<lparr>fd_header = [0, 0, 0, 0], fd_headerLength = 0, fd_maxFrameLength = 5,
     fd_payloadBlocks = [], fd_currentPayloadBlock = None, fd_currentPayloadBlockLength = 0,
     fd_expectedPayloadLength = None, fd_payloadLength = 0, fd_state = Open\<rparr>"

lemma new_sample_decoder: "new_frame_decoder (Some 5) = Inr sample_decoder"
proof -
  have "replicate FRAME_HEADER_LENGTH (0 :: byte) = [0, 0, 0, 0]"
    by (simp add: FRAME_HEADER_LENGTH_def eval_nat_numeral)
  then show ?thesis
    by (simp add: new_frame_decoder_def resolveMaxFrameLength_def sample_decoder_def MAX_UINT32_def)
qed

lemma sample_decoder_inv: "decoder_inv sample_decoder" "fd_state sample_decoder = Open" "pending sample_decoder = []"
  by (simp_all add: sample_decoder_def decoder_inv_def FRAME_HEADER_LENGTH_def MAX_UINT32_def pending_def)

theorem frame_stream_roundtrip_witness:
  "\<exists>d'. feed fd_push sample_decoder [[0, 0], [0, 2, 7], [8, 0, 0, 0, 0]] = Some (d', Inr [[7, 8], []])
     \<and> snd (fd_end d') = Inr ()"
proof (rule frame_stream_roundtrip [OF new_sample_decoder])
  show "rmap encodeFrame [[7, 8], []] = Inr [[0, 0, 0, 2, 7, 8], [0, 0, 0, 0]]"
    by (simp add: encodeFrame_eq MAX_UINT32_def uint32_be_def byte_of_nat_def)
qed (simp_all add: sample_decoder_def)

theorem push_implements_split_witness:
  "\<exists>d'. fd_push sample_decoder [0, 0, 0, 9] = Some (d', Inl (FrameTooLong 9 5)) \<and> fd_state d' = Failed"
proof -
  have "split_frames 5 [0, 0, 0, 9] = Inl 9"
    by (subst split_frames.simps) (simp add: FRAME_HEADER_LENGTH_def header_value_def nat_of_byte_def)
  then show ?thesis
    using push_implements_split [OF sample_decoder_inv(1,2), of "[0, 0, 0, 9]"] sample_decoder_inv(3)
    by (simp add: sample_decoder_def)
qed

end
