(* ===== verification/JsValues.thy ===== *)
theory JsValues
  imports Prelude
begin

text \<open>
  The JavaScript values the modelled packages compute with: strings as UTF-16 code units, numbers,
  objects as property lists in the order \<^verbatim>\<open>Object.keys\<close> enumerates them, and the \<^verbatim>\<open>JsonValue\<close> of
  \<^verbatim>\<open>packages/chord/src/types.ts\<close>; and \<^verbatim>\<open>JSON.stringify\<close> on the arrays that serve as map keys.
\<close>

section \<open>Strings and numbers\<close>

type_synonym jsstring = "16 word list"

definition js :: "string \<Rightarrow> jsstring" where
  "js s = map of_char s"

lemma js_eq_iff [simp]: "js s = js t \<longleftrightarrow> s = t"
proof -
  have "inj (of_char :: char \<Rightarrow> 16 word)"
  proof (rule injI)
    fix c d :: char
    assume "(of_char c :: 16 word) = of_char d"
    then have "word_of_nat (of_char c) = (word_of_nat (of_char d) :: 16 word)" by (simp add: of_nat_of_char)
    then have "unat (word_of_nat (of_char c) :: 16 word) = unat (word_of_nat (of_char d) :: 16 word)" by simp
    moreover have "(of_char c :: nat) < 65536" "(of_char d :: nat) < 65536"
      using nat_of_char_less_256 [of c] nat_of_char_less_256 [of d] by linarith+
    ultimately have "(of_char c :: nat) = of_char d" by (simp add: unat_of_nat)
    then show "c = d" by simp
  qed
  then show ?thesis by (simp add: js_def inj_map_eq_map)
qed

text \<open>
  A number is an integer, the negative zero, a finite double that is not an integer (by its IEEE 754
  bits), an infinity or not a number. Integers beyond the safe range stand for the doubles of that value.
\<close>

datatype jsnum = NInt int | NNegZero | NFrac "64 word" | NInf bool | NNaN

fun num_eq :: "jsnum \<Rightarrow> jsnum \<Rightarrow> bool" where
  "num_eq NNaN b = False"
| "num_eq NNegZero b = (b = NNegZero \<or> b = NInt 0)"
| "num_eq a b = (a = b \<or> (a = NInt 0 \<and> b = NNegZero))"

definition isFinite :: "jsnum \<Rightarrow> bool" where
  "isFinite n = (case n of NInf _ \<Rightarrow> False | NNaN \<Rightarrow> False | _ \<Rightarrow> True)"

definition isInteger :: "jsnum \<Rightarrow> bool" where
  "isInteger n = (case n of NInt _ \<Rightarrow> True | NNegZero \<Rightarrow> True | _ \<Rightarrow> False)"

definition MAX_SAFE_INTEGER :: int where
  "MAX_SAFE_INTEGER = 2 ^ 53 - 1"

definition isSafeInteger :: "jsnum \<Rightarrow> bool" where
  "isSafeInteger n = (case n of NInt i \<Rightarrow> \<bar>i\<bar> \<le> MAX_SAFE_INTEGER | NNegZero \<Rightarrow> True | _ \<Rightarrow> False)"

lemma num_eq_refl: "isFinite n \<Longrightarrow> num_eq n n"
  by (cases n) (auto simp: isFinite_def)

lemma num_eq_sym: "num_eq a b \<longleftrightarrow> num_eq b a"
  by (cases a; cases b) auto

lemma num_eq_trans: "num_eq a b \<Longrightarrow> num_eq b c \<Longrightarrow> num_eq a c"
  by (cases a; cases b; cases c) auto

section \<open>Decimal text\<close>

fun decimal :: "nat \<Rightarrow> jsstring" where
  "decimal n = (if n < 10 then [48 + word_of_nat n] else decimal (n div 10) @ [48 + word_of_nat (n mod 10)])"

declare decimal.simps [simp del]

definition is_digit :: "16 word \<Rightarrow> bool" where
  "is_digit c \<longleftrightarrow> 48 \<le> c \<and> c \<le> 57"

definition digit_value :: "16 word \<Rightarrow> nat" where
  "digit_value c = unat c - 48"

definition decimal_value :: "jsstring \<Rightarrow> nat" where
  "decimal_value s = foldl (\<lambda>n c. 10 * n + digit_value c) 0 s"

lemma digit_char:
  assumes "n < 10"
  shows "is_digit (48 + word_of_nat n)" "digit_value (48 + word_of_nat n) = n"
proof -
  have "unat (48 + word_of_nat n :: 16 word) = 48 + n"
    using assms by (simp add: unat_word_ariths unat_of_nat)
  then show "is_digit (48 + word_of_nat n)" "digit_value (48 + word_of_nat n) = n"
    using assms by (simp_all add: is_digit_def digit_value_def word_le_nat_alt)
qed

lemma decimal_digits: "list_all is_digit (decimal n)" "decimal n \<noteq> []" "decimal_value (decimal n) = n"
proof -
  have "list_all is_digit (decimal n) \<and> decimal n \<noteq> [] \<and> decimal_value (decimal n) = n"
  proof (induction n rule: decimal.induct)
    case (1 n)
    show ?case
    proof (cases "n < 10")
      case True
      then have eq: "decimal n = [48 + word_of_nat n]" by (subst decimal.simps) simp
      show ?thesis using digit_char [OF True] by (simp add: eq decimal_value_def)
    next
      case False
      have eq: "decimal n = decimal (n div 10) @ [48 + word_of_nat (n mod 10)]"
        using False by (subst decimal.simps) simp
      show ?thesis using 1 [OF False] digit_char [of "n mod 10"] by (simp add: eq decimal_value_def)
    qed
  qed
  then show "list_all is_digit (decimal n)" "decimal n \<noteq> []" "decimal_value (decimal n) = n" by blast+
qed

lemma decimal_inj: "decimal m = decimal n \<longleftrightarrow> m = n"
  by (metis decimal_digits(3))

section \<open>Objects\<close>

text \<open>
  The own enumerable string properties of a plain object, in the order of \<^verbatim>\<open>Object.keys\<close>: the array
  indices in ascending order, then the other keys in the order of their creation.
\<close>

type_synonym 'v obj = "(jsstring \<times> 'v) list"

definition array_index :: "jsstring \<Rightarrow> nat option" where
  "array_index k = (let n = decimal_value k in
     if k \<noteq> [] \<and> list_all is_digit k \<and> decimal n = k \<and> n < 2 ^ 32 - 1 then Some n else None)"

text \<open>A new property goes before the first key that comes after it in property order.\<close>

definition key_before :: "jsstring \<Rightarrow> jsstring \<Rightarrow> bool" where
  "key_before k a = (case array_index k of
      None \<Rightarrow> False
    | Some m \<Rightarrow> (case array_index a of None \<Rightarrow> True | Some n \<Rightarrow> m < n))"

fun obj_insert :: "jsstring \<Rightarrow> 'v \<Rightarrow> 'v obj \<Rightarrow> 'v obj" where
  "obj_insert k v [] = [(k, v)]"
| "obj_insert k v ((a, b) # xs) = (if key_before k a then (k, v) # (a, b) # xs else (a, b) # obj_insert k v xs)"

text \<open>Defining a property: an existing key keeps its position.\<close>

definition obj_set :: "jsstring \<Rightarrow> 'v \<Rightarrow> 'v obj \<Rightarrow> 'v obj" where
  "obj_set k v xs = (if k \<in> fst ` set xs then map_set k v xs else obj_insert k v xs)"

lemma set_obj_insert: "set (obj_insert k v xs) = insert (k, v) (set xs)"
  by (induction k v xs rule: obj_insert.induct) auto

lemma keys_obj_set [simp]: "fst ` set (obj_set k v xs) = insert k (fst ` set xs)"
  by (auto simp: obj_set_def fst_map_set set_obj_insert)

lemma map_of_obj_insert: "k \<notin> fst ` set xs \<Longrightarrow> map_of (obj_insert k v xs) = (map_of xs)(k \<mapsto> v)"
  by (induction k v xs rule: obj_insert.induct) auto

lemma map_of_obj_set [simp]: "map_of (obj_set k v xs) = (map_of xs)(k \<mapsto> v)"
  by (simp add: obj_set_def map_of_obj_insert)

lemma distinct_obj_insert: "distinct (map fst xs) \<Longrightarrow> k \<notin> fst ` set xs \<Longrightarrow> distinct (map fst (obj_insert k v xs))"
  by (induction k v xs rule: obj_insert.induct) (auto simp: set_obj_insert)

lemma distinct_obj_set: "distinct (map fst xs) \<Longrightarrow> distinct (map fst (obj_set k v xs))"
  by (simp add: obj_set_def distinct_map_set distinct_obj_insert)

lemma obj_set_values: "(a, b) \<in> set (obj_set k v xs) \<Longrightarrow> (a, b) \<in> set xs \<or> (a = k \<and> b = v)"
proof -
  have "(a, b) \<in> set (map_set k v xs) \<Longrightarrow> (a, b) \<in> set xs \<or> (a = k \<and> b = v)"
    by (induction k v xs rule: map_set.induct) (auto split: if_splits)
  then show "(a, b) \<in> set (obj_set k v xs) \<Longrightarrow> ?thesis"
    by (auto simp: obj_set_def set_obj_insert split: if_splits)
qed

definition obj_delete :: "jsstring \<Rightarrow> 'v obj \<Rightarrow> 'v obj" where
  "obj_delete = map_delete"

text \<open>Property order, and that defining the properties of an ordered list one by one rebuilds it.\<close>

definition key_ordered :: "jsstring list \<Rightarrow> bool" where
  "key_ordered ks = sorted_wrt (\<lambda>a b. \<not> key_before b a) ks"

lemma key_before_trans:
  "key_before k a \<Longrightarrow> \<not> key_before l a \<Longrightarrow> \<not> key_before l k"
  by (auto simp: key_before_def split: option.splits)

lemma key_ordered_insert:
  "key_ordered (map fst xs) \<Longrightarrow> key_ordered (map fst (obj_insert k v xs))"
proof (induction k v xs rule: obj_insert.induct)
  case (1 k v)
  then show ?case by (simp add: key_ordered_def)
next
  case (2 k v a b xs)
  show ?case
  proof (cases "key_before k a")
    case True
    then have "\<not> key_before a k" by (auto simp: key_before_def split: option.splits)
    moreover have "\<not> key_before l k" if "l \<in> fst ` set xs" for l
      using 2(2) True that key_before_trans [of k a l] by (auto simp: key_ordered_def)
    ultimately show ?thesis using 2(2) True by (auto simp: key_ordered_def)
  next
    case False
    then show ?thesis using 2 by (auto simp: key_ordered_def set_obj_insert)
  qed
qed

lemma map_fst_map_set: "k \<in> fst ` set xs \<Longrightarrow> map fst (map_set k v xs) = map fst xs"
  by (induction k v xs rule: map_set.induct) auto

lemma key_ordered_obj_set: "key_ordered (map fst xs) \<Longrightarrow> key_ordered (map fst (obj_set k v xs))"
  by (simp add: obj_set_def map_fst_map_set key_ordered_insert)

lemma key_ordered_obj_delete: "key_ordered (map fst xs) \<Longrightarrow> key_ordered (map fst (obj_delete k xs))"
  by (simp add: key_ordered_def obj_delete_def map_delete_def sorted_wrt_map sorted_wrt_filter)

lemma obj_insert_append: "list_all (\<lambda>(a, b). \<not> key_before k a) xs \<Longrightarrow> obj_insert k v xs = xs @ [(k, v)]"
  by (induction k v xs rule: obj_insert.induct) auto

lemma obj_set_append:
  "k \<notin> fst ` set xs \<Longrightarrow> list_all (\<lambda>(a, b). \<not> key_before k a) xs \<Longrightarrow> obj_set k v xs = xs @ [(k, v)]"
  by (simp add: obj_set_def obj_insert_append)

lemma obj_rebuild:
  assumes "distinct (map fst ps)" "key_ordered (map fst ps)"
  shows "foldl (\<lambda>acc kv. obj_set (fst kv) (snd kv) acc) [] ps = ps"
  using assms
proof (induction ps rule: rev_induct)
  case Nil
  then show ?case by simp
next
  case (snoc p ps)
  have "fst p \<notin> fst ` set ps" "list_all (\<lambda>(a, b). \<not> key_before (fst p) a) ps"
    using snoc.prems by (auto simp: key_ordered_def sorted_wrt_append list_all_iff)
  then show ?case using snoc by (simp add: key_ordered_def sorted_wrt_append obj_set_append)
qed

section \<open>Json values\<close>

datatype json = JNull | JBool bool | JNum jsnum | JStr jsstring | JArr "json list" | JObj "json obj"

text \<open>Finite numbers, no key twice, keys in property order: what every \<^verbatim>\<open>JsonValue\<close> satisfies.\<close>

fun wf_json :: "json \<Rightarrow> bool" where
  "wf_json (JNum n) = isFinite n"
| "wf_json (JArr xs) = list_all wf_json xs"
| "wf_json (JObj ps) = (distinct (map fst ps) \<and> key_ordered (map fst ps) \<and> list_all (\<lambda>p. wf_json (snd p)) ps)"
| "wf_json _ = True"

text \<open>
  Equality of two Json values: the order of keys and the sign of zero do not count. This is what the
  comparison of two values that share no reference computes.
\<close>

fun json_eqv :: "json \<Rightarrow> json \<Rightarrow> bool" where
  "json_eqv JNull b = (b = JNull)"
| "json_eqv (JBool x) b = (b = JBool x)"
| "json_eqv (JNum x) b = (case b of JNum y \<Rightarrow> num_eq x y | _ \<Rightarrow> False)"
| "json_eqv (JStr x) b = (b = JStr x)"
| "json_eqv (JArr xs) b = (case b of JArr ys \<Rightarrow> list_all2 json_eqv xs ys | _ \<Rightarrow> False)"
| "json_eqv (JObj xs) b =
     (case b of
        JObj ys \<Rightarrow> length xs = length ys \<and>
          list_all (\<lambda>p. case map_of ys (fst p) of None \<Rightarrow> False | Some w \<Rightarrow> json_eqv (snd p) w) xs
      | _ \<Rightarrow> False)"

lemma json_eqv_refl: "wf_json a \<Longrightarrow> json_eqv a a"
proof (induction a)
  case (JArr xs)
  then show ?case by (auto simp: list_all_iff intro!: list.rel_refl_strong)
next
  case (JObj ps)
  have "map_of ps (fst p) = Some (snd p) \<and> json_eqv (snd p) (snd p)" if "p \<in> set ps" for p
    using JObj that by (cases p) (auto simp: list_all_iff snds.simps)
  then show ?case by (auto simp: list_all_iff)
qed (auto simp: num_eq_refl)

lemma list_all2_sym_strong:
  "list_all2 P xs ys \<Longrightarrow> (\<And>x y. x \<in> set xs \<Longrightarrow> y \<in> set ys \<Longrightarrow> P x y \<Longrightarrow> Q y x) \<Longrightarrow> list_all2 Q ys xs"
  by (induction rule: list_all2_induct) auto

lemma rel_option_converse_strong:
  "rel_option P x y \<Longrightarrow> (\<And>a b. x = Some a \<Longrightarrow> y = Some b \<Longrightarrow> P a b \<Longrightarrow> Q b a) \<Longrightarrow> rel_option Q y x"
  by (cases x; cases y) auto

lemma rel_option_trans_strong:
  "rel_option P x y \<Longrightarrow> rel_option Q y z \<Longrightarrow>
    (\<And>a b c. x = Some a \<Longrightarrow> y = Some b \<Longrightarrow> z = Some c \<Longrightarrow> P a b \<Longrightarrow> Q b c \<Longrightarrow> R a c) \<Longrightarrow> rel_option R x z"
  by (cases x; cases y; cases z) auto

text \<open>Two objects are equal when their property maps are, key by key.\<close>

lemma json_eqv_obj:
  assumes "distinct (map fst xs)" "distinct (map fst ys)"
  shows "json_eqv (JObj xs) (JObj ys) \<longleftrightarrow> (\<forall>k. rel_option json_eqv (map_of xs k) (map_of ys k))"
proof -
  have fin: "finite (fst ` set xs)" "finite (fst ` set ys)"
    and len: "length xs = card (fst ` set xs)" "length ys = card (fst ` set ys)"
    using distinct_card [OF assms(1)] distinct_card [OF assms(2)] by simp_all
  have sub: "list_all (\<lambda>p. case map_of ys (fst p) of None \<Rightarrow> False | Some w \<Rightarrow> json_eqv (snd p) w) xs \<longleftrightarrow>
      (\<forall>k v. map_of xs k = Some v \<longrightarrow> (\<exists>w. map_of ys k = Some w \<and> json_eqv v w))"
    using assms(1) by (force simp: list_all_iff split: option.splits)
  show ?thesis
  proof
    assume L: "json_eqv (JObj xs) (JObj ys)"
    then have F: "\<And>k v. map_of xs k = Some v \<Longrightarrow> \<exists>w. map_of ys k = Some w \<and> json_eqv v w"
      using sub by auto
    have "k \<in> fst ` set ys" if "k \<in> fst ` set xs" for k
    proof -
      obtain v where "map_of xs k = Some v" using \<open>k \<in> fst ` set xs\<close> by (cases "map_of xs k") (auto simp: map_of_eq_None_iff)
      then obtain w where "map_of ys k = Some w" using F by blast
      then show ?thesis by (force dest: map_of_SomeD)
    qed
    then have "fst ` set xs \<subseteq> fst ` set ys" by blast
    then have "fst ` set xs = fst ` set ys" using L fin len by (simp add: card_subset_eq)
    then have "map_of xs k = None \<longleftrightarrow> map_of ys k = None" for k by (simp add: map_of_eq_None_iff)
    then have N: "map_of xs k = None \<Longrightarrow> map_of ys k = None" for k by blast
    have "rel_option json_eqv (map_of xs k) (map_of ys k)" for k
      using N [of k] F [of k] by (cases "map_of xs k") auto
    then show "\<forall>k. rel_option json_eqv (map_of xs k) (map_of ys k)" by blast
  next
    assume R: "\<forall>k. rel_option json_eqv (map_of xs k) (map_of ys k)"
    have "map_of xs k = None \<longleftrightarrow> map_of ys k = None" for k
      using R [rule_format, of k] by (cases "map_of xs k"; cases "map_of ys k") auto
    then have "fst ` set xs = fst ` set ys" by (auto simp: map_of_eq_None_iff)
    then have "length xs = length ys" using len by simp
    moreover have "\<exists>w. map_of ys k = Some w \<and> json_eqv v w" if "map_of xs k = Some v" for k v
      using R [rule_format, of k] that by (cases "map_of ys k") auto
    ultimately show "json_eqv (JObj xs) (JObj ys)" using sub by simp
  qed
qed

lemma wf_json_obj:
  "wf_json (JObj ps) \<longleftrightarrow>
     distinct (map fst ps) \<and> key_ordered (map fst ps) \<and> (\<forall>k v. map_of ps k = Some v \<longrightarrow> wf_json v)"
proof
  assume "wf_json (JObj ps)"
  then show "distinct (map fst ps) \<and> key_ordered (map fst ps) \<and> (\<forall>k v. map_of ps k = Some v \<longrightarrow> wf_json v)"
    by (force simp: list_all_iff dest: map_of_SomeD)
next
  assume "distinct (map fst ps) \<and> key_ordered (map fst ps) \<and> (\<forall>k v. map_of ps k = Some v \<longrightarrow> wf_json v)"
  then show "wf_json (JObj ps)" by (fastforce simp: list_all_iff)
qed

lemma wf_json_objD: "wf_json (JObj ps) \<Longrightarrow> map_of ps k = Some v \<Longrightarrow> wf_json v"
  by (simp add: wf_json_obj del: wf_json.simps)

lemma json_eqv_sym: "json_eqv a b \<Longrightarrow> wf_json a \<Longrightarrow> wf_json b \<Longrightarrow> json_eqv b a"
proof (induction a arbitrary: b)
  case (JArr xs)
  then obtain ys where b: "b = JArr ys" "list_all2 json_eqv xs ys" by (auto split: json.splits)
  have "list_all2 json_eqv ys xs"
    by (rule list_all2_sym_strong [OF b(2)]) (use JArr b in \<open>auto simp: list_all_iff\<close>)
  then show ?case using b(1) by simp
next
  case (JObj xs)
  obtain ys where b: "b = JObj ys" using JObj.prems(1) by (auto split: json.splits)
  have dist: "distinct (map fst xs)" "distinct (map fst ys)" using JObj.prems(2,3) b by auto
  have IH: "json_eqv w v" if "map_of xs k = Some v" "map_of ys k = Some w" "json_eqv v w" for k v w
    by (rule JObj.IH [OF map_of_SomeD [OF that(1)] _ that(3)])
      (use that wf_json_objD [OF JObj.prems(2) that(1)] wf_json_objD [OF JObj.prems(3) [unfolded b] that(2)] in simp_all)
  have R: "\<forall>k. rel_option json_eqv (map_of xs k) (map_of ys k)"
    using JObj.prems(1) json_eqv_obj [OF dist] b by simp
  have "rel_option json_eqv (map_of ys k) (map_of xs k)" for k
    by (rule rel_option_converse_strong [OF R [rule_format, of k]]) (rule IH)
  then show ?case using json_eqv_obj [OF dist(2,1)] b by simp
qed (auto split: json.splits simp: num_eq_sym)

lemma json_eqv_trans:
  "json_eqv a b \<Longrightarrow> json_eqv b c \<Longrightarrow> wf_json a \<Longrightarrow> wf_json b \<Longrightarrow> wf_json c \<Longrightarrow> json_eqv a c"
proof (induction a arbitrary: b c)
  case (JNum x)
  then show ?case by (auto split: json.splits intro: num_eq_trans)
next
  case (JArr xs)
  obtain ys where b: "b = JArr ys" "list_all2 json_eqv xs ys" using JArr.prems(1) by (auto split: json.splits)
  obtain zs where c: "c = JArr zs" "list_all2 json_eqv ys zs" using JArr.prems(2) b by (auto split: json.splits)
  have wf: "list_all wf_json xs" "list_all wf_json ys" "list_all wf_json zs" using JArr.prems b c by auto
  have len: "length xs = length ys" "length ys = length zs" using b c by (auto simp: list_all2_lengthD)
  have "json_eqv (xs ! i) (zs ! i)" if "i < length xs" for i
    using JArr.IH [of "xs ! i" "ys ! i" "zs ! i"] wf b(2) c(2) that len
    by (auto simp: list_all2_conv_all_nth list_all_length)
  then show ?case using c(1) len by (simp add: list_all2_conv_all_nth)
next
  case (JObj xs)
  obtain ys where b: "b = JObj ys" using JObj.prems(1) by (auto split: json.splits)
  obtain zs where c: "c = JObj zs" using JObj.prems(2) b by (auto split: json.splits)
  have dist: "distinct (map fst xs)" "distinct (map fst ys)" "distinct (map fst zs)" using JObj.prems(3-5) b c by auto
  have IH: "json_eqv u w" if "map_of xs k = Some u" "map_of ys k = Some v" "map_of zs k = Some w"
    "json_eqv u v" "json_eqv v w" for k u v w
    by (rule JObj.IH [OF map_of_SomeD [OF that(1)] _ that(4,5)])
      (use wf_json_objD [OF JObj.prems(3) that(1)] wf_json_objD [OF JObj.prems(4) [unfolded b] that(2)]
        wf_json_objD [OF JObj.prems(5) [unfolded c] that(3)] in simp_all)
  have R: "\<forall>k. rel_option json_eqv (map_of xs k) (map_of ys k)" "\<forall>k. rel_option json_eqv (map_of ys k) (map_of zs k)"
    using JObj.prems(1,2) json_eqv_obj [OF dist(1,2)] json_eqv_obj [OF dist(2,3)] b c by simp_all
  have "rel_option json_eqv (map_of xs k) (map_of zs k)" for k
    by (rule rel_option_trans_strong [OF R(1) [rule_format, of k] R(2) [rule_format, of k]]) (rule IH)
  then show ?case using json_eqv_obj [OF dist(1,3)] c by simp
qed (auto split: json.splits)

lemma wf_json_obj_set: "wf_json (JObj ps) \<Longrightarrow> wf_json v \<Longrightarrow> wf_json (JObj (obj_set k v ps))"
  unfolding wf_json_obj by (auto simp: distinct_obj_set key_ordered_obj_set)

lemma wf_json_obj_delete: "wf_json (JObj ps) \<Longrightarrow> wf_json (JObj (obj_delete k ps))"
  unfolding wf_json_obj by (auto simp: distinct_map_delete key_ordered_obj_delete obj_delete_def split: if_splits)
    (simp add: key_ordered_obj_delete flip: obj_delete_def)

section \<open>Values of unknown type\<close>

text \<open>
  What an \<^verbatim>\<open>unknown\<close> can be where the code inspects it: the undefined value (also a hole of an array),
  byte arrays, arrays, plain objects (with a flag for an enumerable symbol key), and everything else.
\<close>

datatype jsval = VUndef | VNull | VBool bool | VNum jsnum | VStr jsstring | VBytes "byte list"
  | VArr "jsval list" | VObj bool "jsval obj" | VOther

text \<open>\<^verbatim>\<open>isJsonValue\<close> of \<^verbatim>\<open>json.ts\<close>: strict Json, at most 512 levels below the root.\<close>

function json_check :: "nat \<Rightarrow> jsval \<Rightarrow> bool" where
  "json_check depth value =
     (if depth > 512 then False
      else case value of
        VNull \<Rightarrow> True
      | VStr _ \<Rightarrow> True
      | VBool _ \<Rightarrow> True
      | VNum n \<Rightarrow> isFinite n
      | VArr xs \<Rightarrow> list_all (json_check (Suc depth)) xs
      | VObj symbols ps \<Rightarrow> \<not> symbols \<and> list_all (\<lambda>p. json_check (Suc depth) (snd p)) ps
      | _ \<Rightarrow> False)"
  by pat_completeness auto
termination
  by (relation "measure (\<lambda>(depth, value). 513 - depth)") auto

declare json_check.simps [simp del]

definition isJsonValue :: "jsval \<Rightarrow> bool" where
  "isJsonValue value = json_check 0 value"

text \<open>Reading a strict Json value of unknown type as a Json value.\<close>

fun json_of :: "jsval \<Rightarrow> json" where
  "json_of (VBool b) = JBool b"
| "json_of (VNum n) = JNum n"
| "json_of (VStr s) = JStr s"
| "json_of (VArr xs) = JArr (map json_of xs)"
| "json_of (VObj _ ps) = JObj (map (\<lambda>p. (fst p, json_of (snd p))) ps)"
| "json_of _ = JNull"

end
