(* ===== verification/KeyText.thy ===== *)
theory KeyText
  imports JsValues
begin

text \<open>
  \<^verbatim>\<open>JSON.stringify\<close> on nested arrays of strings, natural numbers and null: the texts the code uses as
  map keys (a path of the delta encoder, the key of a service state, the scope and the address of a
  document). Two different arrays never give the same text, so such a map is a map on the arrays.
\<close>

section \<open>Quoting a string\<close>

definition is_lead :: "16 word \<Rightarrow> bool" where
  "is_lead c \<longleftrightarrow> 0xD800 \<le> c \<and> c \<le> 0xDBFF"

definition is_trail :: "16 word \<Rightarrow> bool" where
  "is_trail c \<longleftrightarrow> 0xDC00 \<le> c \<and> c \<le> 0xDFFF"

definition hex_digit :: "nat \<Rightarrow> 16 word" where
  "hex_digit n = (if n < 10 then 48 + word_of_nat n else 87 + word_of_nat n)"

definition unicode_escape :: "16 word \<Rightarrow> jsstring" where
  "unicode_escape c = [0x5C, 0x75, hex_digit (unat c div 4096), hex_digit (unat c div 256 mod 16),
     hex_digit (unat c div 16 mod 16), hex_digit (unat c mod 16)]"

definition quote_unit :: "16 word \<Rightarrow> jsstring" where
  "quote_unit c =
     (if c = 0x08 then [0x5C, 0x62] else if c = 0x09 then [0x5C, 0x74] else if c = 0x0A then [0x5C, 0x6E]
      else if c = 0x0C then [0x5C, 0x66] else if c = 0x0D then [0x5C, 0x72]
      else if c = 0x22 then [0x5C, 0x22] else if c = 0x5C then [0x5C, 0x5C]
      else if c < 0x20 \<or> is_lead c \<or> is_trail c then unicode_escape c
      else [c])"

text \<open>A surrogate pair stands for itself, a lone surrogate is escaped.\<close>

fun quote_units :: "jsstring \<Rightarrow> jsstring" where
  "quote_units [] = []"
| "quote_units [c] = quote_unit c"
| "quote_units (c # d # s) =
     (if is_lead c \<and> is_trail d then c # d # quote_units s else quote_unit c @ quote_units (d # s))"

definition quote :: "jsstring \<Rightarrow> jsstring" where
  "quote s = 0x22 # quote_units s @ [0x22]"

text \<open>A reader of quoted text that undoes every escape: the reason why quoting loses nothing.\<close>

definition hex_value :: "16 word \<Rightarrow> nat" where
  "hex_value c = (if unat c < 58 then unat c - 48 else unat c - 87)"

definition unescape :: "16 word \<Rightarrow> 16 word" where
  "unescape e = (if e = 0x62 then 0x08 else if e = 0x74 then 0x09 else if e = 0x6E then 0x0A
     else if e = 0x66 then 0x0C else if e = 0x72 then 0x0D else e)"

fun unquote :: "jsstring \<Rightarrow> (jsstring \<times> jsstring) option" where
  "unquote [] = None"
| "unquote (c # s) =
     (if c = 0x22 then Some ([], s)
      else if c = 0x5C then
        (case s of
           [] \<Rightarrow> None
         | e # t \<Rightarrow>
             if e = 0x75 then
               (case t of
                  h1 # h2 # h3 # h4 # u \<Rightarrow> map_option (apfst ((#) (word_of_nat
                    (hex_value h1 * 4096 + hex_value h2 * 256 + hex_value h3 * 16 + hex_value h4)))) (unquote u)
                | _ \<Rightarrow> None)
             else map_option (apfst ((#) (unescape e))) (unquote t))
      else map_option (apfst ((#) c)) (unquote s))"

lemma hex_value_digit: "n < 16 \<Longrightarrow> hex_value (hex_digit n) = n"
  by (auto simp: hex_value_def hex_digit_def unat_word_ariths unat_of_nat)

lemma unquote_escape: "unquote (unicode_escape c @ s) = map_option (apfst ((#) c)) (unquote s)"
proof -
  define q where "q = unat c div 16"
  define r where "r = q div 16"
  have lt: "unat c < 65536" using unsigned_less [of c] by simp
  have parts: "unat c div 256 = r" "unat c div 4096 = r div 16" by (simp_all add: q_def r_def flip: div_mult2_eq)
  have "unat c = q * 16 + unat c mod 16" "q = r * 16 + q mod 16" "r = r div 16 * 16 + r mod 16"
    by (simp_all add: q_def r_def)
  then have sum: "r div 16 * 4096 + r mod 16 * 256 + q mod 16 * 16 + unat c mod 16 = unat c" by linarith
  have small: "r div 16 < 16" using lt by (simp add: q_def r_def flip: div_mult2_eq)
  then show ?thesis
    by (simp add: unicode_escape_def hex_value_digit parts sum flip: q_def del: of_nat_add of_nat_mult)
qed

lemma unquote_unit: "unquote (quote_unit c @ s) = map_option (apfst ((#) c)) (unquote s)"
  using unquote_escape [of c s] by (auto simp: quote_unit_def unescape_def)

lemma unquote_quote_units: "unquote (quote_units s @ 0x22 # rest) = Some (s, rest)"
proof (induction s rule: quote_units.induct)
  case (3 c d s)
  have raw: "unquote (c # x) = map_option (apfst ((#) c)) (unquote x)" if "is_lead c \<or> is_trail c" for c x
  proof -
    have "c \<noteq> 0x22" "c \<noteq> 0x5C" using that by (auto simp: is_lead_def is_trail_def word_le_nat_alt)
    then show ?thesis by simp
  qed
  show ?case
  proof (cases "is_lead c \<and> is_trail d")
    case True
    then show ?thesis using 3(1) raw [of c] raw [of d] by simp
  next
    case False
    then have "quote_units (c # d # s) = quote_unit c @ quote_units (d # s)" by (simp only: quote_units.simps if_False)
    then show ?thesis using 3(2) [OF False] by (simp only: append_assoc unquote_unit) simp
  qed
qed (simp_all add: unquote_unit)

lemma quote_prefix_free:
  assumes "quote s @ x = quote t @ y"
  shows "s = t \<and> x = y"
proof -
  have "unquote (quote_units s @ 0x22 # x) = unquote (quote_units t @ 0x22 # y)"
    using assms by (simp add: quote_def)
  then show ?thesis by (simp add: unquote_quote_units)
qed

section \<open>The text of a key\<close>

datatype key = KNull | KStr jsstring | KNum nat | KArr "key list"

fun join :: "jsstring list \<Rightarrow> jsstring" where
  "join [] = []"
| "join [x] = x"
| "join (x # y # xs) = x @ 0x2C # join (y # xs)"

fun stringify :: "key \<Rightarrow> jsstring" where
  "stringify KNull = js ''null''"
| "stringify (KStr s) = quote s"
| "stringify (KNum n) = decimal n"
| "stringify (KArr ks) = 0x5B # join (map stringify ks) @ [0x5D]"

text \<open>What can follow the text of an element: nothing, a comma, or the end of the array.\<close>

definition delimited :: "jsstring \<Rightarrow> bool" where
  "delimited x \<longleftrightarrow> x = [] \<or> hd x = 0x2C \<or> hd x = 0x5D"

lemma decimal_prefix_free:
  assumes "decimal m @ x = decimal n @ y" "delimited x" "delimited y"
  shows "m = n \<and> x = y"
proof -
  have cut: "takeWhile is_digit (decimal k @ z) = decimal k" if "delimited z" for k z
  proof -
    have "\<not> is_digit (hd z)" if "z \<noteq> []" using \<open>delimited z\<close> that by (auto simp: delimited_def is_digit_def)
    then show ?thesis using decimal_digits(1) [of k]
      by (cases z) (auto simp: list_all_iff takeWhile_append2)
  qed
  have "decimal m = decimal n" using cut [OF assms(2), of m] cut [OF assms(3), of n] assms(1) by simp
  then show ?thesis using assms(1) decimal_inj by simp
qed

lemma stringify_head:
  "\<exists>c s. stringify k = c # s \<and> c \<noteq> 0x5D \<and> c \<noteq> 0x2C
     \<and> (c = 0x22 \<longleftrightarrow> (\<exists>s. k = KStr s)) \<and> (c = 0x5B \<longleftrightarrow> (\<exists>ks. k = KArr ks)) \<and> (is_digit c \<longleftrightarrow> (\<exists>n. k = KNum n))"
proof (cases k)
  case (KNum n)
  have "decimal n \<noteq> [] \<and> is_digit (hd (decimal n))"
    using decimal_digits [of n] by (cases "decimal n") auto
  moreover have "\<not> is_digit 0x5D" "\<not> is_digit 0x2C" "\<not> is_digit 0x22" "\<not> is_digit 0x5B" by (simp_all add: is_digit_def)
  ultimately show ?thesis using KNum by (cases "decimal n") auto
qed (auto simp: js_def quote_def is_digit_def)

lemma join_cons: "join (x # xs) @ [0x5D] @ z = x @ (if xs = [] then [0x5D] @ z else 0x2C # join xs @ [0x5D] @ z)"
  by (cases xs) auto

lemma join_prefix_free:
  assumes "\<And>j k x y. j \<in> set ls \<Longrightarrow> stringify j @ x = stringify k @ y \<Longrightarrow> delimited x \<Longrightarrow> delimited y \<Longrightarrow> j = k \<and> x = y"
    and "join (map stringify ls) @ [0x5D] @ x = join (map stringify ks) @ [0x5D] @ y"
  shows "ls = ks \<and> x = y"
  using assms
proof (induction ls arbitrary: ks)
  case Nil
  show ?case
  proof (cases ks)
    case Nil
    then show ?thesis using Nil.prems(2) by simp
  next
    case (Cons k ks')
    obtain c s where "stringify k = c # s" "c \<noteq> 0x5D" using stringify_head [of k] by blast
    then show ?thesis using Nil.prems(2) Cons join_cons [of "stringify k" "map stringify ks'" y] by simp
  qed
next
  case (Cons j ls)
  show ?case
  proof (cases ks)
    case Nil
    obtain c s where "stringify j = c # s" "c \<noteq> 0x5D" using stringify_head [of j] by blast
    then show ?thesis using Cons.prems(2) Nil join_cons [of "stringify j" "map stringify ls" x] by simp
  next
    case (Cons k ks')
    let ?rest = "\<lambda>ks y. if map stringify ks = [] then [0x5D] @ y else 0x2C # join (map stringify ks) @ [0x5D] @ y"
    have eq: "stringify j @ ?rest ls x = stringify k @ ?rest ks' y"
      using Cons.prems(2) Cons join_cons [of "stringify j" "map stringify ls" x]
        join_cons [of "stringify k" "map stringify ks'" y] by simp
    have "j = k \<and> ?rest ls x = ?rest ks' y"
      by (rule Cons.prems(1) [OF _ eq]) (auto simp: delimited_def)
    then have jk: "j = k" and r: "?rest ls x = ?rest ks' y" by auto
    have "ls = ks' \<and> x = y"
    proof (cases "ls = [] \<or> ks' = []")
      case True
      then show ?thesis using r by (auto split: if_splits)
    next
      case False
      then have "join (map stringify ls) @ [0x5D] @ x = join (map stringify ks') @ [0x5D] @ y" using r by simp
      then show ?thesis by (rule Cons.IH [rotated]) (rule Cons.prems(1), simp_all)
    qed
    then show ?thesis using jk Cons by simp
  qed
qed

lemma stringify_prefix_free:
  "stringify j @ x = stringify k @ y \<Longrightarrow> delimited x \<Longrightarrow> delimited y \<Longrightarrow> j = k \<and> x = y"
proof (induction j arbitrary: k x y)
  case KNull
  have "k = KNull" using KNull.prems(1) stringify_head [of KNull] stringify_head [of k] by (cases k) auto
  then show ?case using KNull.prems(1) by simp
next
  case (KStr s)
  obtain t where "k = KStr t" using KStr.prems(1) stringify_head [of "KStr s"] stringify_head [of k] by auto
  then show ?case using KStr.prems(1) quote_prefix_free [of s x t y] by simp
next
  case (KNum n)
  obtain m where "k = KNum m" using KNum.prems(1) stringify_head [of "KNum n"] stringify_head [of k] by auto
  then show ?case using KNum.prems decimal_prefix_free [of n x m y] by simp
next
  case (KArr ls)
  obtain ks where k: "k = KArr ks" using KArr.prems(1) stringify_head [of "KArr ls"] stringify_head [of k] by auto
  have "join (map stringify ls) @ [0x5D] @ x = join (map stringify ks) @ [0x5D] @ y" using KArr.prems(1) k by simp
  then have "ls = ks \<and> x = y" by (rule join_prefix_free [rotated]) (rule KArr.IH)
  then show ?case using k by simp
qed

theorem stringify_inj: "stringify j = stringify k \<longleftrightarrow> j = k"
  using stringify_prefix_free [of j "[]" k "[]"] by (auto simp: delimited_def)

end
