(* ===== verification/Utf8.thy ===== *)
theory Utf8
  imports KeyText
begin

text \<open>
  \<^verbatim>\<open>TextEncoder\<close> and the fatal \<^verbatim>\<open>TextDecoder\<close> (\<^verbatim>\<open>ignoreBOM\<close>), as \<^verbatim>\<open>packages/protocol/src/cbor\<close> uses them: strings of UTF-16 code
  units to UTF-8 and back. The encoder replaces a lone surrogate, the decoder refuses every
  ill-formed sequence.
\<close>

section \<open>Code points\<close>

fun code_points :: "jsstring \<Rightarrow> nat list" where
  "code_points [] = []"
| "code_points [c] = [if is_lead c \<or> is_trail c then 0xFFFD else unat c]"
| "code_points (c # d # s) =
     (if is_lead c \<and> is_trail d then (0x10000 + (unat c - 0xD800) * 0x400 + (unat d - 0xDC00)) # code_points s
      else (if is_lead c \<or> is_trail c then 0xFFFD else unat c) # code_points (d # s))"

definition utf16_point :: "nat \<Rightarrow> jsstring" where
  "utf16_point n = (if n < 0x10000 then [word_of_nat n]
     else [word_of_nat (0xD800 + (n - 0x10000) div 0x400), word_of_nat (0xDC00 + (n - 0x10000) mod 0x400)])"

definition scalar :: "nat \<Rightarrow> bool" where
  "scalar n \<longleftrightarrow> n < 0xD800 \<or> (0xE000 \<le> n \<and> n < 0x110000)"

section \<open>Bytes\<close>

definition utf8_point :: "nat \<Rightarrow> byte list" where
  "utf8_point n =
     (if n < 0x80 then [byte_of_nat n]
      else if n < 0x800 then [byte_of_nat (0xC0 + n div 64), byte_of_nat (0x80 + n mod 64)]
      else if n < 0x10000 then
        [byte_of_nat (0xE0 + n div 4096), byte_of_nat (0x80 + n div 64 mod 64), byte_of_nat (0x80 + n mod 64)]
      else
        [byte_of_nat (0xF0 + n div 262144), byte_of_nat (0x80 + n div 4096 mod 64),
         byte_of_nat (0x80 + n div 64 mod 64), byte_of_nat (0x80 + n mod 64)])"

definition utf8_encode :: "jsstring \<Rightarrow> byte list" where
  "utf8_encode s = concat (map utf8_point (code_points s))"

definition continuation :: "byte \<Rightarrow> nat option" where
  "continuation b = (let n = nat_of_byte b in if 0x80 \<le> n \<and> n < 0xC0 then Some (n - 0x80) else None)"

text \<open>A sequence must be the shortest one of its code point, and the code point a scalar value.\<close>

fun decode_points :: "byte list \<Rightarrow> nat list option" where
  "decode_points [] = Some []"
| "decode_points (b # bs) =
     (let n = nat_of_byte b in
      if n < 0x80 then map_option ((#) n) (decode_points bs)
      else if n < 0xC0 then None
      else if n < 0xE0 then
        (case bs of
           c1 # rest \<Rightarrow>
             (case continuation c1 of
                Some v1 \<Rightarrow>
                  (let v = (n - 0xC0) * 64 + v1 in
                   if v < 0x80 then None else map_option ((#) v) (decode_points rest))
              | None \<Rightarrow> None)
         | [] \<Rightarrow> None)
      else if n < 0xF0 then
        (case bs of
           c1 # c2 # rest \<Rightarrow>
             (case (continuation c1, continuation c2) of
                (Some v1, Some v2) \<Rightarrow>
                  (let v = (n - 0xE0) * 4096 + v1 * 64 + v2 in
                   if v < 0x800 \<or> \<not> scalar v then None else map_option ((#) v) (decode_points rest))
              | _ \<Rightarrow> None)
         | _ \<Rightarrow> None)
      else if n < 0xF8 then
        (case bs of
           c1 # c2 # c3 # rest \<Rightarrow>
             (case (continuation c1, continuation c2, continuation c3) of
                (Some v1, Some v2, Some v3) \<Rightarrow>
                  (let v = (n - 0xF0) * 262144 + v1 * 4096 + v2 * 64 + v3 in
                   if v < 0x10000 \<or> \<not> scalar v then None else map_option ((#) v) (decode_points rest))
              | _ \<Rightarrow> None)
         | _ \<Rightarrow> None)
      else None)"

definition utf8_decode :: "byte list \<Rightarrow> jsstring option" where
  "utf8_decode bs = map_option (concat \<circ> map utf16_point) (decode_points bs)"

section \<open>Well-formed strings survive\<close>

fun well_formed :: "jsstring \<Rightarrow> bool" where
  "well_formed [] = True"
| "well_formed [c] = (\<not> is_lead c \<and> \<not> is_trail c)"
| "well_formed (c # d # s) =
     (if is_lead c \<and> is_trail d then well_formed s else \<not> is_lead c \<and> \<not> is_trail c \<and> well_formed (d # s))"

lemma continuation_byte [simp]: "n < 64 \<Longrightarrow> continuation (byte_of_nat (0x80 + n)) = Some n"
  by (simp add: continuation_def nat_of_byte_of_nat Let_def)

lemma byte_value [simp]: "n < 256 \<Longrightarrow> nat_of_byte (byte_of_nat n) = n"
  by (simp add: nat_of_byte_of_nat)

lemma decode_points_point:
  assumes "scalar n"
  shows "decode_points (utf8_point n @ bs) = map_option ((#) n) (decode_points bs)"
proof -
  have lt: "n < 0x110000" using assms by (auto simp: scalar_def)
  consider "n < 0x80" | "0x80 \<le> n" "n < 0x800" | "0x800 \<le> n" "n < 0x10000" | "0x10000 \<le> n" by linarith
  then show ?thesis
  proof cases
    case 2
    define q where "q = n div 64"
    have "q < 32" using 2 by (simp add: q_def less_mult_imp_div_less)
    moreover have "q * 64 + n mod 64 = n" by (simp add: q_def)
    ultimately show ?thesis using 2 by (simp add: utf8_point_def Let_def flip: q_def)
  next
    case 3
    have "n div 4096 < 16" using 3 by (simp add: less_mult_imp_div_less)
    moreover have "n div 4096 * 4096 + n div 64 mod 64 * 64 + n mod 64 = n"
    proof -
      have "n = n div 64 * 64 + n mod 64" "n div 64 = n div 64 div 64 * 64 + n div 64 mod 64" by simp_all
      moreover have "n div 64 div 64 = n div 4096" by (simp flip: div_mult2_eq)
      ultimately show ?thesis by linarith
    qed
    ultimately show ?thesis using 3 assms by (simp add: utf8_point_def Let_def)
  next
    case 4
    have "n div 262144 < 5" using lt by (simp add: less_mult_imp_div_less)
    moreover have "n div 262144 * 262144 + n div 4096 mod 64 * 4096 + n div 64 mod 64 * 64 + n mod 64 = n"
    proof -
      have "n = n div 64 * 64 + n mod 64" "n div 64 = n div 64 div 64 * 64 + n div 64 mod 64"
        "n div 4096 = n div 4096 div 64 * 64 + n div 4096 mod 64" by simp_all
      moreover have "n div 64 div 64 = n div 4096" "n div 4096 div 64 = n div 262144" by (simp_all flip: div_mult2_eq)
      ultimately show ?thesis by linarith
    qed
    ultimately show ?thesis using 4 assms by (simp add: utf8_point_def Let_def)
  qed (simp add: utf8_point_def)
qed

lemma decode_points_points: "list_all scalar ns \<Longrightarrow> decode_points (concat (map utf8_point ns)) = Some ns"
  by (induction ns) (auto simp: decode_points_point)

lemma surrogate_range:
  "is_lead c \<longleftrightarrow> 0xD800 \<le> unat c \<and> unat c < 0xDC00" "is_trail c \<longleftrightarrow> 0xDC00 \<le> unat c \<and> unat c < 0xE000"
  by (auto simp: is_lead_def is_trail_def word_le_nat_alt)

lemma code_points_wf: "well_formed s \<Longrightarrow> list_all scalar (code_points s) \<and> concat (map utf16_point (code_points s)) = s"
proof (induction s rule: code_points.induct)
  case (2 c)
  have "unat c < 65536" using unsigned_less [of c] by simp
  then show ?case using 2 by (auto simp: scalar_def surrogate_range utf16_point_def)
next
  case (3 c d s)
  have c: "unat c < 65536" using unsigned_less [of c] by simp
  show ?case
  proof (cases "is_lead c \<and> is_trail d")
    case True
    let ?n = "0x10000 + (unat c - 0xD800) * 0x400 + (unat d - 0xDC00)"
    have r: "0xD800 \<le> unat c" "unat c < 0xDC00" "0xDC00 \<le> unat d" "unat d < 0xE000" using True by (simp_all add: surrogate_range)
    have split: "(x * 0x400 + y) div 0x400 = x" "(x * 0x400 + y) mod 0x400 = y" if "y < 0x400" for x y :: nat using that by simp_all
    have sum: "?n - 0x10000 = (unat c - 0xD800) * 0x400 + (unat d - 0xDC00)" by simp
    have "(?n - 0x10000) div 0x400 = unat c - 0xD800" "(?n - 0x10000) mod 0x400 = unat d - 0xDC00"
      unfolding sum by (rule split; use r in linarith)+
    then have "utf16_point ?n = [c, d]" using r by (simp add: utf16_point_def)
    moreover have "scalar ?n" using r by (simp add: scalar_def)
    ultimately show ?thesis using True 3 by simp
  next
    case False
    then have "\<not> is_lead c" "\<not> is_trail c" "well_formed (d # s)" using 3(3) by auto
    then show ?thesis using False 3(2) c by (auto simp: scalar_def surrogate_range utf16_point_def)
  qed
qed simp

lemma utf8_roundtrip: "well_formed s \<Longrightarrow> utf8_decode (utf8_encode s) = Some s"
  using code_points_wf [of s] decode_points_points [of "code_points s"] by (simp add: utf8_decode_def utf8_encode_def)

text \<open>A decoded text is well-formed.\<close>

lemma decode_points_scalar: "decode_points bs = Some ns \<Longrightarrow> list_all scalar ns"
proof (induction bs arbitrary: ns rule: decode_points.induct)
  case (2 b bs)
  show ?case
  proof (cases "nat_of_byte b < 0xC0")
    case True
    then show ?thesis using 2 by (auto simp: Let_def scalar_def split: if_splits)
  next
    case False
    then show ?thesis using 2 by (auto simp: Let_def scalar_def continuation_def split: if_splits option.splits list.splits)
  qed
qed simp

lemma well_formed_append_point: "scalar n \<Longrightarrow> well_formed s \<Longrightarrow> well_formed (utf16_point n @ s)"
proof (cases "n < 0x10000")
  case True
  assume "scalar n" "well_formed s"
  moreover have "\<not> is_lead (word_of_nat n)" "\<not> is_trail (word_of_nat n)"
    using True \<open>scalar n\<close> by (auto simp: surrogate_range unat_of_nat scalar_def)
  ultimately show ?thesis using True by (cases s) (auto simp: utf16_point_def)
next
  case False
  assume n: "scalar n" "well_formed s"
  define m where "m = n - 0x10000"
  have m: "m div 0x400 < 0x400" "m mod 0x400 < 0x400" using n(1) by (auto simp: m_def scalar_def less_mult_imp_div_less)
  have "is_lead (word_of_nat (0xD800 + m div 0x400))" "is_trail (word_of_nat (0xDC00 + m mod 0x400))"
    using m by (simp_all add: surrogate_range unat_word_ariths unat_of_nat del: of_nat_add)
  then show ?thesis using False n(2) by (simp add: utf16_point_def flip: m_def)
qed

lemma utf8_decode_well_formed: "utf8_decode bs = Some s \<Longrightarrow> well_formed s"
proof -
  assume "utf8_decode bs = Some s"
  then obtain ns where ns: "decode_points bs = Some ns" "s = concat (map utf16_point ns)" by (auto simp: utf8_decode_def)
  have "list_all scalar ns \<Longrightarrow> well_formed (concat (map utf16_point ns))" for ns
    by (induction ns) (auto simp: well_formed_append_point)
  then show ?thesis using ns decode_points_scalar by blast
qed

end
