(* ===== verification/Cbor.thy ===== *)
theory Cbor
  imports Framing Utf8 "HOL-Library.While_Combinator"
begin

text \<open>
  The strict CBOR subset of \<^verbatim>\<open>packages/protocol/src/cbor\<close>: options, the writer with its growing buffer, the encoder and
  the reader. Values are trees (\<^typ>\<open>jsval\<close>), so the encoder's check for cycles has nothing to find.
\<close>

section \<open>Options\<close>

definition UINT32_BASE :: nat where
  "UINT32_BASE = 0x100000000"

definition MAX_CONFIGURED_DEPTH :: nat where
  "MAX_CONFIGURED_DEPTH = 512"

definition DEFAULT_MAX_CBOR_BYTE_LENGTH :: nat where
  "DEFAULT_MAX_CBOR_BYTE_LENGTH = 16 * 1024 * 1024"

definition DEFAULT_MAX_CBOR_CONTAINER_LENGTH :: nat where
  "DEFAULT_MAX_CBOR_CONTAINER_LENGTH = 1000000"

definition DEFAULT_MAX_CBOR_DEPTH :: nat where
  "DEFAULT_MAX_CBOR_DEPTH = 64"

record cbor_options =
  opt_maxByteLength :: "jsnum option"
  opt_maxContainerLength :: "jsnum option"
  opt_maxDepth :: "jsnum option"

record resolved_options =
  maxByteLength :: nat
  maxContainerLength :: nat
  maxDepth :: nat

datatype cbor_error =
    RangeError string
  | ByteLengthLimit | TextLimit | BytesLimit | ArrayLimit | MapLimit | DepthLimit
  | NotFinite | UnsafeInteger | InvalidText | Hole | SymbolKey | UnsupportedValue
  | Trailing | Truncated | InvalidUtf8 | KeyNotString | DuplicateKey | Tag | BreakMarker | UnsupportedSimple
  | Indefinite | MalformedInformation | LengthLimit

definition resolveLimit :: "string \<Rightarrow> jsnum \<Rightarrow> nat \<Rightarrow> (cbor_error, nat) result" where
  "resolveLimit name v maximum = (case v of
      NInt i \<Rightarrow> if isSafeInteger v \<and> 0 \<le> i \<and> i \<le> int maximum then Inr (nat i) else Inl (RangeError name)
    | NNegZero \<Rightarrow> Inr 0
    | _ \<Rightarrow> Inl (RangeError name))"

definition or_default :: "jsnum option \<Rightarrow> nat \<Rightarrow> jsnum" where
  "or_default v d = (case v of None \<Rightarrow> NInt (int d) | Some n \<Rightarrow> n)"

definition no_options :: cbor_options where
  "no_options = \<lparr>opt_maxByteLength = None, opt_maxContainerLength = None, opt_maxDepth = None\<rparr>"

definition resolveOptions :: "cbor_options option \<Rightarrow> (cbor_error, resolved_options) result" where
  "resolveOptions options =
     (let given = (case options of None \<Rightarrow> no_options | Some p \<Rightarrow> p) in
      rbind (resolveLimit ''maxByteLength'' (or_default (opt_maxByteLength given) DEFAULT_MAX_CBOR_BYTE_LENGTH) MAX_UINT32) (\<lambda>b.
      rbind (resolveLimit ''maxContainerLength'' (or_default (opt_maxContainerLength given) DEFAULT_MAX_CBOR_CONTAINER_LENGTH) MAX_UINT32) (\<lambda>c.
      rbind (resolveLimit ''maxDepth'' (or_default (opt_maxDepth given) DEFAULT_MAX_CBOR_DEPTH) MAX_CONFIGURED_DEPTH) (\<lambda>d.
        Inr \<lparr>maxByteLength = b, maxContainerLength = c, maxDepth = d\<rparr>))))"

section \<open>Doubles\<close>

text \<open>The number of 64 bits: sign, eleven bits of exponent, 52 bits of mantissa.\<close>

definition float_value :: "64 word \<Rightarrow> jsnum" where
  "float_value w =
     (let n = unat w; negative = (n \<ge> 2 ^ 63); e = n div 2 ^ 52 mod 2 ^ 11; m = n mod 2 ^ 52;
          signed = (\<lambda>k. if negative then - int k else int k) in
      if e = 2047 then (if m = 0 then NInf negative else NNaN)
      else if e = 0 then (if m = 0 then (if negative then NNegZero else NInt 0) else NFrac w)
      else if e \<ge> 1075 then NInt (signed ((2 ^ 52 + m) * 2 ^ (e - 1075)))
      else if (2 ^ 52 + m) mod 2 ^ (1075 - e) = 0 then NInt (signed ((2 ^ 52 + m) div 2 ^ (1075 - e)))
      else NFrac w)"

text \<open>The bits the encoder writes as a double: it does so only for what is not an integer, and for -0.\<close>

definition float_bits :: "jsnum \<Rightarrow> 64 word" where
  "float_bits n = (case n of NFrac w \<Rightarrow> w | NNegZero \<Rightarrow> 2 ^ 63 | _ \<Rightarrow> 0)"

definition uint64_be :: "64 word \<Rightarrow> byte list" where
  "uint64_be w = uint32_be (unat w div UINT32_BASE) @ uint32_be (unat w mod UINT32_BASE)"

definition uint64_value :: "byte list \<Rightarrow> 64 word" where
  "uint64_value bs = word_of_nat (header_value (take 4 bs) * UINT32_BASE + header_value (drop 4 bs))"

section \<open>The writer\<close>

record cbor_writer =
  cw_buffer :: "byte list"
  cw_offset :: nat
  cw_maxByteLength :: nat

definition new_writer :: "nat \<Rightarrow> cbor_writer" where
  "new_writer limit = \<lparr>cw_buffer = replicate (min 256 limit) 0, cw_offset = 0, cw_maxByteLength = limit\<rparr>"

text \<open>The capacity is doubled until what is required fits.\<close>

definition grow :: "nat \<Rightarrow> nat \<Rightarrow> nat \<Rightarrow> nat" where
  "grow limit required capacity = while (\<lambda>c. c < required) (\<lambda>c. min limit (max required (c * 2))) capacity"

definition ensureCapacity :: "cbor_writer \<Rightarrow> nat \<Rightarrow> (cbor_error, cbor_writer) result" where
  "ensureCapacity w additional =
     (let required = cw_offset w + additional in
      if required > cw_maxByteLength w then Inl ByteLengthLimit
      else if required \<le> length (cw_buffer w) then Inr w
      else
        (let capacity = grow (cw_maxByteLength w) required (max 1 (length (cw_buffer w))) in
         Inr (w\<lparr>cw_buffer := blit (replicate capacity 0) 0 (cw_buffer w)\<rparr>)))"

definition writeByte :: "cbor_writer \<Rightarrow> nat \<Rightarrow> (cbor_error, cbor_writer) result" where
  "writeByte w v = rbind (ensureCapacity w 1) (\<lambda>w'.
     Inr (w'\<lparr>cw_buffer := (cw_buffer w')[cw_offset w' := byte_of_nat v], cw_offset := Suc (cw_offset w')\<rparr>))"

definition writeBytes :: "cbor_writer \<Rightarrow> byte list \<Rightarrow> (cbor_error, cbor_writer) result" where
  "writeBytes w bytes = rbind (ensureCapacity w (length bytes)) (\<lambda>w'.
     Inr (w'\<lparr>cw_buffer := blit (cw_buffer w') (cw_offset w') bytes, cw_offset := cw_offset w' + length bytes\<rparr>))"

definition writeUint16 :: "cbor_writer \<Rightarrow> nat \<Rightarrow> (cbor_error, cbor_writer) result" where
  "writeUint16 w v = rbind (ensureCapacity w 2) (\<lambda>w'.
     Inr (w'\<lparr>cw_buffer := blit (cw_buffer w') (cw_offset w') [byte_of_nat (v div 256), byte_of_nat v], cw_offset := cw_offset w' + 2\<rparr>))"

definition writeUint32 :: "cbor_writer \<Rightarrow> nat \<Rightarrow> (cbor_error, cbor_writer) result" where
  "writeUint32 w v = rbind (ensureCapacity w 4) (\<lambda>w'.
     Inr (w'\<lparr>cw_buffer := blit (cw_buffer w') (cw_offset w') (uint32_be v), cw_offset := cw_offset w' + 4\<rparr>))"

definition writeUint64 :: "cbor_writer \<Rightarrow> nat \<Rightarrow> (cbor_error, cbor_writer) result" where
  "writeUint64 w v =
     (let high = v div UINT32_BASE; low = v - high * UINT32_BASE in
      rbind (writeUint32 w high) (\<lambda>w'. writeUint32 w' low))"

definition writeFloat64 :: "cbor_writer \<Rightarrow> jsnum \<Rightarrow> (cbor_error, cbor_writer) result" where
  "writeFloat64 w v = rbind (ensureCapacity w 9) (\<lambda>w'.
     Inr (w'\<lparr>cw_buffer := blit (cw_buffer w') (cw_offset w') (0xfb # uint64_be (float_bits v)), cw_offset := cw_offset w' + 9\<rparr>))"

definition finish :: "cbor_writer \<Rightarrow> byte list" where
  "finish w = take (cw_offset w) (cw_buffer w)"

section \<open>The encoder\<close>

text \<open>The major type takes the upper three bits, the argument or its width the lower five.\<close>

definition writeArgument :: "cbor_writer \<Rightarrow> nat \<Rightarrow> nat \<Rightarrow> (cbor_error, cbor_writer) result" where
  "writeArgument w majorType v =
     (let prefix = majorType * 32 in
      if v < 24 then writeByte w (prefix + v)
      else if v \<le> 0xff then rbind (writeByte w (prefix + 24)) (\<lambda>w'. writeByte w' v)
      else if v \<le> 0xffff then rbind (writeByte w (prefix + 25)) (\<lambda>w'. writeUint16 w' v)
      else if v \<le> MAX_UINT32 then rbind (writeByte w (prefix + 26)) (\<lambda>w'. writeUint32 w' v)
      else rbind (writeByte w (prefix + 27)) (\<lambda>w'. writeUint64 w' v))"

definition encodeText :: "cbor_writer \<Rightarrow> jsstring \<Rightarrow> resolved_options \<Rightarrow> (cbor_error, cbor_writer) result" where
  "encodeText w v options =
     (let bytes = utf8_encode v in
      if length bytes > maxByteLength options then Inl TextLimit
      else if utf8_decode bytes \<noteq> Some v then Inl InvalidText
      else rbind (writeArgument w 3 (length bytes)) (\<lambda>w'. writeBytes w' bytes))"

definition encodeNumber :: "cbor_writer \<Rightarrow> jsnum \<Rightarrow> (cbor_error, cbor_writer) result" where
  "encodeNumber w n = (case n of
      NInt i \<Rightarrow>
        if \<not> isSafeInteger n then Inl UnsafeInteger
        else if i \<ge> 0 then writeArgument w 0 (nat i) else writeArgument w 1 (nat (- 1 - i))
    | NNegZero \<Rightarrow> writeFloat64 w n
    | NFrac _ \<Rightarrow> writeFloat64 w n
    | _ \<Rightarrow> Inl NotFinite)"

function encodeValue :: "cbor_writer \<Rightarrow> jsval \<Rightarrow> resolved_options \<Rightarrow> nat \<Rightarrow> (cbor_error, cbor_writer) result" where
  "encodeValue w v options depth =
     (if depth > maxDepth options then Inl DepthLimit
      else case v of
        VNull \<Rightarrow> writeByte w 0xf6
      | VBool b \<Rightarrow> writeByte w (if b then 0xf5 else 0xf4)
      | VNum n \<Rightarrow> encodeNumber w n
      | VStr s \<Rightarrow> encodeText w s options
      | VBytes bytes \<Rightarrow>
          if length bytes > maxByteLength options then Inl BytesLimit
          else rbind (writeArgument w 2 (length bytes)) (\<lambda>w'. writeBytes w' bytes)
      | VArr vs \<Rightarrow>
          if length vs > maxContainerLength options then Inl ArrayLimit
          else rbind (writeArgument w 4 (length vs)) (\<lambda>w'.
            rfold (\<lambda>w' x. if x = VUndef then Inl Hole else encodeValue w' x options (depth + 1)) w' vs)
      | VObj symbols ps \<Rightarrow>
          if symbols then Inl SymbolKey
          else
            (let entries = filter (\<lambda>p. snd p \<noteq> VUndef) ps in
             if length entries > maxContainerLength options then Inl MapLimit
             else rbind (writeArgument w 5 (length entries)) (\<lambda>w'.
               rfold (\<lambda>w' p. rbind (encodeText w' (fst p) options) (\<lambda>w''. encodeValue w'' (snd p) options (depth + 1))) w' entries))
      | _ \<Rightarrow> Inl UnsupportedValue)"
  by pat_completeness auto
termination
  by (relation "measure (\<lambda>(w, v, options, depth). Suc (maxDepth options) - depth)") auto

declare encodeValue.simps [simp del]

definition encodeCbor :: "jsval \<Rightarrow> cbor_options option \<Rightarrow> (cbor_error, byte list) result" where
  "encodeCbor v options = rbind (resolveOptions options) (\<lambda>resolved.
     rbind (encodeValue (new_writer (maxByteLength resolved)) v resolved 0) (\<lambda>w. Inr (finish w)))"

section \<open>The reader\<close>

record cbor_reader =
  cr_bytes :: "byte list"
  cr_offset :: nat

type_synonym 'a read = "(cbor_error, 'a \<times> cbor_reader) result"

definition readByte :: "cbor_reader \<Rightarrow> nat read" where
  "readByte r =
     (if cr_offset r \<ge> length (cr_bytes r) then Inl Truncated
      else Inr (nat_of_byte (cr_bytes r ! cr_offset r), r\<lparr>cr_offset := Suc (cr_offset r)\<rparr>))"

definition readBytes :: "cbor_reader \<Rightarrow> nat \<Rightarrow> byte list read" where
  "readBytes r n =
     (if n > length (cr_bytes r) - cr_offset r then Inl Truncated
      else Inr (take n (drop (cr_offset r) (cr_bytes r)), r\<lparr>cr_offset := cr_offset r + n\<rparr>))"

definition readUint32 :: "cbor_reader \<Rightarrow> nat read" where
  "readUint32 r = rbind (readBytes r 4) (\<lambda>(bs, r'). Inr (header_value bs, r'))"

definition readArgument :: "cbor_reader \<Rightarrow> nat \<Rightarrow> nat read" where
  "readArgument r information =
     (if information < 24 then Inr (information, r)
      else if information = 24 then readByte r
      else if information = 25 then
        rbind (readBytes r 2) (\<lambda>(bs, r'). Inr (nat_of_byte (bs ! 0) * 0x100 + nat_of_byte (bs ! 1), r'))
      else if information = 26 then readUint32 r
      else if information = 27 then
        rbind (readUint32 r) (\<lambda>(high, r1). rbind (readUint32 r1) (\<lambda>(low, r2).
          if high > 0x1fffff then Inl UnsafeInteger else Inr (high * UINT32_BASE + low, r2)))
      else if information = 31 then Inl Indefinite
      else Inl MalformedInformation)"

definition readLength :: "cbor_reader \<Rightarrow> nat \<Rightarrow> nat \<Rightarrow> nat read" where
  "readLength r information limit =
     (if information = 31 then Inl Indefinite
      else rbind (readArgument r information) (\<lambda>(n, r'). if n > limit then Inl LengthLimit else Inr (n, r')))"

definition readSimple :: "cbor_reader \<Rightarrow> nat \<Rightarrow> jsval read" where
  "readSimple r information =
     (if information = 20 then Inr (VBool False, r)
      else if information = 21 then Inr (VBool True, r)
      else if information = 22 then Inr (VNull, r)
      else if information = 27 then
        rbind (readBytes r 8) (\<lambda>(bs, r').
          let n = float_value (uint64_value bs) in
          if \<not> isFinite n then Inl NotFinite
          else if isInteger n \<and> \<not> isSafeInteger n then Inl UnsafeInteger
          else Inr (VNum n, r'))
      else if information = 31 then Inl BreakMarker
      else Inl UnsupportedSimple)"

text \<open>The bodies of the loops over the elements of an array and over the entries of a map; \<^term>\<open>item\<close> reads one nested item.\<close>

definition readElement :: "(cbor_reader \<Rightarrow> jsval read) \<Rightarrow> jsval list \<times> cbor_reader \<Rightarrow> (cbor_error, jsval list \<times> cbor_reader) result" where
  "readElement item st = (case st of (items, r) \<Rightarrow> rbind (item r) (\<lambda>(v, r'). Inr (items @ [v], r')))"

definition readEntry :: "(cbor_reader \<Rightarrow> jsval read) \<Rightarrow> (jsstring list \<times> jsval obj) \<times> cbor_reader \<Rightarrow>
    (cbor_error, (jsstring list \<times> jsval obj) \<times> cbor_reader) result" where
  "readEntry item st = (case st of ((keys, entries), r) \<Rightarrow>
     rbind (item r) (\<lambda>(key, r1).
       case key of
         VStr k \<Rightarrow>
           if List.member keys k then Inl DuplicateKey
           else rbind (item r1) (\<lambda>(v, r2). Inr ((set_add k keys, obj_set k v entries), r2))
       | _ \<Rightarrow> Inl KeyNotString))"

lemma readElement_cong [fundef_cong]: "st = st' \<Longrightarrow> (\<And>r. f r = g r) \<Longrightarrow> readElement f st = readElement g st'"
  by (simp add: readElement_def)

lemma readEntry_cong [fundef_cong]: "st = st' \<Longrightarrow> (\<And>r. f r = g r) \<Longrightarrow> readEntry f st = readEntry g st'"
  by (rule arg_cong2 [where f = readEntry]) auto

function readItem :: "resolved_options \<Rightarrow> nat \<Rightarrow> cbor_reader \<Rightarrow> jsval read" where
  "readItem options depth r =
     (if depth > maxDepth options then Inl DepthLimit
      else rbind (readByte r) (\<lambda>(initial, r1).
        let majorType = initial div 32; information = initial mod 32 in
        if majorType = 0 then rbind (readArgument r1 information) (\<lambda>(n, r2). Inr (VNum (NInt (int n)), r2))
        else if majorType = 1 then
          rbind (readArgument r1 information) (\<lambda>(n, r2).
            let i = NInt (- 1 - int n) in if isSafeInteger i then Inr (VNum i, r2) else Inl UnsafeInteger)
        else if majorType = 2 then
          rbind (readLength r1 information (maxByteLength options)) (\<lambda>(n, r2).
            rbind (readBytes r2 n) (\<lambda>(bs, r3). Inr (VBytes bs, r3)))
        else if majorType = 3 then
          rbind (readLength r1 information (maxByteLength options)) (\<lambda>(n, r2).
            rbind (readBytes r2 n) (\<lambda>(bs, r3).
              case utf8_decode bs of None \<Rightarrow> Inl InvalidUtf8 | Some s \<Rightarrow> Inr (VStr s, r3)))
        else if majorType = 4 then
          rbind (readLength r1 information (maxContainerLength options)) (\<lambda>(n, r2).
            rbind (rrepeat n (readElement (\<lambda>r'. readItem options (depth + 1) r')) ([], r2))
              (\<lambda>(items, r3). Inr (VArr items, r3)))
        else if majorType = 5 then
          rbind (readLength r1 information (maxContainerLength options)) (\<lambda>(n, r2).
            rbind (rrepeat n (readEntry (\<lambda>r'. readItem options (depth + 1) r')) (([], []), r2))
              (\<lambda>((keys, entries), r3). Inr (VObj False entries, r3)))
        else if majorType = 6 then Inl Tag
        else readSimple r1 information))"
  by pat_completeness auto
termination
  by (relation "measure (\<lambda>(options, depth, r). Suc (maxDepth options) - depth)") auto

declare readItem.simps [simp del]

definition decodeCbor :: "byte list \<Rightarrow> cbor_options option \<Rightarrow> (cbor_error, jsval) result" where
  "decodeCbor bytes options = rbind (resolveOptions options) (\<lambda>resolved.
     if length bytes > maxByteLength resolved then Inl ByteLengthLimit
     else rbind (readItem resolved 0 \<lparr>cr_bytes = bytes, cr_offset = 0\<rparr>) (\<lambda>(v, r).
       if cr_offset r \<noteq> length bytes then Inl Trailing else Inr v))"

section \<open>What the writer has written\<close>

definition writer_ok :: "cbor_writer \<Rightarrow> bool" where
  "writer_ok w \<longleftrightarrow> cw_offset w \<le> length (cw_buffer w) \<and> length (cw_buffer w) \<le> cw_maxByteLength w"

definition appends :: "cbor_writer \<Rightarrow> byte list \<Rightarrow> cbor_writer \<Rightarrow> bool" where
  "appends w bs w' \<longleftrightarrow> writer_ok w' \<and> finish w' = finish w @ bs \<and> cw_maxByteLength w' = cw_maxByteLength w"

lemma appends_ok: "appends w bs w' \<Longrightarrow> writer_ok w'"
  by (simp add: appends_def)

lemma appends_trans: "appends w bs w' \<Longrightarrow> appends w' cs w'' \<Longrightarrow> appends w (bs @ cs) w''"
  by (simp add: appends_def)

lemma appends_refl: "writer_ok w \<Longrightarrow> appends w [] w"
  by (simp add: appends_def)

lemma grow_eq: "required \<le> limit \<Longrightarrow> grow limit required c = (if c < required then min limit (max required (c * 2)) else c)"
  by (simp add: grow_def while_unfold)

lemma ensureCapacity_ok:
  assumes "writer_ok w" "ensureCapacity w n = Inr w'"
  shows "writer_ok w' \<and> finish w' = finish w \<and> cw_offset w' = cw_offset w \<and> cw_maxByteLength w' = cw_maxByteLength w \<and>
    cw_offset w + n \<le> length (cw_buffer w')"
proof (cases "cw_offset w + n \<le> length (cw_buffer w)")
  case True
  then show ?thesis using assms by (auto simp: ensureCapacity_def Let_def split: if_splits)
next
  case False
  let ?c = "grow (cw_maxByteLength w) (cw_offset w + n) (max 1 (length (cw_buffer w)))"
  have le: "cw_offset w + n \<le> cw_maxByteLength w" and w': "w' = w\<lparr>cw_buffer := blit (replicate ?c 0) 0 (cw_buffer w)\<rparr>"
    using False assms(2) by (auto simp: ensureCapacity_def Let_def split: if_splits)
  have "cw_offset w + n \<le> ?c" "length (cw_buffer w) \<le> ?c" "?c \<le> cw_maxByteLength w"
    using False le assms(1) unfolding grow_eq [OF le] by (auto simp: writer_ok_def)
  then show ?thesis using assms(1) by (auto simp: w' writer_ok_def finish_def blit_def)
qed

lemma blit_appends:
  assumes "writer_ok w" "cw_offset w + length bs \<le> length (cw_buffer w)"
  shows "appends w bs (w\<lparr>cw_buffer := blit (cw_buffer w) (cw_offset w) bs, cw_offset := cw_offset w + length bs\<rparr>)"
  using assms by (simp add: appends_def writer_ok_def finish_def take_blit)

lemma write_appends:
  assumes "writer_ok w" "rbind (ensureCapacity w (length bs)) (\<lambda>w'.
     Inr (w'\<lparr>cw_buffer := blit (cw_buffer w') (cw_offset w') bs, cw_offset := cw_offset w' + length bs\<rparr>)) = Inr w''"
  shows "appends w bs w''"
proof -
  obtain w' where w': "ensureCapacity w (length bs) = Inr w'"
    "w'' = w'\<lparr>cw_buffer := blit (cw_buffer w') (cw_offset w') bs, cw_offset := cw_offset w' + length bs\<rparr>"
    using assms(2) by (auto elim!: rbindE)
  note ok = ensureCapacity_ok [OF assms(1) w'(1)]
  then have "appends w' bs w''" unfolding w'(2) by (intro blit_appends) auto
  then show ?thesis using ok by (simp add: appends_def)
qed

lemma writeBytes_appends: "writer_ok w \<Longrightarrow> writeBytes w bs = Inr w' \<Longrightarrow> appends w bs w'"
  unfolding writeBytes_def by (rule write_appends)

lemma writeByte_blit: "writeByte w v = writeBytes w [byte_of_nat v]" if "writer_ok w"
proof (cases "ensureCapacity w 1")
  case (Inr w')
  then have "cw_offset w' < length (cw_buffer w')" using ensureCapacity_ok [OF that Inr] by simp
  then show ?thesis using Inr by (simp add: writeByte_def writeBytes_def blit_def upd_conv_take_nth_drop)
qed (simp add: writeByte_def writeBytes_def)

lemma writeByte_appends: "writer_ok w \<Longrightarrow> writeByte w v = Inr w' \<Longrightarrow> appends w [byte_of_nat v] w'"
  using writeBytes_appends writeByte_blit by simp

lemma then_appends:
  assumes "appends w bs w1" "\<And>w1. writer_ok w1 \<Longrightarrow> f w1 = Inr w2 \<Longrightarrow> appends w1 cs w2" "f w1 = Inr w2"
  shows "appends w (bs @ cs) w2"
  using appends_trans [OF assms(1) assms(2) [OF appends_ok [OF assms(1)] assms(3)]] .

lemma writeUint16_appends: "writer_ok w \<Longrightarrow> writeUint16 w v = Inr w' \<Longrightarrow> appends w [byte_of_nat (v div 256), byte_of_nat v] w'"
  by (rule writeBytes_appends) (simp_all add: writeUint16_def writeBytes_def numeral_2_eq_2)

lemma writeUint32_appends: "writer_ok w \<Longrightarrow> writeUint32 w v = Inr w' \<Longrightarrow> appends w (uint32_be v) w'"
  by (rule writeBytes_appends) (simp_all add: writeUint32_def writeBytes_def)

lemma length_uint64_be [simp]: "length (uint64_be w) = 8"
  by (simp add: uint64_be_def)

lemma writeFloat64_appends: "writer_ok w \<Longrightarrow> writeFloat64 w v = Inr w' \<Longrightarrow> appends w (0xfb # uint64_be (float_bits v)) w'"
  by (rule writeBytes_appends) (simp_all add: writeFloat64_def writeBytes_def)

lemma writeUint64_appends:
  assumes "writer_ok w" "writeUint64 w v = Inr w'"
  shows "appends w (uint32_be (v div UINT32_BASE) @ uint32_be (v mod UINT32_BASE)) w'"
proof -
  obtain w1 where "writeUint32 w (v div UINT32_BASE) = Inr w1" "writeUint32 w1 (v mod UINT32_BASE) = Inr w'"
    using assms(2) by (auto simp: writeUint64_def Let_def minus_div_mult_eq_mod elim!: rbindE)
  then show ?thesis by (intro then_appends [OF writeUint32_appends [OF assms(1)] writeUint32_appends])
qed

text \<open>The initial byte and the bytes that follow it, of an argument.\<close>

definition arg_info :: "nat \<Rightarrow> nat" where
  "arg_info v = (if v < 24 then v else if v \<le> 0xff then 24 else if v \<le> 0xffff then 25 else if v \<le> MAX_UINT32 then 26 else 27)"

definition arg_bytes :: "nat \<Rightarrow> byte list" where
  "arg_bytes v = (if v < 24 then [] else if v \<le> 0xff then [byte_of_nat v]
     else if v \<le> 0xffff then [byte_of_nat (v div 256), byte_of_nat v]
     else if v \<le> MAX_UINT32 then uint32_be v
     else uint32_be (v div UINT32_BASE) @ uint32_be (v mod UINT32_BASE))"

lemma writeArgument_appends:
  assumes "writer_ok w" "writeArgument w major v = Inr w'"
  shows "appends w (byte_of_nat (major * 32 + arg_info v) # arg_bytes v) w'"
proof -
  have two: "appends w (byte_of_nat n # bs) w'"
    if run: "rbind (writeByte w n) f = Inr w'" and next_ok: "\<And>w1. writer_ok w1 \<Longrightarrow> f w1 = Inr w' \<Longrightarrow> appends w1 bs w'" for n bs f
  proof -
    obtain w1 where "writeByte w n = Inr w1" "f w1 = Inr w'" using run by (rule rbindE)
    then show ?thesis using then_appends [OF writeByte_appends [OF assms(1)] next_ok, of n w1] by simp
  qed
  consider "v < 24" | "24 \<le> v" "v \<le> 0xff" | "0xff < v" "v \<le> 0xffff" | "0xffff < v" "v \<le> MAX_UINT32" | "0xffff < v" "MAX_UINT32 < v"
    by (auto simp: MAX_UINT32_def) linarith
  then show ?thesis
  proof cases
    case 1
    then show ?thesis using assms writeByte_appends by (simp add: writeArgument_def arg_info_def arg_bytes_def)
  next
    case 2
    then have "rbind (writeByte w (major * 32 + 24)) (\<lambda>w'. writeByte w' v) = Inr w'"
      using assms(2) by (simp add: writeArgument_def)
    from two [OF this writeByte_appends] show ?thesis using 2 by (simp add: arg_info_def arg_bytes_def)
  next
    case 3
    then have "rbind (writeByte w (major * 32 + 25)) (\<lambda>w'. writeUint16 w' v) = Inr w'"
      using assms(2) by (simp add: writeArgument_def)
    from two [OF this writeUint16_appends] show ?thesis using 3 by (simp add: arg_info_def arg_bytes_def)
  next
    case 4
    then have "rbind (writeByte w (major * 32 + 26)) (\<lambda>w'. writeUint32 w' v) = Inr w'"
      using assms(2) by (simp add: writeArgument_def)
    from two [OF this writeUint32_appends] show ?thesis using 4 by (simp add: arg_info_def arg_bytes_def)
  next
    case 5
    then have "rbind (writeByte w (major * 32 + 27)) (\<lambda>w'. writeUint64 w' v) = Inr w'"
      using assms(2) by (simp add: writeArgument_def)
    from two [OF this writeUint64_appends] show ?thesis using 5 by (simp add: arg_info_def arg_bytes_def)
  qed
qed

section \<open>What the reader reads back\<close>

definition reader_at :: "byte list \<Rightarrow> nat \<Rightarrow> cbor_reader" where
  "reader_at bytes off = \<lparr>cr_bytes = bytes, cr_offset = off\<rparr>"

definition reads :: "(cbor_reader \<Rightarrow> (cbor_error, 'a \<times> cbor_reader) result) \<Rightarrow> byte list \<Rightarrow> 'a \<Rightarrow> bool" where
  "reads f bs x \<longleftrightarrow> (\<forall>before after. f (reader_at (before @ bs @ after) (length before)) =
     Inr (x, reader_at (before @ bs @ after) (length before + length bs)))"

lemma reads_bind:
  assumes "reads f bs x" "reads (g x) cs y"
  shows "reads (\<lambda>r. rbind (f r) (\<lambda>(x, r'). g x r')) (bs @ cs) y"
  unfolding reads_def
proof (intro allI)
  fix before after
  show "rbind (f (reader_at (before @ (bs @ cs) @ after) (length before))) (\<lambda>(x, r'). g x r') =
      Inr (y, reader_at (before @ (bs @ cs) @ after) (length before + length (bs @ cs)))"
    using assms(1) [unfolded reads_def, rule_format, of before "cs @ after"]
      assms(2) [unfolded reads_def, rule_format, of "before @ bs" after] by (simp add: add.assoc)
qed

lemma reads_return: "reads (\<lambda>r. Inr (x, r)) [] x"
  by (simp add: reads_def)

lemma reads_map: "reads f bs x \<Longrightarrow> h x = Inr y \<Longrightarrow> (\<And>z r. g z r = rbind (h z) (\<lambda>y. Inr (y, r))) \<Longrightarrow> reads (\<lambda>r. rbind (f r) (\<lambda>(z, r'). g z r')) bs y"
  by (auto simp: reads_def)

lemma reads_readByte: "reads readByte [b] (nat_of_byte b)"
  by (simp add: reads_def readByte_def reader_at_def nth_append)

lemma reads_readBytes: "reads (\<lambda>r. readBytes r (length bs)) bs bs"
  by (simp add: reads_def readBytes_def reader_at_def)

lemma reads_readUint32: "n \<le> MAX_UINT32 \<Longrightarrow> reads readUint32 (uint32_be n) n"
  using reads_map [OF reads_readBytes [of "uint32_be n"], of "\<lambda>bs. Inr (header_value bs)" n "\<lambda>bs r. Inr (header_value bs, r)"]
  by (simp add: readUint32_def [abs_def] header_value_uint32_be)

lemma arg_info_less: "arg_info v < 28"
  by (auto simp: arg_info_def)

lemma reads_argument:
  assumes "v < 2 ^ 53"
  shows "reads (\<lambda>r. readArgument r (arg_info v)) (arg_bytes v) v"
proof -
  consider "v < 24" | "24 \<le> v" "v \<le> 0xff" | "0xff < v" "v \<le> 0xffff" | "0xffff < v" "v \<le> MAX_UINT32" | "0xffff < v" "MAX_UINT32 < v"
    by (auto simp: MAX_UINT32_def) linarith
  then show ?thesis
  proof cases
    case 1
    then show ?thesis by (simp add: arg_info_def arg_bytes_def readArgument_def reads_return)
  next
    case 2
    then show ?thesis using reads_readByte [of "byte_of_nat v"]
      by (simp add: arg_info_def arg_bytes_def readArgument_def nat_of_byte_of_nat)
  next
    case 3
    let ?bs = "[byte_of_nat (v div 256), byte_of_nat v]"
    have "v div 256 < 256" using 3 by (simp add: less_mult_imp_div_less)
    then have sum: "nat_of_byte (?bs ! 0) * 0x100 + nat_of_byte (?bs ! 1) = v"
      by (simp add: nat_of_byte_of_nat)
    have "reads (\<lambda>r. rbind (readBytes r (length ?bs)) (\<lambda>(bs, r'). Inr (nat_of_byte (bs ! 0) * 0x100 + nat_of_byte (bs ! 1), r'))) ?bs v"
      by (rule reads_map [OF reads_readBytes, where h = "\<lambda>bs. Inr (nat_of_byte (bs ! 0) * 0x100 + nat_of_byte (bs ! 1))"])
        (use sum in simp_all)
    then show ?thesis using 3 by (simp add: arg_info_def arg_bytes_def readArgument_def numeral_2_eq_2)
  next
    case 4
    then show ?thesis using reads_readUint32 by (simp add: arg_info_def arg_bytes_def readArgument_def)
  next
    case 5
    have high: "v div UINT32_BASE \<le> 0x1fffff" using assms by (simp add: UINT32_BASE_def less_Suc_eq_le less_mult_imp_div_less flip: Suc_le_lessD)
    have low: "v mod UINT32_BASE \<le> MAX_UINT32" by (simp add: UINT32_BASE_def MAX_UINT32_def flip: less_Suc_eq_le)
    have "reads (\<lambda>r. rbind (readUint32 r) (\<lambda>(high, r1). rbind (readUint32 r1) (\<lambda>(low, r2).
        if high > 0x1fffff then Inl UnsafeInteger else Inr (high * UINT32_BASE + low, r2))))
        (uint32_be (v div UINT32_BASE) @ uint32_be (v mod UINT32_BASE)) v"
    proof (rule reads_bind [OF reads_readUint32])
      show "v div UINT32_BASE \<le> MAX_UINT32" using high by (simp add: MAX_UINT32_def)
      show "reads (\<lambda>r1. rbind (readUint32 r1) (\<lambda>(low, r2).
          if v div UINT32_BASE > 0x1fffff then Inl UnsafeInteger else Inr (v div UINT32_BASE * UINT32_BASE + low, r2)))
          (uint32_be (v mod UINT32_BASE)) v"
        by (rule reads_map [OF reads_readUint32 [OF low], where h = "\<lambda>low. Inr (v div UINT32_BASE * UINT32_BASE + low)"])
          (use high in simp_all)
    qed
    then show ?thesis using 5 by (simp add: arg_info_def arg_bytes_def readArgument_def)
  qed
qed

lemma reads_length:
  assumes "v \<le> limit" "limit \<le> MAX_UINT32"
  shows "reads (\<lambda>r. readLength r (arg_info v) limit) (arg_bytes v) v"
proof -
  have "v < 2 ^ 53" using assms by (simp add: MAX_UINT32_def)
  then have "reads (\<lambda>r. rbind (readArgument r (arg_info v)) (\<lambda>(n, r'). if n > limit then Inl LengthLimit else Inr (n, r'))) (arg_bytes v) v"
    by (intro reads_map [OF reads_argument, where h = "\<lambda>n. if n > limit then Inl LengthLimit else Inr n"]) (use assms(1) in auto)
  then show ?thesis using arg_info_less [of v] by (simp add: readLength_def)
qed

text \<open>The part of \<^term>\<open>readItem\<close> after the initial byte.\<close>

definition read_body :: "resolved_options \<Rightarrow> nat \<Rightarrow> nat \<Rightarrow> nat \<Rightarrow> cbor_reader \<Rightarrow> jsval read" where
  "read_body options depth majorType information r1 =
     (if majorType = 0 then rbind (readArgument r1 information) (\<lambda>(n, r2). Inr (VNum (NInt (int n)), r2))
      else if majorType = 1 then
        rbind (readArgument r1 information) (\<lambda>(n, r2).
          let i = NInt (- 1 - int n) in if isSafeInteger i then Inr (VNum i, r2) else Inl UnsafeInteger)
      else if majorType = 2 then
        rbind (readLength r1 information (maxByteLength options)) (\<lambda>(n, r2).
          rbind (readBytes r2 n) (\<lambda>(bs, r3). Inr (VBytes bs, r3)))
      else if majorType = 3 then
        rbind (readLength r1 information (maxByteLength options)) (\<lambda>(n, r2).
          rbind (readBytes r2 n) (\<lambda>(bs, r3).
            case utf8_decode bs of None \<Rightarrow> Inl InvalidUtf8 | Some s \<Rightarrow> Inr (VStr s, r3)))
      else if majorType = 4 then
        rbind (readLength r1 information (maxContainerLength options)) (\<lambda>(n, r2).
          rbind (rrepeat n (readElement (readItem options (depth + 1))) ([], r2)) (\<lambda>(items, r3). Inr (VArr items, r3)))
      else if majorType = 5 then
        rbind (readLength r1 information (maxContainerLength options)) (\<lambda>(n, r2).
          rbind (rrepeat n (readEntry (readItem options (depth + 1))) (([], []), r2))
            (\<lambda>((keys, entries), r3). Inr (VObj False entries, r3)))
      else if majorType = 6 then Inl Tag
      else readSimple r1 information)"

lemma readItem_body:
  "readItem options depth r = (if depth > maxDepth options then Inl DepthLimit
     else rbind (readByte r) (\<lambda>(initial, r1). read_body options depth (initial div 32) (initial mod 32) r1))"
  unfolding read_body_def Let_def by (rule readItem.simps [unfolded Let_def])

lemma reads_item:
  assumes "depth \<le> maxDepth options" "major < 8" "info < 32" "reads (read_body options depth major info) bs x"
  shows "reads (readItem options depth) (byte_of_nat (major * 32 + info) # bs) x"
proof -
  have "major * 32 + info < 256" using assms(2,3) by simp
  then have "nat_of_byte (byte_of_nat (major * 32 + info)) = major * 32 + info" by simp
  then have "reads readByte [byte_of_nat (major * 32 + info)] (major * 32 + info)"
    using reads_readByte [of "byte_of_nat (major * 32 + info)"] by simp
  moreover have "(major * 32 + info) div 32 = major" "(major * 32 + info) mod 32 = info" using assms(3) by simp_all
  then have "reads (read_body options depth ((major * 32 + info) div 32) ((major * 32 + info) mod 32)) bs x"
    using assms(4) by (simp only:)
  ultimately have "reads (\<lambda>r. rbind (readByte r) (\<lambda>(initial, r1). read_body options depth (initial div 32) (initial mod 32) r1))
      ([byte_of_nat (major * 32 + info)] @ bs) x"
    by (rule reads_bind)
  then show ?thesis using assms(1) by (simp add: readItem_body [abs_def])
qed

definition options_ok :: "resolved_options \<Rightarrow> bool" where
  "options_ok options \<longleftrightarrow> maxByteLength options \<le> MAX_UINT32 \<and> maxContainerLength options \<le> MAX_UINT32"

lemma resolveLimit_le: "resolveLimit name v maximum = Inr n \<Longrightarrow> n \<le> maximum"
  by (auto simp: resolveLimit_def split: jsnum.splits if_splits)

lemma resolveOptions_ok: "resolveOptions options = Inr resolved \<Longrightarrow> options_ok resolved"
  by (auto simp: resolveOptions_def options_ok_def Let_def elim!: rbindE dest!: resolveLimit_le)

text \<open>Text and byte strings.\<close>

definition string_bytes :: "nat \<Rightarrow> byte list \<Rightarrow> byte list" where
  "string_bytes major bs = byte_of_nat (major * 32 + arg_info (length bs)) # arg_bytes (length bs) @ bs"

lemma write_string_appends:
  assumes "writer_ok w" "rbind (writeArgument w major (length bs)) (\<lambda>w'. writeBytes w' bs) = Inr w'"
  shows "appends w (string_bytes major bs) w'"
proof -
  obtain w1 where "writeArgument w major (length bs) = Inr w1" "writeBytes w1 bs = Inr w'" using assms(2) by (rule rbindE)
  then show ?thesis using then_appends [OF writeArgument_appends [OF assms(1)] writeBytes_appends] by (simp add: string_bytes_def)
qed

lemma reads_text:
  assumes "options_ok options" "depth \<le> maxDepth options" "length bs \<le> maxByteLength options" "utf8_decode bs = Some s"
  shows "reads (readItem options depth) (string_bytes 3 bs) (VStr s)"
  unfolding string_bytes_def
proof (rule reads_item [OF assms(2)])
  show "arg_info (length bs) < 32" using arg_info_less [of "length bs"] by simp
  have "reads (\<lambda>r. rbind (readLength r (arg_info (length bs)) (maxByteLength options)) (\<lambda>(n, r2).
      rbind (readBytes r2 n) (\<lambda>(bs, r3). case utf8_decode bs of None \<Rightarrow> Inl InvalidUtf8 | Some s \<Rightarrow> Inr (VStr s, r3))))
      (arg_bytes (length bs) @ bs) (VStr s)"
  proof (rule reads_bind [OF reads_length])
    show "reads (\<lambda>r2. rbind (readBytes r2 (length bs)) (\<lambda>(bs, r3). case utf8_decode bs of None \<Rightarrow> Inl InvalidUtf8 | Some s \<Rightarrow> Inr (VStr s, r3))) bs (VStr s)"
      by (rule reads_map [OF reads_readBytes, where h = "\<lambda>bs. case utf8_decode bs of None \<Rightarrow> Inl InvalidUtf8 | Some s \<Rightarrow> Inr (VStr s)"])
        (auto simp: assms(4) split: option.split)
  qed (use assms in \<open>simp_all add: options_ok_def\<close>)
  then show "reads (read_body options depth 3 (arg_info (length bs))) (arg_bytes (length bs) @ bs) (VStr s)"
    by (simp add: read_body_def [abs_def])
qed simp

lemma reads_bytes:
  assumes "options_ok options" "depth \<le> maxDepth options" "length bs \<le> maxByteLength options"
  shows "reads (readItem options depth) (string_bytes 2 bs) (VBytes bs)"
  unfolding string_bytes_def
proof (rule reads_item [OF assms(2)])
  show "arg_info (length bs) < 32" using arg_info_less [of "length bs"] by simp
  have "reads (\<lambda>r. rbind (readLength r (arg_info (length bs)) (maxByteLength options)) (\<lambda>(n, r2).
      rbind (readBytes r2 n) (\<lambda>(bs, r3). Inr (VBytes bs, r3)))) (arg_bytes (length bs) @ bs) (VBytes bs)"
  proof (rule reads_bind [OF reads_length])
    show "reads (\<lambda>r2. rbind (readBytes r2 (length bs)) (\<lambda>(bs, r3). Inr (VBytes bs, r3))) bs (VBytes bs)"
      by (rule reads_map [OF reads_readBytes, where h = "\<lambda>bs. Inr (VBytes bs)"]) simp_all
  qed (use assms in \<open>simp_all add: options_ok_def\<close>)
  then show "reads (read_body options depth 2 (arg_info (length bs))) (arg_bytes (length bs) @ bs) (VBytes bs)"
    by (simp add: read_body_def [abs_def])
qed simp

lemma encodeText_appends:
  assumes "writer_ok w" "encodeText w s options = Inr w'"
  shows "appends w (string_bytes 3 (utf8_encode s)) w' \<and> length (utf8_encode s) \<le> maxByteLength options \<and> utf8_decode (utf8_encode s) = Some s"
  using assms(2) write_string_appends [OF assms(1), of 3 "utf8_encode s" w']
  by (auto simp: encodeText_def Let_def split: if_splits)

text \<open>Numbers. A double that is not an integer is given by its bits.\<close>

definition wf_num :: "jsnum \<Rightarrow> bool" where
  "wf_num n = (case n of NFrac b \<Rightarrow> float_value b = NFrac b | _ \<Rightarrow> True)"

lemma uint64_value_be: "uint64_value (uint64_be w) = w"
proof -
  have lt: "unat w < 2 ^ 64" using unsigned_less [of w] by simp
  have "unat w div UINT32_BASE \<le> MAX_UINT32"
    using lt by (simp add: UINT32_BASE_def MAX_UINT32_def less_mult_imp_div_less flip: less_Suc_eq_le)
  moreover have "unat w mod UINT32_BASE \<le> MAX_UINT32" by (simp add: UINT32_BASE_def MAX_UINT32_def flip: less_Suc_eq_le)
  ultimately show ?thesis by (simp add: uint64_value_def uint64_be_def header_value_uint32_be)
qed

lemma float_neg_zero: "float_value (2 ^ 63) = NNegZero"
  by code_simp

lemma reads_float:
  assumes "depth \<le> maxDepth options" "float_value (float_bits n) = n" "n = NNegZero \<or> (\<exists>b. n = NFrac b)"
  shows "reads (readItem options depth) (0xfb # uint64_be (float_bits n)) (VNum n)"
proof -
  let ?bs = "uint64_be (float_bits n)"
  let ?h = "\<lambda>bs. let n = float_value (uint64_value bs) in if \<not> isFinite n then Inl NotFinite
          else if isInteger n \<and> \<not> isSafeInteger n then Inl UnsafeInteger else Inr (VNum n)"
  have "reads (\<lambda>r. rbind (readBytes r (length ?bs)) (\<lambda>(bs, r').
      let n = float_value (uint64_value bs) in if \<not> isFinite n then Inl NotFinite
      else if isInteger n \<and> \<not> isSafeInteger n then Inl UnsafeInteger else Inr (VNum n, r'))) ?bs (VNum n)"
    by (rule reads_map [OF reads_readBytes, where h = ?h])
      (use assms(2,3) in \<open>auto simp: uint64_value_be isFinite_def isInteger_def isSafeInteger_def Let_def\<close>)
  then have "reads (read_body options depth 7 27) ?bs (VNum n)"
    by (simp add: read_body_def [abs_def] readSimple_def [abs_def])
  from reads_item [OF assms(1) _ _ this] show ?thesis by (simp add: byte_of_nat_def)
qed

definition written :: "resolved_options \<Rightarrow> nat \<Rightarrow> cbor_writer \<Rightarrow> cbor_writer \<Rightarrow> jsval \<Rightarrow> bool" where
  "written options depth w w' v \<longleftrightarrow> (\<exists>bs. appends w bs w' \<and> reads (readItem options depth) bs v)"

lemma reads_integer:
  assumes "depth \<le> maxDepth options" "v < 2 ^ 53"
  shows "reads (readItem options depth) (byte_of_nat (0 * 32 + arg_info v) # arg_bytes v) (VNum (NInt (int v)))"
    and "v < 2 ^ 53 - 1 \<Longrightarrow> reads (readItem options depth) (byte_of_nat (1 * 32 + arg_info v) # arg_bytes v) (VNum (NInt (- 1 - int v)))"
proof -
  have info: "arg_info v < 32" using arg_info_less [of v] by simp
  have "reads (\<lambda>r. rbind (readArgument r (arg_info v)) (\<lambda>(n, r2). Inr (VNum (NInt (int n)), r2))) (arg_bytes v) (VNum (NInt (int v)))"
    by (rule reads_map [OF reads_argument [OF assms(2)], where h = "\<lambda>n. Inr (VNum (NInt (int n)))"]) simp_all
  then show "reads (readItem options depth) (byte_of_nat (0 * 32 + arg_info v) # arg_bytes v) (VNum (NInt (int v)))"
    by (intro reads_item [OF assms(1) _ info]) (simp_all add: read_body_def [abs_def])
  assume small: "v < 2 ^ 53 - 1"
  have "reads (\<lambda>r. rbind (readArgument r (arg_info v)) (\<lambda>(n, r2).
      let i = NInt (- 1 - int n) in if isSafeInteger i then Inr (VNum i, r2) else Inl UnsafeInteger)) (arg_bytes v) (VNum (NInt (- 1 - int v)))"
    by (rule reads_map [OF reads_argument [OF assms(2)],
          where h = "\<lambda>n. let i = NInt (- 1 - int n) in if isSafeInteger i then Inr (VNum i) else Inl UnsafeInteger"])
      (use small in \<open>auto simp: isSafeInteger_def MAX_SAFE_INTEGER_def Let_def\<close>)
  then show "reads (readItem options depth) (byte_of_nat (1 * 32 + arg_info v) # arg_bytes v) (VNum (NInt (- 1 - int v)))"
    by (intro reads_item [OF assms(1) _ info]) (simp_all add: read_body_def [abs_def])
qed

lemma encodeNumber_written:
  assumes "writer_ok w" "encodeNumber w n = Inr w'" "wf_num n" "depth \<le> maxDepth options"
  shows "written options depth w w' (VNum n)"
proof (cases n)
  case (NInt i)
  have safe: "\<bar>i\<bar> \<le> 2 ^ 53 - 1" using assms(2) NInt by (auto simp: encodeNumber_def isSafeInteger_def MAX_SAFE_INTEGER_def split: if_splits)
  show ?thesis
  proof (cases "i \<ge> 0")
    case True
    then have "writeArgument w 0 (nat i) = Inr w'" using assms(2) NInt by (auto simp: encodeNumber_def split: if_splits)
    from writeArgument_appends [OF assms(1) this] have "appends w (byte_of_nat (0 * 32 + arg_info (nat i)) # arg_bytes (nat i)) w'" .
    moreover have "nat i < 2 ^ 53" using safe True by (simp add: nat_less_iff)
    ultimately show ?thesis using reads_integer(1) [OF assms(4)] NInt True unfolding written_def by fastforce
  next
    case False
    then have "writeArgument w 1 (nat (- 1 - i)) = Inr w'" using assms(2) NInt by (auto simp: encodeNumber_def split: if_splits)
    from writeArgument_appends [OF assms(1) this] have "appends w (byte_of_nat (1 * 32 + arg_info (nat (- 1 - i))) # arg_bytes (nat (- 1 - i))) w'" .
    moreover have "nat (- 1 - i) < 2 ^ 53 - 1" "- 1 - int (nat (- 1 - i)) = i" using safe False by (simp_all add: nat_less_iff)
    ultimately show ?thesis using reads_integer(2) [OF assms(4), of "nat (- 1 - i)"] NInt unfolding written_def by fastforce
  qed
next
  case NNegZero
  then have "appends w (0xfb # uint64_be (float_bits n)) w'" using writeFloat64_appends [OF assms(1)] assms(2) by (simp add: encodeNumber_def)
  then show ?thesis using reads_float [OF assms(4), of n] NNegZero float_neg_zero unfolding written_def by (auto simp: float_bits_def)
next
  case (NFrac b)
  then have "appends w (0xfb # uint64_be (float_bits n)) w'" using writeFloat64_appends [OF assms(1)] assms(2) by (simp add: encodeNumber_def)
  then show ?thesis using reads_float [OF assms(4), of n] NFrac assms(3) unfolding written_def by (auto simp: float_bits_def wf_num_def)
qed (use assms(2) in \<open>auto simp: encodeNumber_def\<close>)

section \<open>Containers\<close>

lemma written_ok: "written options depth w w' v \<Longrightarrow> writer_ok w'"
  by (auto simp: written_def appends_def)

lemma reads_repeat:
  assumes "reads (\<lambda>r. f (s, r)) bs s1" "reads (\<lambda>r. rrepeat n f (s1, r)) cs s2"
  shows "reads (\<lambda>r. rrepeat (Suc n) f (s, r)) (bs @ cs) s2"
  using reads_bind [OF assms(1), where g = "\<lambda>x r'. rrepeat n f (x, r')", OF assms(2)] by (simp add: case_prod_unfold)

lemma elements_written:
  assumes "\<And>v w w'. v \<in> set vs \<Longrightarrow> writer_ok w \<Longrightarrow> f w v = Inr w' \<Longrightarrow> written options depth w w' (g v)"
  shows "rfold f w vs = Inr w' \<Longrightarrow> writer_ok w \<Longrightarrow>
    \<exists>bs. appends w bs w' \<and> (\<forall>items. reads (\<lambda>r. rrepeat (length vs) (readElement (readItem options depth)) (items, r)) bs (items @ map g vs))"
  using assms
proof (induction vs arbitrary: w)
  case Nil
  then show ?case using appends_refl reads_return by auto
next
  case (Cons v vs)
  obtain w1 where w1: "f w v = Inr w1" "rfold f w1 vs = Inr w'" using Cons.prems(1) by (auto elim!: rbindE)
  obtain bs where bs: "appends w bs w1" "reads (readItem options depth) bs (g v)"
    using Cons.prems(3) [OF _ Cons.prems(2) w1(1)] by (auto simp: written_def)
  obtain cs where cs: "appends w1 cs w'" "\<And>items. reads (\<lambda>r. rrepeat (length vs) (readElement (readItem options depth)) (items, r)) cs (items @ map g vs)"
    using Cons.IH [OF w1(2) appends_ok [OF bs(1)]] Cons.prems(3) by auto
  have "reads (\<lambda>r. readElement (readItem options depth) (items, r)) bs (items @ [g v])" for items
    unfolding readElement_def prod.case by (rule reads_map [OF bs(2), where h = "\<lambda>v. Inr (items @ [v])"]) simp_all
  from reads_repeat [OF this cs(2)]
  have "reads (\<lambda>r. rrepeat (length (v # vs)) (readElement (readItem options depth)) (items, r)) (bs @ cs) (items @ map g (v # vs))" for items
    by simp
  then show ?case using appends_trans [OF bs(1) cs(1)] by blast
qed

lemma entries_written:
  assumes "\<And>k v w w'. (k, v) \<in> set ps \<Longrightarrow> writer_ok w \<Longrightarrow> f w (k, v) = Inr w' \<Longrightarrow>
      \<exists>bs cs. appends w (bs @ cs) w' \<and> reads (readItem options depth) bs (VStr k) \<and> reads (readItem options depth) cs (g v)"
  shows "rfold f w ps = Inr w' \<Longrightarrow> writer_ok w \<Longrightarrow> distinct (keys @ map fst ps) \<Longrightarrow>
    \<exists>bs. appends w bs w' \<and> (\<forall>entries. reads (\<lambda>r. rrepeat (length ps) (readEntry (readItem options depth)) ((keys, entries), r)) bs
      (keys @ map fst ps, foldl (\<lambda>acc kv. obj_set (fst kv) (snd kv) acc) entries (map (\<lambda>p. (fst p, g (snd p))) ps)))"
  using assms
proof (induction ps arbitrary: w keys)
  case Nil
  then show ?case using appends_refl [of w'] by (auto intro!: exI [of _ "[]"] reads_return)
next
  case (Cons p ps)
  obtain k v where p: "p = (k, v)" by (cases p)
  obtain w1 where w1: "f w (k, v) = Inr w1" "rfold f w1 ps = Inr w'" using Cons.prems(1) p by (auto elim!: rbindE)
  obtain bs cs where bs: "appends w (bs @ cs) w1" "reads (readItem options depth) bs (VStr k)" "reads (readItem options depth) cs (g v)"
    using Cons.prems(4) [of k v w w1] Cons.prems(2) w1(1) p by auto
  have fresh: "\<not> List.member keys k" "k \<notin> set keys" using Cons.prems(3) p by auto
  have dist: "distinct ((keys @ [k]) @ map fst ps)" using Cons.prems(3) p by auto
  have rest: "\<exists>bs cs. appends u (bs @ cs) u' \<and> reads (readItem options depth) bs (VStr l) \<and> reads (readItem options depth) cs (g x)"
    if "(l, x) \<in> set ps" "writer_ok u" "f u (l, x) = Inr u'" for l x u u'
    using Cons.prems(4) [of l x u u'] that by simp
  obtain ds where ds: "appends w1 ds w'" "\<And>entries. reads (\<lambda>r. rrepeat (length ps) (readEntry (readItem options depth)) ((keys @ [k], entries), r)) ds
      ((keys @ [k]) @ map fst ps, foldl (\<lambda>acc kv. obj_set (fst kv) (snd kv) acc) entries (map (\<lambda>p. (fst p, g (snd p))) ps))"
    using Cons.IH [OF w1(2) appends_ok [OF bs(1)] dist rest] by blast
  have "reads (\<lambda>r. readEntry (readItem options depth) ((keys, entries), r)) (bs @ cs) (keys @ [k], obj_set k (g v) entries)" for entries
    unfolding readEntry_def prod.case
  proof (rule reads_bind [OF bs(2)])
    have "reads (\<lambda>r1. rbind (readItem options depth r1) (\<lambda>(v, r2). Inr ((set_add k keys, obj_set k v entries), r2))) cs (keys @ [k], obj_set k (g v) entries)"
      by (rule reads_map [OF bs(3), where h = "\<lambda>v. Inr (set_add k keys, obj_set k v entries)"]) (use fresh in \<open>simp_all add: set_add_def\<close>)
    then show "reads (\<lambda>r1. case VStr k of VStr k \<Rightarrow> if List.member keys k then Inl DuplicateKey
        else rbind (readItem options depth r1) (\<lambda>(v, r2). Inr ((set_add k keys, obj_set k v entries), r2)) | _ \<Rightarrow> Inl KeyNotString) cs
        (keys @ [k], obj_set k (g v) entries)"
      using fresh by simp
  qed
  from reads_repeat [OF this ds(2)]
  have "reads (\<lambda>r. rrepeat (length (p # ps)) (readEntry (readItem options depth)) ((keys, entries), r)) ((bs @ cs) @ ds)
      (keys @ map fst (p # ps), foldl (\<lambda>acc kv. obj_set (fst kv) (snd kv) acc) entries (map (\<lambda>p. (fst p, g (snd p))) (p # ps)))" for entries
    by (simp add: p)
  then show ?case using appends_trans [OF bs(1) ds(1)] by blast
qed

section \<open>Every value is read back\<close>

text \<open>What a value is after a round trip: properties that are undefined are gone.\<close>

fun cbor_normal :: "jsval \<Rightarrow> jsval" where
  "cbor_normal (VArr vs) = VArr (map cbor_normal vs)"
| "cbor_normal (VObj _ ps) = VObj False (filter (\<lambda>p. snd p \<noteq> VUndef) (map (\<lambda>p. (fst p, cbor_normal (snd p))) ps))"
| "cbor_normal v = v"

fun wf_jsval :: "jsval \<Rightarrow> bool" where
  "wf_jsval (VNum n) = wf_num n"
| "wf_jsval (VArr vs) = list_all wf_jsval vs"
| "wf_jsval (VObj _ ps) = (distinct (map fst ps) \<and> key_ordered (map fst ps) \<and> list_all (\<lambda>p. wf_jsval (snd p)) ps)"
| "wf_jsval _ = True"

lemma cbor_normal_undef: "cbor_normal v = VUndef \<longleftrightarrow> v = VUndef"
  by (cases v) auto

lemma cbor_normal_entries:
  "filter (\<lambda>p. snd p \<noteq> VUndef) (map (\<lambda>p. (fst p, cbor_normal (snd p))) ps) =
     map (\<lambda>p. (fst p, cbor_normal (snd p))) (filter (\<lambda>p. snd p \<noteq> VUndef) ps)"
  by (simp add: filter_map comp_def cbor_normal_undef)

lemma key_ordered_filter: "key_ordered (map fst ps) \<Longrightarrow> key_ordered (map fst (filter P ps))"
  by (simp add: key_ordered_def sorted_wrt_map sorted_wrt_filter)

lemma distinct_fst_filter: "distinct (map fst ps) \<Longrightarrow> distinct (map fst (filter P ps))"
  by (induction ps) auto

lemma array_written:
  assumes "options_ok options" "depth \<le> maxDepth options" "length vs \<le> maxContainerLength options"
    and "appends w (byte_of_nat (4 * 32 + arg_info (length vs)) # arg_bytes (length vs)) w1"
    and "appends w1 bs w'" "reads (\<lambda>r. rrepeat (length vs) (readElement (readItem options (depth + 1))) ([], r)) bs items"
  shows "written options depth w w' (VArr items)"
proof -
  let ?n = "length vs"
  have "reads (\<lambda>r. rbind (readLength r (arg_info ?n) (maxContainerLength options)) (\<lambda>(n, r2).
      rbind (rrepeat n (readElement (readItem options (depth + 1))) ([], r2)) (\<lambda>(items, r3). Inr (VArr items, r3)))) (arg_bytes ?n @ bs) (VArr items)"
  proof (rule reads_bind [OF reads_length [OF assms(3)]])
    show "reads (\<lambda>r2. rbind (rrepeat ?n (readElement (readItem options (depth + 1))) ([], r2)) (\<lambda>(items, r3). Inr (VArr items, r3))) bs (VArr items)"
      by (rule reads_map [OF assms(6), where h = "\<lambda>items. Inr (VArr items)"]) simp_all
  qed (use assms(1) in \<open>simp add: options_ok_def\<close>)
  then have "reads (read_body options depth 4 (arg_info ?n)) (arg_bytes ?n @ bs) (VArr items)" by (simp add: read_body_def [abs_def])
  moreover have "arg_info ?n < 32" using arg_info_less [of ?n] by simp
  ultimately have "reads (readItem options depth) (byte_of_nat (4 * 32 + arg_info ?n) # arg_bytes ?n @ bs) (VArr items)"
    by (intro reads_item [OF assms(2)]) simp_all
  then show ?thesis using appends_trans [OF assms(4,5)] unfolding written_def by auto
qed

lemma map_written:
  assumes "options_ok options" "depth \<le> maxDepth options" "length ps \<le> maxContainerLength options"
    and "appends w (byte_of_nat (5 * 32 + arg_info (length ps)) # arg_bytes (length ps)) w1"
    and "appends w1 bs w'" "reads (\<lambda>r. rrepeat (length ps) (readEntry (readItem options (depth + 1))) (([], []), r)) bs (keys, entries)"
  shows "written options depth w w' (VObj False entries)"
proof -
  let ?n = "length ps"
  have "reads (\<lambda>r. rbind (readLength r (arg_info ?n) (maxContainerLength options)) (\<lambda>(n, r2).
      rbind (rrepeat n (readEntry (readItem options (depth + 1))) (([], []), r2)) (\<lambda>((keys, entries), r3). Inr (VObj False entries, r3))))
      (arg_bytes ?n @ bs) (VObj False entries)"
  proof (rule reads_bind [OF reads_length [OF assms(3)]])
    have "reads (\<lambda>r2. rbind (rrepeat ?n (readEntry (readItem options (depth + 1))) (([], []), r2))
        (\<lambda>(ke, r3). (case ke of (keys, entries) \<Rightarrow> \<lambda>r3. Inr (VObj False entries, r3)) r3)) bs (VObj False entries)"
      by (rule reads_map [OF assms(6), where h = "\<lambda>ke. Inr (VObj False (snd ke))"]) (auto split: prod.splits)
    then show "reads (\<lambda>r2. rbind (rrepeat ?n (readEntry (readItem options (depth + 1))) (([], []), r2))
        (\<lambda>((keys, entries), r3). Inr (VObj False entries, r3))) bs (VObj False entries)"
      by (simp add: case_prod_unfold)
  qed (use assms(1) in \<open>simp add: options_ok_def\<close>)
  then have "reads (read_body options depth 5 (arg_info ?n)) (arg_bytes ?n @ bs) (VObj False entries)" by (simp add: read_body_def [abs_def])
  moreover have "arg_info ?n < 32" using arg_info_less [of ?n] by simp
  ultimately have "reads (readItem options depth) (byte_of_nat (5 * 32 + arg_info ?n) # arg_bytes ?n @ bs) (VObj False entries)"
    by (intro reads_item [OF assms(2)]) simp_all
  then show ?thesis using appends_trans [OF assms(4,5)] unfolding written_def by auto
qed

lemma reads_simple:
  assumes "depth \<le> maxDepth options"
  shows "reads (readItem options depth) [byte_of_nat 0xf6] VNull"
    "reads (readItem options depth) [byte_of_nat (if b then 0xf5 else 0xf4)] (VBool b)"
  using reads_item [OF assms, of 7 22 "[]" VNull] reads_item [OF assms, of 7 21 "[]" "VBool True"] reads_item [OF assms, of 7 20 "[]" "VBool False"]
  by (auto simp: read_body_def [abs_def] readSimple_def reads_return)

lemma encodeValue_written:
  assumes "options_ok options"
  shows "encodeValue w v options depth = Inr w' \<Longrightarrow> writer_ok w \<Longrightarrow> wf_jsval v \<Longrightarrow> written options depth w w' (cbor_normal v)"
proof (induction v arbitrary: w w' depth)
  case VUndef
  then show ?case by (simp add: encodeValue.simps split: if_splits)
next
  case VNull
  then show ?case using reads_simple(1) writeByte_appends unfolding written_def by (fastforce simp: encodeValue.simps split: if_splits)
next
  case (VBool b)
  then have "writeByte w (if b then 0xf5 else 0xf4) = Inr w'" "depth \<le> maxDepth options" by (auto simp: encodeValue.simps split: if_splits)
  then show ?case using reads_simple(2) [of depth options b] writeByte_appends [OF VBool.prems(2)] unfolding written_def by fastforce
next
  case (VNum n)
  then show ?case using encodeNumber_written by (auto simp: encodeValue.simps split: if_splits)
next
  case (VStr s)
  then have "encodeText w s options = Inr w'" "depth \<le> maxDepth options" by (auto simp: encodeValue.simps split: if_splits)
  then show ?case using encodeText_appends [OF VStr.prems(2)] reads_text [OF assms] unfolding written_def by fastforce
next
  case (VBytes bs)
  then have run: "rbind (writeArgument w 2 (length bs)) (\<lambda>w'. writeBytes w' bs) = Inr w'" and le: "depth \<le> maxDepth options" "length bs \<le> maxByteLength options"
    by (auto simp: encodeValue.simps split: if_splits)
  then show ?case using write_string_appends [OF VBytes.prems(2) run] reads_bytes [OF assms le] unfolding written_def by auto
next
  case (VArr vs)
  obtain w1 where w1: "writeArgument w 4 (length vs) = Inr w1" and le: "depth \<le> maxDepth options" "length vs \<le> maxContainerLength options"
    and run: "rfold (\<lambda>w' x. if x = VUndef then Inl Hole else encodeValue w' x options (depth + 1)) w1 vs = Inr w'"
    using VArr.prems(1) by (subst (asm) encodeValue.simps) (auto split: if_splits elim!: rbindE)
  note a1 = writeArgument_appends [OF VArr.prems(2) w1]
  obtain bs where bs: "appends w1 bs w'"
    "\<forall>items. reads (\<lambda>r. rrepeat (length vs) (readElement (readItem options (depth + 1))) (items, r)) bs (items @ map cbor_normal vs)"
    using elements_written [where g = cbor_normal and depth = "depth + 1", OF _ run appends_ok [OF a1]] VArr.IH VArr.prems(3)
    by (fastforce simp: list_all_iff split: if_splits)
  show ?case using array_written [OF assms le a1 bs(1)] bs(2) by fastforce
next
  case (VObj symbols ps)
  let ?ps = "filter (\<lambda>p. snd p \<noteq> VUndef) ps"
  let ?f = "\<lambda>w' p. rbind (encodeText w' (fst p) options) (\<lambda>w''. encodeValue w'' (snd p) options (depth + 1))"
  obtain w1 where w1: "writeArgument w 5 (length ?ps) = Inr w1" and le: "depth \<le> maxDepth options" "length ?ps \<le> maxContainerLength options"
    and run: "rfold ?f w1 ?ps = Inr w'"
    using VObj.prems(1) by (subst (asm) encodeValue.simps) (auto simp: Let_def split: if_splits elim!: rbindE)
  note a1 = writeArgument_appends [OF VObj.prems(2) w1]
  have wf: "distinct (map fst ?ps)" "key_ordered (map fst ?ps)"
    using VObj.prems(3) by (simp_all add: distinct_fst_filter key_ordered_filter)
  have entry: "\<exists>bs cs. appends u (bs @ cs) u' \<and> reads (readItem options (depth + 1)) bs (VStr k) \<and> reads (readItem options (depth + 1)) cs (cbor_normal v)"
    if mem: "(k, v) \<in> set ?ps" and ok: "writer_ok u" and step: "?f u (k, v) = Inr u'" for k v u u'
  proof -
    obtain u1 where u1: "encodeText u k options = Inr u1" "encodeValue u1 v options (depth + 1) = Inr u'" using step by (auto elim!: rbindE)
    note t = encodeText_appends [OF ok u1(1)]
    have "written options (depth + 1) u1 u' (cbor_normal v)"
      by (rule VObj.IH [of "(k, v)" v]) (use mem u1(2) t VObj.prems(3) in \<open>auto simp: appends_def list_all_iff\<close>)
    moreover have "depth + 1 \<le> maxDepth options" using u1(2) by (subst (asm) encodeValue.simps) (auto split: if_splits)
    ultimately show ?thesis using t reads_text [OF assms] appends_trans unfolding written_def by blast
  qed
  obtain bs where bs: "appends w1 bs w'" "\<forall>entries. reads (\<lambda>r. rrepeat (length ?ps) (readEntry (readItem options (depth + 1))) (([], entries), r)) bs
      ([] @ map fst ?ps, foldl (\<lambda>acc kv. obj_set (fst kv) (snd kv) acc) entries (map (\<lambda>p. (fst p, cbor_normal (snd p))) ?ps))"
    using entries_written [where keys = "[]" and g = cbor_normal, OF entry run appends_ok [OF a1]] wf(1) by auto
  have "foldl (\<lambda>acc kv. obj_set (fst kv) (snd kv) acc) [] (map (\<lambda>p. (fst p, cbor_normal (snd p))) ?ps) = map (\<lambda>p. (fst p, cbor_normal (snd p))) ?ps"
    by (rule obj_rebuild) (use wf in \<open>simp_all add: comp_def\<close>)
  then show ?case using map_written [OF assms le a1 bs(1) bs(2) [rule_format, of "[]"]] by (simp add: cbor_normal_entries)
next
  case VOther
  then show ?case by (simp add: encodeValue.simps split: if_splits)
qed

lemma new_writer_ok: "writer_ok (new_writer limit)"
  by (simp add: writer_ok_def new_writer_def)

lemma encodeCbor_decodes:
  assumes "encodeCbor v options = Inr bytes" "wf_jsval v"
  shows "decodeCbor bytes options = Inr (cbor_normal v) \<and>
    (\<forall>resolved. resolveOptions options = Inr resolved \<longrightarrow> length bytes \<le> maxByteLength resolved)"
proof -
  obtain resolved w where r: "resolveOptions options = Inr resolved" "encodeValue (new_writer (maxByteLength resolved)) v resolved 0 = Inr w" "bytes = finish w"
    using assms(1) by (auto simp: encodeCbor_def elim!: rbindE)
  obtain bs where bs: "appends (new_writer (maxByteLength resolved)) bs w" "reads (readItem resolved 0) bs (cbor_normal v)"
    using encodeValue_written [OF resolveOptions_ok [OF r(1)] r(2) new_writer_ok assms(2)] by (auto simp: written_def)
  have b: "bytes = bs" "length bytes \<le> maxByteLength resolved"
    using bs(1) r(3) by (auto simp: appends_def finish_def new_writer_def writer_ok_def)
  have "readItem resolved 0 \<lparr>cr_bytes = bytes, cr_offset = 0\<rparr> = Inr (cbor_normal v, \<lparr>cr_bytes = bytes, cr_offset = length bytes\<rparr>)"
    using bs(2) [unfolded reads_def, rule_format, of "[]" "[]"] b(1) by (simp add: reader_at_def)
  then show ?thesis using r(1) b(2) by (simp add: decodeCbor_def)
qed

section \<open>What a decoder can produce\<close>

text \<open>No undefined value, only finite numbers and safe integers, no key twice, keys in property order.\<close>

fun decoded :: "jsval \<Rightarrow> bool" where
  "decoded (VNum n) = (isFinite n \<and> (isInteger n \<longrightarrow> isSafeInteger n))"
| "decoded (VArr vs) = list_all decoded vs"
| "decoded (VObj symbols ps) = (\<not> symbols \<and> distinct (map fst ps) \<and> key_ordered (map fst ps) \<and> list_all (\<lambda>p. decoded (snd p)) ps)"
| "decoded VUndef = False"
| "decoded VOther = False"
| "decoded _ = True"

lemma readUint32_bound: "readUint32 r = Inr (n, r') \<Longrightarrow> n \<le> MAX_UINT32"
proof -
  assume "readUint32 r = Inr (n, r')"
  then obtain bs where "n = header_value bs" by (auto simp: readUint32_def elim!: rbindE)
  moreover have "header_value bs \<le> MAX_UINT32" for bs
    using nat_of_byte_le [of "bs ! 0"] nat_of_byte_le [of "bs ! 1"] nat_of_byte_le [of "bs ! 2"] nat_of_byte_le [of "bs ! 3"]
    unfolding header_value_def MAX_UINT32_def by linarith
  ultimately show ?thesis by simp
qed

lemma readArgument_safe: "readArgument r i = Inr (n, r') \<Longrightarrow> int n \<le> MAX_SAFE_INTEGER"
proof -
  assume a: "readArgument r i = Inr (n, r')"
  consider "i < 24" | "i = 24" | "i = 25" | "i = 26" | "i = 27" | "27 < i" by linarith
  then have "n < 2 ^ 53"
  proof cases
    case 1
    then show ?thesis using a by (simp add: readArgument_def)
  next
    case 2
    then obtain b where "n = nat_of_byte b" using a by (auto simp: readArgument_def readByte_def split: if_splits)
    then have "n \<le> 255" using nat_of_byte_le [of b] by simp
    then show ?thesis by simp
  next
    case 3
    then obtain b c where "n = nat_of_byte b * 0x100 + nat_of_byte c" using a by (auto simp: readArgument_def elim!: rbindE)
    then have "n \<le> 65535" using nat_of_byte_le [of b] nat_of_byte_le [of c] by linarith
    then show ?thesis by simp
  next
    case 4
    then have "n \<le> MAX_UINT32" using a readUint32_bound by (simp add: readArgument_def)
    then show ?thesis by (simp add: MAX_UINT32_def)
  next
    case 5
    then obtain h l r1 r2 where "readUint32 r1 = Inr (l, r2)" "h \<le> 0x1fffff" "n = h * UINT32_BASE + l"
      using a by (auto simp: readArgument_def not_less elim!: rbindE split: if_splits)
    moreover from this have "l \<le> MAX_UINT32" using readUint32_bound by blast
    ultimately show ?thesis by (simp add: UINT32_BASE_def MAX_UINT32_def)
  next
    case 6
    then show ?thesis using a by (simp add: readArgument_def split: if_splits)
  qed
  then show ?thesis by (simp add: MAX_SAFE_INTEGER_def)
qed

lemma elements_decoded:
  assumes "rrepeat n (readElement f) (items, r) = Inr (items', r')" "list_all decoded items"
    and "\<And>q v q'. f q = Inr (v, q') \<Longrightarrow> decoded v"
  shows "list_all decoded items'"
proof -
  have "list_all decoded (fst (items', r'))"
    by (rule rrepeat_invariant [OF assms(1)]) (use assms(2,3) in \<open>auto simp: readElement_def elim!: rbindE\<close>)
  then show ?thesis by simp
qed

lemma entries_decoded:
  assumes "rrepeat n (readEntry f) ((keys, ps), r) = Inr ((keys', ps'), r')" "decoded (VObj False ps)"
    and "\<And>q v q'. f q = Inr (v, q') \<Longrightarrow> decoded v"
  shows "decoded (VObj False ps')"
proof -
  have set: "list_all (\<lambda>p. decoded (snd p)) (obj_set k v qs)" if "list_all (\<lambda>p. decoded (snd p)) qs" "decoded v" for k v and qs :: "jsval obj"
    using that by (auto simp: list_all_iff dest!: obj_set_values)
  have "decoded (VObj False (snd (fst ((keys', ps'), r'))))"
    by (rule rrepeat_invariant [OF assms(1)])
      (use assms(2,3) in \<open>auto simp: readEntry_def distinct_obj_set key_ordered_obj_set set elim!: rbindE split: jsval.splits if_splits\<close>)
  then show ?thesis by simp
qed

lemma readSimple_decoded: "readSimple r i = Inr (v, r') \<Longrightarrow> decoded v"
  by (auto simp: readSimple_def Let_def elim!: rbindE split: if_splits)

lemma read_body_decoded:
  assumes "\<And>q v q'. readItem options (Suc depth) q = Inr (v, q') \<Longrightarrow> decoded v" "read_body options depth major info r = Inr (v, r')"
  shows "decoded v"
proof -
  have nat: "isSafeInteger (NInt (int n))" if "readArgument q i = Inr (n, q')" for q i n q'
    using readArgument_safe [OF that] by (simp add: isSafeInteger_def)
  have empty: "decoded (VObj False [])" by (simp add: key_ordered_def)
  show ?thesis using assms(2)
    by (auto simp: read_body_def Let_def isFinite_def nat elim!: rbindE split: if_splits option.splits
        dest: readSimple_decoded elements_decoded [OF _ _ assms(1)] entries_decoded [OF _ empty assms(1)] simp del: decoded.simps(3))
qed

lemma readItem_decoded: "readItem options depth r = Inr (v, r') \<Longrightarrow> decoded v"
proof (induction "Suc (maxDepth options) - depth" arbitrary: depth r v r' rule: less_induct)
  case less
  have "depth \<le> maxDepth options" "\<exists>b c r1. read_body options depth b c r1 = Inr (v, r')"
    using less.prems by (auto simp: readItem_body split: if_splits elim!: rbindE)
  then show ?case using read_body_decoded less.hyps [of "Suc depth"] by fastforce
qed

section \<open>Which texts can be encoded\<close>

lemma writeBytes_succeeds: "writer_ok w \<Longrightarrow> length (finish w) + length bs \<le> cw_maxByteLength w \<Longrightarrow> \<exists>w'. writeBytes w bs = Inr w'"
  by (auto simp: writeBytes_def ensureCapacity_def Let_def writer_ok_def finish_def)

lemma writeUint_bytes:
  "writeUint16 w v = writeBytes w [byte_of_nat (v div 256), byte_of_nat v]" "writeUint32 w v = writeBytes w (uint32_be v)"
  by (simp_all add: writeUint16_def writeUint32_def writeBytes_def numeral_2_eq_2)

lemma writeArgument_succeeds:
  assumes "writer_ok w" "length (finish w) + 5 \<le> cw_maxByteLength w" "v \<le> MAX_UINT32"
  shows "\<exists>w'. writeArgument w major v = Inr w'"
proof -
  have byte: "\<exists>w1. writeByte w n = Inr w1 \<and> appends w [byte_of_nat n] w1" for n
    using writeBytes_succeeds [OF assms(1), of "[byte_of_nat n]"] assms(2) writeByte_blit [OF assms(1)] writeByte_appends [OF assms(1)] by auto
  have rest: "\<exists>w2. writeBytes w1 bs = Inr w2" if "appends w [b] w1" "length bs \<le> 4" for w1 b bs
    using that assms(2) by (intro writeBytes_succeeds) (auto simp: appends_def)
  have then_bytes: "\<exists>w'. rbind (writeByte w n) (\<lambda>w1. writeBytes w1 bs) = Inr w'" if "length bs \<le> 4" for n bs
    using byte [of n] rest that by force
  have second: "rbind (writeByte w n) (\<lambda>w1. writeByte w1 v) = rbind (writeByte w n) (\<lambda>w1. writeBytes w1 [byte_of_nat v])" for n
    using byte [of n] writeByte_blit appends_ok by force
  show ?thesis
  proof (cases "v < 24")
    case True
    then show ?thesis using byte [of "major * 32 + v"] by (auto simp: writeArgument_def Let_def)
  next
    case False
    then show ?thesis using assms(3) then_bytes by (simp add: writeArgument_def Let_def second writeUint_bytes)
  qed
qed

lemma encodeText_iff:
  assumes "writer_ok w" "length (finish w) + 5 + length (utf8_encode s) \<le> cw_maxByteLength w"
    and "cw_maxByteLength w = maxByteLength options" "options_ok options"
  shows "(\<exists>w'. encodeText w s options = Inr w') \<longleftrightarrow> well_formed s"
proof
  assume "\<exists>w'. encodeText w s options = Inr w'"
  then show "well_formed s" using encodeText_appends [OF assms(1)] utf8_decode_well_formed by blast
next
  let ?bs = "utf8_encode s"
  assume wf: "well_formed s"
  have le: "length ?bs \<le> MAX_UINT32" using assms(2,3,4) by (simp add: options_ok_def)
  obtain w1 where w1: "writeArgument w 3 (length ?bs) = Inr w1" using writeArgument_succeeds [OF assms(1) _ le] assms(2) by fastforce
  have len: "length (byte_of_nat (3 * 32 + arg_info (length ?bs)) # arg_bytes (length ?bs)) \<le> 5" using le by (simp add: arg_bytes_def)
  note a = writeArgument_appends [OF assms(1) w1]
  have "\<exists>w2. writeBytes w1 ?bs = Inr w2" using a len assms(2) by (intro writeBytes_succeeds) (auto simp: appends_def)
  then show "\<exists>w'. encodeText w s options = Inr w'"
    using w1 utf8_roundtrip [OF wf] assms(2,3) by (auto simp: encodeText_def Let_def)
qed

lemma decodeCbor_decoded: "decodeCbor bytes options = Inr v \<Longrightarrow> decoded v"
  using readItem_decoded by (auto simp: decodeCbor_def elim!: rbindE split: if_splits)

section \<open>Properties\<close>

text \<open>
  C20. What the encoder accepts the decoder reads back under the same options: the value itself, without
  the properties that were undefined; and the encoding keeps to the byte limit.
\<close>

theorem cbor_roundtrip:
  assumes "encodeCbor v options = Inr bytes" "wf_jsval v"
  shows "decodeCbor bytes options = Inr (cbor_normal v) \<and>
    (\<forall>resolved. resolveOptions options = Inr resolved \<longrightarrow> length bytes \<le> maxByteLength resolved)"
  using assms by (rule encodeCbor_decodes)

text \<open>
  Whatever the bytes, a decoded value has only finite numbers, only safe integers, no undefined entry, no key twice
  and its keys in property order.
\<close>

lemma decodeCbor_strict:
  assumes "decodeCbor bytes options = Inr v"
  shows "decoded v"
  using assms by (rule decodeCbor_decoded)

text \<open>
  Exactly the texts without a lone surrogate can be encoded, as long as they fit the default limit.
\<close>

theorem cbor_text_exact:
  assumes "length (utf8_encode s) + 5 \<le> DEFAULT_MAX_CBOR_BYTE_LENGTH"
  shows "(\<exists>bytes. encodeCbor (VStr s) None = Inr bytes) \<longleftrightarrow> well_formed s"
proof -
  let ?o = "\<lparr>maxByteLength = DEFAULT_MAX_CBOR_BYTE_LENGTH, maxContainerLength = DEFAULT_MAX_CBOR_CONTAINER_LENGTH, maxDepth = DEFAULT_MAX_CBOR_DEPTH\<rparr>"
  have r: "resolveOptions None = Inr ?o"
    by (simp add: resolveOptions_def resolveLimit_def no_options_def or_default_def isSafeInteger_def MAX_SAFE_INTEGER_def MAX_UINT32_def
        DEFAULT_MAX_CBOR_BYTE_LENGTH_def DEFAULT_MAX_CBOR_CONTAINER_LENGTH_def DEFAULT_MAX_CBOR_DEPTH_def MAX_CONFIGURED_DEPTH_def)
  have "(\<exists>w'. encodeText (new_writer DEFAULT_MAX_CBOR_BYTE_LENGTH) s ?o = Inr w') \<longleftrightarrow> well_formed s"
    by (rule encodeText_iff [OF new_writer_ok])
      (use assms resolveOptions_ok [OF r] in \<open>simp_all add: finish_def new_writer_def\<close>)
  then show ?thesis
    by (auto simp: encodeCbor_def r encodeValue.simps rbind_Inr_iff)
qed

section \<open>Witnesses\<close>

definition sample_value :: jsval where
  "sample_value = VObj False [(js ''id'', VStr (js ''x'')), (js ''gone'', VUndef), (js ''n'', VArr [VNum (NInt (- 70000)), VNum NNegZero, VNull])]"

lemma sample_encode:
  "encodeCbor sample_value None = Inr [162, 98, 105, 100, 97, 120, 97, 110, 131, 58, 0, 1, 17, 111, 251, 128, 0, 0, 0, 0, 0, 0, 0, 246]"
  by code_simp

theorem cbor_roundtrip_witness:
  "decodeCbor [162, 98, 105, 100, 97, 120, 97, 110, 131, 58, 0, 1, 17, 111, 251, 128, 0, 0, 0, 0, 0, 0, 0, 246] None =
     Inr (VObj False [(js ''id'', VStr (js ''x'')), (js ''n'', VArr [VNum (NInt (- 70000)), VNum NNegZero, VNull])])"
proof -
  have "wf_jsval sample_value" by code_simp
  from cbor_roundtrip [OF sample_encode this] show ?thesis by (simp add: sample_value_def)
qed

end
