(* ===== verification/ProtocolCodec.thy ===== *)
theory ProtocolCodec
  imports Framing Cbor
begin

text \<open>
  The messages between client and server: the schemas of \<^verbatim>\<open>packages/protocol/src/protocol.ts\<close> and the codec of
  \<^verbatim>\<open>packages/protocol/src/codec.ts\<close>, which validates a message, writes it as CBOR and frames it, and on the other side
  reads frames, decodes them and validates the result. The function \<^verbatim>\<open>Check\<close> of the package typebox is
  the parameter \<^verbatim>\<open>check\<close>; what is needed of it is \<^verbatim>\<open>checker\<close> below.
\<close>

section \<open>Schemas\<close>

text \<open>
  The schema constructors the package uses. A pattern is the list of the code units allowed at each position,
  which is all that the one anchored pattern needs.
\<close>

datatype schema =
    SString nat
  | SPattern "jsstring list"
  | SInteger int
  | SText jsstring
  | SNumber int
  | SBool bool
  | SNull
  | SUnknown
  | SObject "(jsstring \<times> bool \<times> schema) list"
  | SUnion "schema list"

definition required :: "string \<Rightarrow> schema \<Rightarrow> jsstring \<times> bool \<times> schema" where
  "required name s = (js name, True, s)"

definition optional :: "string \<Rightarrow> schema \<Rightarrow> jsstring \<times> bool \<times> schema" where
  "optional name s = (js name, False, s)"

definition PROTOCOL_VERSION :: int where
  "PROTOCOL_VERSION = 8"

definition IdSchema :: schema where
  "IdSchema = SString 1"

definition OpaqueJsonValueSchema :: schema where
  "OpaqueJsonValueSchema = SUnknown"

definition hex_digits :: jsstring where
  "hex_digits = js ''0123456789abcdef''"

definition ServerIdSchema :: schema where
  "ServerIdSchema = SPattern (replicate 8 hex_digits @ [js ''-''] @ replicate 4 hex_digits @ [js ''-'', js ''4''] @ replicate 3 hex_digits @
     [js ''-'', js ''89ab''] @ replicate 3 hex_digits @ [js ''-''] @ replicate 12 hex_digits)"

definition ProtocolErrorSchema :: schema where
  "ProtocolErrorSchema = SObject [required ''code'' IdSchema, required ''message'' (SString 0)]"

definition ClientHelloSchema :: schema where
  "ClientHelloSchema = SObject [required ''type'' (SText (js ''hello'')), required ''version'' (SInteger 0)]"

definition ServerTargetSchema :: schema where
  "ServerTargetSchema = SObject [required ''serverId'' ServerIdSchema]"

definition SessionTargetSchema :: schema where
  "SessionTargetSchema = SObject [required ''serverId'' ServerIdSchema, required ''sessionId'' IdSchema, required ''attachmentId'' IdSchema]"

definition RpcTargetSchema :: schema where
  "RpcTargetSchema = SUnion [ServerTargetSchema, SessionTargetSchema]"

definition RequestEnvelopeSchema :: schema where
  "RequestEnvelopeSchema = SObject [required ''type'' (SText (js ''request'')), required ''id'' IdSchema,
     required ''target'' RpcTargetSchema, required ''call'' OpaqueJsonValueSchema]"

definition CancelEnvelopeSchema :: schema where
  "CancelEnvelopeSchema = SObject [required ''type'' (SText (js ''cancel'')), required ''id'' IdSchema, required ''target'' RpcTargetSchema]"

definition ClientMessageSchema :: schema where
  "ClientMessageSchema = SUnion [ClientHelloSchema, RequestEnvelopeSchema, CancelEnvelopeSchema]"

definition ServerHelloSchema :: schema where
  "ServerHelloSchema = SObject [required ''type'' (SText (js ''hello'')), required ''version'' (SNumber PROTOCOL_VERSION),
     required ''serverId'' ServerIdSchema]"

definition ServerHelloErrorSchema :: schema where
  "ServerHelloErrorSchema = SObject [required ''type'' (SText (js ''hello_error'')), required ''error'' ProtocolErrorSchema]"

definition ResponseEnvelopeSchema :: schema where
  "ResponseEnvelopeSchema = SUnion
     [SObject [required ''type'' (SText (js ''response'')), required ''id'' IdSchema, required ''ok'' (SBool True),
        optional ''result'' OpaqueJsonValueSchema],
      SObject [required ''type'' (SText (js ''response'')), required ''id'' IdSchema, required ''ok'' (SBool False),
        required ''error'' ProtocolErrorSchema]]"

definition ServiceEventEnvelopeSchema :: schema where
  "ServiceEventEnvelopeSchema = SObject [required ''type'' (SText (js ''service_update'')), required ''subscriptionId'' IdSchema,
     required ''update'' OpaqueJsonValueSchema]"

definition AttachmentEnvelopeSchema :: schema where
  "AttachmentEnvelopeSchema = SObject [required ''type'' (SText (js ''attachment'')),
     required ''attachment'' (SUnion [SessionTargetSchema, SNull])]"

definition ServerMessageSchema :: schema where
  "ServerMessageSchema = SUnion [ServerHelloSchema, ServerHelloErrorSchema, ResponseEnvelopeSchema, ServiceEventEnvelopeSchema,
     AttachmentEnvelopeSchema]"

definition isServerId :: "(schema \<Rightarrow> jsval \<Rightarrow> bool) \<Rightarrow> jsval \<Rightarrow> bool" where
  "isServerId check v = check ServerIdSchema v"

section \<open>The codec\<close>

datatype message_kind = ClientKind | ServerKind

datatype codec_error = CborCause cbor_error | FrameCause frame_error

text \<open>A \<^verbatim>\<open>ProtocolValidationError\<close>, by its message: which message it is, of which kind, and the error it quotes.\<close>

datatype protocol_error =
    InvalidMessage message_kind
  | UnableToEncode message_kind codec_error
  | DecoderHasFailed message_kind
  | InvalidFrame message_kind codec_error
  | InvalidFraming message_kind codec_error

type_synonym parser = "jsval \<Rightarrow> (protocol_error, jsval) result"

definition parseClientMessage :: "(schema \<Rightarrow> jsval \<Rightarrow> bool) \<Rightarrow> parser" where
  "parseClientMessage check v =
     (if \<not> check ClientMessageSchema v \<or> \<not> isJsonValue v then Inl (InvalidMessage ClientKind) else Inr v)"

definition parseServerMessage :: "(schema \<Rightarrow> jsval \<Rightarrow> bool) \<Rightarrow> parser" where
  "parseServerMessage check v =
     (if \<not> check ServerMessageSchema v \<or> \<not> isJsonValue v then Inl (InvalidMessage ServerKind) else Inr v)"

definition rcause :: "('e \<Rightarrow> 'f) \<Rightarrow> ('e, 'a) result \<Rightarrow> ('f, 'a) result" where
  "rcause f r = (case r of Inl e \<Rightarrow> Inl (f e) | Inr x \<Rightarrow> Inr x)"

definition limit_options :: "int option \<Rightarrow> cbor_options option" where
  "limit_options maxFrameLength = Some \<lparr>opt_maxByteLength =
     Some (NInt (case maxFrameLength of None \<Rightarrow> int DEFAULT_MAX_FRAME_LENGTH | Some n \<Rightarrow> n)),
     opt_maxContainerLength = None, opt_maxDepth = None\<rparr>"

definition encodeProtocolMessage :: "jsval \<Rightarrow> parser \<Rightarrow> message_kind \<Rightarrow> int option \<Rightarrow> (protocol_error, byte list) result" where
  "encodeProtocolMessage v parse kind options =
     rbind (parse v) (\<lambda>validated.
     rbind (rcause (\<lambda>e. UnableToEncode kind (CborCause e)) (encodeCbor validated (limit_options options))) (\<lambda>payload.
       rcause (\<lambda>e. UnableToEncode kind (FrameCause e)) (encodeFrame payload)))"

definition encodeClientMessage :: "(schema \<Rightarrow> jsval \<Rightarrow> bool) \<Rightarrow> int option \<Rightarrow> jsval \<Rightarrow> (protocol_error, byte list) result" where
  "encodeClientMessage check options message = encodeProtocolMessage message (parseClientMessage check) ClientKind options"

definition encodeServerMessage :: "(schema \<Rightarrow> jsval \<Rightarrow> bool) \<Rightarrow> int option \<Rightarrow> jsval \<Rightarrow> (protocol_error, byte list) result" where
  "encodeServerMessage check options message = encodeProtocolMessage message (parseServerMessage check) ServerKind options"

record message_decoder =
  md_failed :: bool
  md_frames :: frame_decoder
  md_kind :: message_kind
  md_maxFrameLength :: "int option"
  md_parse :: parser

definition new_message_decoder :: "message_kind \<Rightarrow> parser \<Rightarrow> int option \<Rightarrow> (frame_error, message_decoder) result" where
  "new_message_decoder kind parse options = rbind (new_frame_decoder options) (\<lambda>frames.
     Inr \<lparr>md_failed = False, md_frames = frames, md_kind = kind, md_maxFrameLength = options, md_parse = parse\<rparr>)"

definition read_message :: "message_decoder \<Rightarrow> byte list \<Rightarrow> (protocol_error, jsval) result" where
  "read_message m frame =
     rbind (rcause (\<lambda>e. InvalidFrame (md_kind m) (CborCause e)) (decodeCbor frame (limit_options (md_maxFrameLength m)))) (md_parse m)"

definition md_push :: "message_decoder \<Rightarrow> byte list \<Rightarrow> (message_decoder \<times> (protocol_error, jsval list) result) option" where
  "md_push m chunk =
     (if md_failed m then Some (m, Inl (DecoderHasFailed (md_kind m)))
      else case fd_push (md_frames m) chunk of
        None \<Rightarrow> None
      | Some (d, Inl e) \<Rightarrow> Some (m\<lparr>md_frames := d, md_failed := True\<rparr>, Inl (InvalidFrame (md_kind m) (FrameCause e)))
      | Some (d, Inr frames) \<Rightarrow>
          (case rmap (read_message m) frames of
             Inl e \<Rightarrow> Some (m\<lparr>md_frames := d, md_failed := True\<rparr>, Inl e)
           | Inr messages \<Rightarrow> Some (m\<lparr>md_frames := d\<rparr>, Inr messages)))"

definition md_end :: "message_decoder \<Rightarrow> message_decoder \<times> (protocol_error, unit) result" where
  "md_end m =
     (if md_failed m then (m, Inl (DecoderHasFailed (md_kind m)))
      else case fd_end (md_frames m) of
        (d, Inl e) \<Rightarrow> (m\<lparr>md_frames := d, md_failed := True\<rparr>, Inl (InvalidFraming (md_kind m) (FrameCause e)))
      | (d, Inr u) \<Rightarrow> (m\<lparr>md_frames := d\<rparr>, Inr u))"

definition ClientMessageDecoder :: "(schema \<Rightarrow> jsval \<Rightarrow> bool) \<Rightarrow> int option \<Rightarrow> (frame_error, message_decoder) result" where
  "ClientMessageDecoder check options = new_message_decoder ClientKind (parseClientMessage check) options"

definition ServerMessageDecoder :: "(schema \<Rightarrow> jsval \<Rightarrow> bool) \<Rightarrow> int option \<Rightarrow> (frame_error, message_decoder) result" where
  "ServerMessageDecoder check options = new_message_decoder ServerKind (parseServerMessage check) options"

definition isSupportedProtocolVersion :: "jsnum \<Rightarrow> bool" where
  "isSupportedProtocolVersion version = (isInteger version \<and> num_eq version (NInt PROTOCOL_VERSION))"

section \<open>What the checker decides\<close>

text \<open>Which strict Json values conform to a schema, as JSON Schema defines it.\<close>

fun conforms :: "schema \<Rightarrow> jsval \<Rightarrow> bool" where
  "conforms (SString n) v = (case v of VStr s \<Rightarrow> n \<le> length s | _ \<Rightarrow> False)"
| "conforms (SPattern cs) v = (case v of VStr s \<Rightarrow> list_all2 (\<lambda>c allowed. List.member allowed c) s cs | _ \<Rightarrow> False)"
| "conforms (SInteger least) v = (case v of VNum (NInt i) \<Rightarrow> least \<le> i | VNum NNegZero \<Rightarrow> least \<le> 0 | _ \<Rightarrow> False)"
| "conforms (SText s) v = (v = VStr s)"
| "conforms (SNumber i) v = (case v of VNum n \<Rightarrow> num_eq n (NInt i) | _ \<Rightarrow> False)"
| "conforms (SBool b) v = (v = VBool b)"
| "conforms SNull v = (v = VNull)"
| "conforms SUnknown v = True"
| "conforms (SObject members) v = (case v of
      VObj symbols ps \<Rightarrow> list_all (\<lambda>p. List.member (map fst members) (fst p)) ps \<and>
        list_all (\<lambda>(name, needed, s). case map_of ps name of None \<Rightarrow> \<not> needed | Some x \<Rightarrow> conforms s x) members
    | _ \<Rightarrow> False)"
| "conforms (SUnion ss) v = list_ex (\<lambda>s. conforms s v) ss"

definition checker :: "(schema \<Rightarrow> jsval \<Rightarrow> bool) \<Rightarrow> bool" where
  "checker check \<longleftrightarrow> (\<forall>s v. isJsonValue v \<longrightarrow> check s v = conforms s v)"

section \<open>Messages through frames\<close>

definition parse_kind :: "(schema \<Rightarrow> jsval \<Rightarrow> bool) \<Rightarrow> message_kind \<Rightarrow> parser" where
  "parse_kind check kind = (case kind of ClientKind \<Rightarrow> parseClientMessage check | ServerKind \<Rightarrow> parseServerMessage check)"

definition schema_kind :: "message_kind \<Rightarrow> schema" where
  "schema_kind kind = (case kind of ClientKind \<Rightarrow> ClientMessageSchema | ServerKind \<Rightarrow> ServerMessageSchema)"

lemma decoder_kinds:
  "ClientMessageDecoder check = new_message_decoder ClientKind (parse_kind check ClientKind)"
  "ServerMessageDecoder check = new_message_decoder ServerKind (parse_kind check ServerKind)"
  by (simp_all add: fun_eq_iff ClientMessageDecoder_def ServerMessageDecoder_def parse_kind_def)

lemma parse_kind_Inr: "parse_kind check kind v = Inr w \<longleftrightarrow> w = v \<and> check (schema_kind kind) v \<and> isJsonValue v"
  by (cases kind) (auto simp: parse_kind_def schema_kind_def parseClientMessage_def parseServerMessage_def)

lemma rcause_Inr [simp]: "rcause f r = Inr x \<longleftrightarrow> r = Inr x"
  by (simp add: rcause_def split: sum.splits)

text \<open>Strict Json has no undefined property, so it survives CBOR unchanged.\<close>

lemma json_check_normal: "json_check depth v \<Longrightarrow> cbor_normal v = v \<and> v \<noteq> VUndef"
proof (induction depth v rule: json_check.induct)
  case (1 depth v)
  have d: "\<not> depth > 512" using "1.prems" by (subst (asm) json_check.simps) (simp split: if_splits)
  show ?case
  proof (cases v)
    case (VArr xs)
    then have "list_all (json_check (Suc depth)) xs" using "1.prems" by (subst (asm) json_check.simps) (simp split: if_splits)
    then have "\<forall>x \<in> set xs. cbor_normal x = x" using "1.IH"(1) [OF d VArr] by (simp add: list_all_iff)
    then show ?thesis by (simp add: VArr map_idI)
  next
    case (VObj symbols ps)
    then have "\<not> symbols" "list_all (\<lambda>p. json_check (Suc depth) (snd p)) ps"
      using "1.prems" by (subst (asm) json_check.simps; simp split: if_splits)+
    then have "\<forall>p \<in> set ps. cbor_normal (snd p) = snd p \<and> snd p \<noteq> VUndef"
      using "1.IH"(2) [OF d VObj] by (simp add: list_all_iff)
    then have "map (\<lambda>p. (fst p, cbor_normal (snd p))) ps = ps" "filter (\<lambda>p. snd p \<noteq> VUndef) ps = ps"
      by (auto intro!: map_idI)
    then show ?thesis using \<open>\<not> symbols\<close> by (simp add: VObj)
  qed (use "1.prems" d in \<open>simp_all add: json_check.simps\<close>)
qed

lemma limit_options_resolve:
  assumes "resolveOptions (limit_options options) = Inr resolved" "new_frame_decoder options = Inr d"
  shows "maxByteLength resolved = fd_maxFrameLength d"
  using assms by (auto simp: resolveOptions_def limit_options_def resolveLimit_def or_default_def new_frame_decoder_def resolveMaxFrameLength_def
      Let_def elim!: rbindE split: if_splits option.splits)

text \<open>An encoded message is one frame whose payload is read back as the message.\<close>

lemma encode_reads:
  assumes "encodeProtocolMessage v (parse_kind check kind) kind options = Inr frame" "wf_jsval v"
    and "new_message_decoder kind (parse_kind check kind) options = Inr m"
  shows "\<exists>payload. frame = frame_bytes payload \<and> length payload \<le> fd_maxFrameLength (md_frames m) \<and> read_message m payload = Inr v"
proof -
  from assms(1) obtain payload where p: "check (schema_kind kind) v" "isJsonValue v"
    "encodeCbor v (limit_options options) = Inr payload" "encodeFrame payload = Inr frame"
    by (auto simp: encodeProtocolMessage_def parse_kind_Inr elim!: rbindE)
  have normal: "cbor_normal v = v" using json_check_normal p(2) by (simp add: isJsonValue_def)
  obtain resolved where r: "resolveOptions (limit_options options) = Inr resolved" using p(3) by (auto simp: encodeCbor_def elim!: rbindE)
  from assms(3) obtain d where d: "new_frame_decoder options = Inr d" "md_frames m = d" "md_maxFrameLength m = options"
    "md_parse m = parse_kind check kind" by (auto simp: new_message_decoder_def elim!: rbindE)
  have dec: "decodeCbor payload (limit_options options) = Inr v" "length payload \<le> maxByteLength resolved"
    using encodeCbor_decodes [OF p(3) assms(2)] r normal by auto
  have "read_message m payload = Inr v"
    using dec(1) p(1,2) d(3,4) by (simp add: read_message_def rcause_def parse_kind_Inr)
  then show ?thesis using frame_bytes_encodeFrame [OF p(4)] dec(2) limit_options_resolve [OF r d(1)] d(2) by auto
qed

lemma encode_all_reads:
  assumes "rmap (\<lambda>v. encodeProtocolMessage v (parse_kind check kind) kind options) messages = Inr frames" "list_all wf_jsval messages"
    and "new_message_decoder kind (parse_kind check kind) options = Inr m"
  shows "\<exists>payloads. frames = map frame_bytes payloads \<and> list_all (\<lambda>p. length p \<le> fd_maxFrameLength (md_frames m)) payloads \<and>
    rmap (read_message m) payloads = Inr messages"
  using assms(1,2)
proof (induction messages arbitrary: frames)
  case Nil
  then show ?case by simp
next
  case (Cons v vs)
  from Cons.prems(1) obtain f fs where f: "encodeProtocolMessage v (parse_kind check kind) kind options = Inr f"
    "rmap (\<lambda>v. encodeProtocolMessage v (parse_kind check kind) kind options) vs = Inr fs" "frames = f # fs"
    by (auto elim!: rbindE)
  obtain p where p: "f = frame_bytes p" "length p \<le> fd_maxFrameLength (md_frames m)" "read_message m p = Inr v"
    using encode_reads [OF f(1) _ assms(3)] Cons.prems(2) by auto
  obtain ps where "fs = map frame_bytes ps" "list_all (\<lambda>p. length p \<le> fd_maxFrameLength (md_frames m)) ps"
    "rmap (read_message m) ps = Inr vs" using Cons.IH [OF f(2)] Cons.prems(2) by auto
  then show ?case using p f(3) by (intro exI [of _ "p # ps"]) simp
qed

lemma read_message_frames: "read_message (m\<lparr>md_frames := d\<rparr>) = read_message m"
  by (simp add: read_message_def fun_eq_iff)

lemma rmap_append: "rmap f (xs @ ys) = rbind (rmap f xs) (\<lambda>a. rbind (rmap f ys) (\<lambda>b. Inr (a @ b)))"
  by (induction xs) (auto simp: rbind_assoc)

lemma feed_messages:
  assumes "feed fd_push (md_frames m) chunks = Some (d', Inr payloads)" "rmap (read_message m) payloads = Inr messages" "\<not> md_failed m"
  shows "feed md_push m chunks = Some (m\<lparr>md_frames := d'\<rparr>, Inr messages)"
  using assms
proof (induction chunks arbitrary: m payloads messages)
  case Nil
  then show ?case by auto
next
  case (Cons c cs)
  from Cons.prems(1) obtain d fs ps where d: "fd_push (md_frames m) c = Some (d, Inr fs)" "feed fd_push d cs = Some (d', Inr ps)"
    "payloads = fs @ ps" by (auto split: option.splits prod.splits sum.splits elim!: rbindE)
  from Cons.prems(2) d(3) obtain a b where ab: "rmap (read_message m) fs = Inr a" "rmap (read_message m) ps = Inr b" "messages = a @ b"
    by (auto simp: rmap_append elim!: rbindE)
  have "feed md_push (m\<lparr>md_frames := d\<rparr>) cs = Some (m\<lparr>md_frames := d'\<rparr>, Inr b)"
    using Cons.IH [of "m\<lparr>md_frames := d\<rparr>" ps b] d(2) ab(2) Cons.prems(3) by (simp add: read_message_frames)
  moreover have "md_push m c = Some (m\<lparr>md_frames := d\<rparr>, Inr a)" using d(1) ab(1) Cons.prems(3) by (simp add: md_push_def)
  ultimately show ?case using ab(3) by simp
qed

section \<open>The decoder fails for good\<close>

text \<open>A decoder that has not failed is at a consistent place of the frame stream.\<close>

definition md_inv :: "message_decoder \<Rightarrow> bool" where
  "md_inv m \<longleftrightarrow> md_failed m \<or> ready (fd_maxFrameLength (md_frames m)) (md_frames m)"

lemma md_inv_new: "new_message_decoder kind parse options = Inr m \<Longrightarrow>
    md_inv m \<and> \<not> md_failed m \<and> md_kind m = kind \<and> md_parse m = parse"
  using ready_new by (fastforce simp: new_message_decoder_def md_inv_def elim!: rbindE)

definition same_decoder :: "message_decoder \<Rightarrow> message_decoder \<Rightarrow> bool" where
  "same_decoder m m' \<longleftrightarrow> md_kind m' = md_kind m \<and> md_parse m' = md_parse m \<and> md_maxFrameLength m' = md_maxFrameLength m"

definition valid_messages :: "message_decoder \<Rightarrow> jsval list \<Rightarrow> bool" where
  "valid_messages m vs \<longleftrightarrow> (\<forall>v \<in> set vs. \<exists>w. decoded w \<and> md_parse m w = Inr v)"

text \<open>How a call of \<^verbatim>\<open>push\<close>, or a sequence of them, may end.\<close>

definition md_outcome :: "message_decoder \<Rightarrow> (message_decoder \<times> (protocol_error, jsval list) result) option \<Rightarrow> bool" where
  "md_outcome m out \<longleftrightarrow> (\<exists>m'. md_inv m' \<and> same_decoder m m' \<and>
     ((\<exists>e. out = Some (m', Inl e) \<and> md_failed m') \<or> (\<exists>vs. out = Some (m', Inr vs) \<and> md_failed m' = md_failed m \<and> valid_messages m vs)))"

lemma read_message_valid: "rmap (read_message m) frames = Inr vs \<Longrightarrow> valid_messages m vs"
proof (induction frames arbitrary: vs)
  case (Cons f fs)
  from Cons.prems obtain w v ws where "decodeCbor f (limit_options (md_maxFrameLength m)) = Inr w" "md_parse m w = Inr v"
    "rmap (read_message m) fs = Inr ws" "vs = v # ws" by (auto simp: read_message_def [of m f] elim!: rbindE)
  moreover from this have "decoded w" by (auto dest: decodeCbor_decoded)
  ultimately show ?case using Cons.IH [of ws] by (auto simp: valid_messages_def)
qed (simp add: valid_messages_def)

lemma md_push_outcome:
  assumes "md_inv m"
  shows "md_outcome m (md_push m chunk)"
proof (cases "md_failed m")
  case True
  then show ?thesis using assms by (simp add: md_push_def md_outcome_def same_decoder_def)
next
  case False
  have ready: "ready (fd_maxFrameLength (md_frames m)) (md_frames m)" using assms False by (simp add: md_inv_def)
  have "\<exists>d r. fd_push (md_frames m) chunk = Some (d, r) \<and> (\<forall>x. r = Inr x \<longrightarrow> ready (fd_maxFrameLength d) d)"
    using push_refines [OF ready, of chunk] ready by (fastforce simp: refines_def ready_def split: sum.splits)
  then obtain d r where d: "fd_push (md_frames m) chunk = Some (d, r)" "\<And>x. r = Inr x \<Longrightarrow> ready (fd_maxFrameLength d) d" by blast
  show ?thesis
  proof (cases r)
    case (Inl e)
    then show ?thesis using d False by (simp add: md_push_def md_outcome_def same_decoder_def md_inv_def)
  next
    case (Inr frames)
    then show ?thesis using d False read_message_valid [of m frames]
      by (cases "rmap (read_message m) frames") (simp_all add: md_push_def md_outcome_def same_decoder_def md_inv_def)
  qed
qed

lemma md_feed_outcome: "md_inv m \<Longrightarrow> md_outcome m (feed md_push m chunks)"
proof (induction chunks arbitrary: m)
  case Nil
  then show ?case by (simp add: md_outcome_def same_decoder_def valid_messages_def)
next
  case (Cons c cs)
  obtain m1 where m1: "md_inv m1" "same_decoder m m1"
    and out: "(\<exists>e. md_push m c = Some (m1, Inl e) \<and> md_failed m1) \<or>
      (\<exists>vs. md_push m c = Some (m1, Inr vs) \<and> md_failed m1 = md_failed m \<and> valid_messages m vs)"
    using md_push_outcome [OF Cons.prems, of c] by (auto simp: md_outcome_def)
  from out show ?case
  proof
    assume "\<exists>e. md_push m c = Some (m1, Inl e) \<and> md_failed m1"
    then show ?thesis using m1 by (auto simp: md_outcome_def)
  next
    assume "\<exists>vs. md_push m c = Some (m1, Inr vs) \<and> md_failed m1 = md_failed m \<and> valid_messages m vs"
    then obtain vs where vs: "md_push m c = Some (m1, Inr vs)" "md_failed m1 = md_failed m" "valid_messages m vs" by blast
    obtain m2 where m2: "md_inv m2" "same_decoder m1 m2"
      "(\<exists>e. feed md_push m1 cs = Some (m2, Inl e) \<and> md_failed m2) \<or>
       (\<exists>ws. feed md_push m1 cs = Some (m2, Inr ws) \<and> md_failed m2 = md_failed m1 \<and> valid_messages m1 ws)"
      using Cons.IH [OF m1(1)] by (auto simp: md_outcome_def)
    have "same_decoder m m2" using m1(2) m2(2) by (simp add: same_decoder_def)
    moreover have "valid_messages m (vs @ ws)" if "valid_messages m1 ws" for ws
      using that vs(3) m1(2) by (auto simp: valid_messages_def same_decoder_def)
    ultimately show ?thesis using m2(1,3) vs by (auto simp: md_outcome_def)
  qed
qed

lemma failed_stays: "md_failed m \<Longrightarrow> md_push m chunk = Some (m, Inl (DecoderHasFailed (md_kind m))) \<and> md_end m = (m, Inl (DecoderHasFailed (md_kind m)))"
  by (simp add: md_push_def md_end_def)

section \<open>Properties\<close>

text \<open>
  C10. Messages of either kind that are encoded one after the other and read in chunks of any size by a decoder with the
  same options arrive as they were sent, each once and in order, and the end of the stream is accepted.
\<close>

theorem message_stream_roundtrip:
  assumes "rmap (\<lambda>v. encodeProtocolMessage v (parse_kind check kind) kind options) messages = Inr frames" "list_all wf_jsval messages"
    and "new_message_decoder kind (parse_kind check kind) options = Inr m" "concat chunks = concat frames"
  shows "\<exists>m'. feed md_push m chunks = Some (m', Inr messages) \<and> snd (md_end m') = Inr ()"
proof -
  obtain payloads where p: "frames = map frame_bytes payloads" "list_all (\<lambda>p. length p \<le> fd_maxFrameLength (md_frames m)) payloads"
    "rmap (read_message m) payloads = Inr messages" using encode_all_reads [OF assms(1-3)] by blast
  have new: "new_frame_decoder options = Inr (md_frames m)" "\<not> md_failed m"
    using assms(3) by (auto simp: new_message_decoder_def elim!: rbindE)
  obtain d where d: "feed fd_push (md_frames m) chunks = Some (d, Inr payloads)" "snd (fd_end d) = Inr ()"
    using stream_complete [OF new(1) p(2)] p(1) assms(4) by auto
  have "feed md_push m chunks = Some (m\<lparr>md_frames := d\<rparr>, Inr messages)" by (rule feed_messages [OF d(1) p(3) new(2)])
  moreover have "snd (md_end (m\<lparr>md_frames := d\<rparr>)) = Inr ()" using d(2) new(2) by (cases "fd_end d") (auto simp: md_end_def)
  ultimately show ?thesis by blast
qed

text \<open>
  C19. Whatever bytes arrive and however they are cut, a decoder returns: either with messages that all pass the check
  of the schema and are strict Json without a key twice, or with an error after which every call reports the failure.
\<close>

theorem message_decoder_total:
  assumes "new_message_decoder kind (parse_kind check kind) options = Inr m"
  shows "\<exists>m' r. feed md_push m chunks = Some (m', r) \<and>
    (case r of
       Inr messages \<Rightarrow> \<not> md_failed m' \<and> (\<forall>v \<in> set messages. check (schema_kind kind) v \<and> isJsonValue v \<and> decoded v)
     | Inl _ \<Rightarrow> (\<forall>chunk. md_push m' chunk = Some (m', Inl (DecoderHasFailed kind))) \<and> md_end m' = (m', Inl (DecoderHasFailed kind)))"
proof -
  note new = md_inv_new [OF assms]
  obtain m' where m': "same_decoder m m'"
    "(\<exists>e. feed md_push m chunks = Some (m', Inl e) \<and> md_failed m') \<or>
     (\<exists>vs. feed md_push m chunks = Some (m', Inr vs) \<and> md_failed m' = md_failed m \<and> valid_messages m vs)"
    using md_feed_outcome [of m chunks] new by (auto simp: md_outcome_def)
  from m'(2) show ?thesis
  proof
    assume "\<exists>e. feed md_push m chunks = Some (m', Inl e) \<and> md_failed m'"
    then show ?thesis using failed_stays [of m'] m'(1) new by (auto simp: same_decoder_def)
  next
    assume "\<exists>vs. feed md_push m chunks = Some (m', Inr vs) \<and> md_failed m' = md_failed m \<and> valid_messages m vs"
    then show ?thesis using new by (fastforce simp: valid_messages_def parse_kind_Inr)
  qed
qed

lemmas schema_defs = ClientMessageSchema_def ClientHelloSchema_def RequestEnvelopeSchema_def CancelEnvelopeSchema_def
  RpcTargetSchema_def ServerTargetSchema_def SessionTargetSchema_def ServerMessageSchema_def ServerHelloSchema_def
  ServerHelloErrorSchema_def ResponseEnvelopeSchema_def ServiceEventEnvelopeSchema_def AttachmentEnvelopeSchema_def
  IdSchema_def ProtocolErrorSchema_def OpaqueJsonValueSchema_def required_def optional_def

text \<open>
  With a checker that decides the schemas, a hello that a client accepts from a server carries a supported version and
  an identifier of a server in the form of a UUID of version 4.
\<close>

theorem server_hello_supported:
  assumes "checker check" "parseServerMessage check v = Inr w" "v = VObj symbols ps" "map_of ps (js ''type'') = Some (VStr (js ''hello''))"
  shows "\<exists>version serverId. map_of ps (js ''version'') = Some (VNum version) \<and> isSupportedProtocolVersion version \<and>
    map_of ps (js ''serverId'') = Some (VStr serverId) \<and> length serverId = 36 \<and> serverId ! 14 = 0x34"
proof -
  have "conforms ServerMessageSchema v"
    using assms(1,2) by (auto simp: parseServerMessage_def checker_def split: if_splits)
  then have hello: "conforms ServerHelloSchema v"
    using assms(3,4) by (auto simp: ServerMessageSchema_def ServerHelloErrorSchema_def ResponseEnvelopeSchema_def
        ServiceEventEnvelopeSchema_def AttachmentEnvelopeSchema_def required_def)
  then obtain version serverId where v: "map_of ps (js ''version'') = Some (VNum version)" "num_eq version (NInt PROTOCOL_VERSION)"
    "map_of ps (js ''serverId'') = Some (VStr serverId)" "conforms ServerIdSchema (VStr serverId)"
    using assms(3) by (auto simp: ServerHelloSchema_def ServerIdSchema_def required_def split: option.splits jsval.splits)
  have "isSupportedProtocolVersion version" using v(2) by (cases version) (auto simp: isSupportedProtocolVersion_def isInteger_def)
  moreover have "length serverId = 36" using list_all2_lengthD v(4) by (fastforce simp: ServerIdSchema_def)
  moreover have "serverId ! 14 = 0x34"
    using v(4) \<open>length serverId = 36\<close> list_all2_nthD [of _ serverId _ 14]
    by (fastforce simp: ServerIdSchema_def nth_append js_def)
  ultimately show ?thesis using v by blast
qed

text \<open>
  With a checker that decides the schemas, a request or a cancellation that a server accepts has a request id and
  names the server it is meant for; nothing but a hello is accepted without a target.
\<close>

theorem client_message_target:
  assumes "checker check" "parseClientMessage check v = Inr w"
  shows "\<exists>ps kind. v = VObj False ps \<and> map_of ps (js ''type'') = Some (VStr kind) \<and>
    (kind = js ''hello'' \<or> (kind = js ''request'' \<or> kind = js ''cancel'') \<and>
      (\<exists>i target. map_of ps (js ''id'') = Some (VStr i) \<and> i \<noteq> [] \<and> map_of ps (js ''target'') = Some (VObj False target) \<and>
        (\<exists>server. map_of target (js ''serverId'') = Some (VStr server) \<and> conforms ServerIdSchema (VStr server))))"
proof -
  have json: "isJsonValue v" and c: "conforms ClientMessageSchema v"
    using assms by (auto simp: parseClientMessage_def checker_def split: if_splits)
  then obtain ps where v: "v = VObj False ps" "list_all (\<lambda>p. json_check 1 (snd p)) ps"
    by (cases v) (auto simp: ClientMessageSchema_def ClientHelloSchema_def RequestEnvelopeSchema_def CancelEnvelopeSchema_def isJsonValue_def json_check.simps)
  have sub: "\<exists>qs. t = VObj False qs \<and> (\<exists>server. map_of qs (js ''serverId'') = Some (VStr server) \<and> conforms ServerIdSchema (VStr server))"
    if t: "map_of ps k = Some t" "conforms RpcTargetSchema t" for k t
  proof -
    have "json_check 1 t" using v(2) map_of_SomeD [OF t(1)] by (auto simp: list_all_iff)
    then obtain qs where qs: "t = VObj False qs"
      using t(2) by (cases t) (auto simp: RpcTargetSchema_def ServerTargetSchema_def SessionTargetSchema_def json_check.simps split: if_splits)
    then obtain x where x: "map_of qs (js ''serverId'') = Some x" "conforms ServerIdSchema x"
      using t(2) by (auto simp: RpcTargetSchema_def ServerTargetSchema_def SessionTargetSchema_def required_def split: option.splits)
    then have "\<exists>server. x = VStr server" by (auto simp: ServerIdSchema_def split: jsval.splits)
    then show ?thesis using qs x by blast
  qed
  have nonempty: "conforms IdSchema x \<longleftrightarrow> (\<exists>i. x = VStr i \<and> i \<noteq> [])" for x
    by (cases x) (auto simp: IdSchema_def Suc_le_eq)
  from c consider "conforms ClientHelloSchema v" | "conforms RequestEnvelopeSchema v" | "conforms CancelEnvelopeSchema v"
    by (auto simp: ClientMessageSchema_def)
  then show ?thesis
  proof cases
    case 1
    then show ?thesis using v(1) by (auto simp: ClientHelloSchema_def required_def split: option.splits)
  next
    case 2
    then show ?thesis using v(1) sub by (fastforce simp: RequestEnvelopeSchema_def required_def nonempty split: option.splits)
  next
    case 3
    then show ?thesis using v(1) sub by (fastforce simp: CancelEnvelopeSchema_def required_def nonempty split: option.splits)
  qed
qed

section \<open>Witnesses\<close>

definition sample_hello :: jsval where
  "sample_hello = VObj False [(js ''type'', VStr (js ''hello'')), (js ''version'', VNum (NInt 8))]"

definition sample_messages :: message_decoder where
  "sample_messages = \<lparr>md_failed = False, md_frames = sample_decoder\<lparr>fd_maxFrameLength := 64\<rparr>, md_kind = ClientKind, md_maxFrameLength = Some 64,
     md_parse = parse_kind conforms ClientKind\<rparr>"

lemma new_sample_messages: "new_message_decoder ClientKind (parse_kind conforms ClientKind) (Some 64) = Inr sample_messages"
proof -
  have "replicate FRAME_HEADER_LENGTH (0 :: byte) = [0, 0, 0, 0]"
    by (simp add: FRAME_HEADER_LENGTH_def eval_nat_numeral)
  then show ?thesis
    by (simp add: new_message_decoder_def new_frame_decoder_def resolveMaxFrameLength_def sample_messages_def sample_decoder_def MAX_UINT32_def)
qed

lemma encode_sample_hello: "encodeProtocolMessage sample_hello (parse_kind conforms ClientKind) ClientKind (Some 64) =
    Inr [0, 0, 0, 21, 162, 100, 116, 121, 112, 101, 101, 104, 101, 108, 108, 111, 103, 118, 101, 114, 115, 105, 111, 110, 8]"
  by code_simp

theorem message_stream_roundtrip_witness:
  "\<exists>m'. feed md_push sample_messages [[0], [0, 0, 21, 162, 100, 116, 121, 112, 101, 101, 104, 101, 108, 108, 111, 103], [],
      [118, 101, 114, 115, 105, 111, 110, 8]] = Some (m', Inr [sample_hello]) \<and> snd (md_end m') = Inr ()"
proof (rule message_stream_roundtrip [OF _ _ new_sample_messages])
  show "rmap (\<lambda>v. encodeProtocolMessage v (parse_kind conforms ClientKind) ClientKind (Some 64)) [sample_hello] =
      Inr [[0, 0, 0, 21, 162, 100, 116, 121, 112, 101, 101, 104, 101, 108, 108, 111, 103, 118, 101, 114, 115, 105, 111, 110, 8]]"
    by (simp add: encode_sample_hello)
  show "list_all wf_jsval [sample_hello]" by code_simp
qed simp

theorem message_decoder_total_witness:
  "\<exists>m' r. feed md_push sample_messages [[0, 0, 0, 1], [255]] = Some (m', r) \<and>
    (case r of
       Inr messages \<Rightarrow> \<not> md_failed m' \<and> (\<forall>v \<in> set messages. conforms (schema_kind ClientKind) v \<and> isJsonValue v \<and> decoded v)
     | Inl _ \<Rightarrow> (\<forall>chunk. md_push m' chunk = Some (m', Inl (DecoderHasFailed ClientKind))) \<and> md_end m' = (m', Inl (DecoderHasFailed ClientKind)))"
  by (rule message_decoder_total [OF new_sample_messages])

end
