(* ===== verification/DeltaOps.thy ===== *)
theory DeltaOps
  imports JsValues
begin

text \<open>
  Operations on Json values: \<^verbatim>\<open>packages/chord/src/delta/index.ts\<close>, the vocabulary \<^verbatim>\<open>Op\<close>, path safety
  and validation, and the two appliers \<^verbatim>\<open>apply\<close> (in place) and \<^verbatim>\<open>applyImmutable\<close>.
\<close>

section \<open>Operations\<close>

text \<open>A path segment: a string, or a natural number (validation refuses every other number).\<close>

datatype seg = SStr jsstring | SNum nat

type_synonym path = "seg list"

datatype delta_op =
    OpR json
  | OpS path json
  | OpD path
  | OpA path jsstring
  | OpT path nat
  | OpP path nat nat "json list"
  | OpM path "nat list"

datatype delta_error = TypeError string | UnsafePath seg | UnsafeSegment json | PathError path | PathIdError nat

definition isReplace :: "delta_op \<Rightarrow> bool" where
  "isReplace op = (case op of OpR _ \<Rightarrow> True | _ \<Rightarrow> False)"

definition isBase :: "delta_op list \<Rightarrow> bool" where
  "isBase ops = (case ops of [] \<Rightarrow> False | op # _ \<Rightarrow> isReplace op)"

section \<open>Path safety and validation\<close>

definition RESERVED_SEGMENTS :: "jsstring list" where
  "RESERVED_SEGMENTS = [js ''__proto__'', js ''constructor'', js ''prototype'']"

definition reserved :: "jsstring \<Rightarrow> bool" where
  "reserved k = List.member RESERVED_SEGMENTS k"

fun assertSafePath :: "path \<Rightarrow> (delta_error, unit) result" where
  "assertSafePath [] = Inr ()"
| "assertSafePath (SStr k # p) = (if reserved k then Inl (UnsafePath (SStr k)) else assertSafePath p)"
| "assertSafePath (SNum _ # p) = assertSafePath p"

definition safe_path :: "path \<Rightarrow> bool" where
  "safe_path p = list_all (\<lambda>s. case s of SStr k \<Rightarrow> \<not> reserved k | SNum _ \<Rightarrow> True) p"

lemma assertSafePath_iff [simp]: "assertSafePath p = Inr u \<longleftrightarrow> safe_path p"
  by (induction p rule: assertSafePath.induct) (auto simp: safe_path_def)

definition assertPathArg :: "path \<Rightarrow> bool \<Rightarrow> (delta_error, unit) result" where
  "assertPathArg p nonEmpty =
     (if nonEmpty \<and> p = [] then Inl (TypeError ''path is empty'') else assertSafePath p)"

text \<open>\<^verbatim>\<open>seen\<close> is an array of flags, one per index of the permutation.\<close>

fun permutation_loop :: "nat \<Rightarrow> bool list \<Rightarrow> nat list \<Rightarrow> (delta_error, unit) result" where
  "permutation_loop n seen [] = Inr ()"
| "permutation_loop n seen (i # is) =
     (if i \<ge> n \<or> seen ! i then Inl (TypeError ''m permutation is not a bijection'')
      else permutation_loop n (seen[i := True]) is)"

definition assertPermutation :: "nat list \<Rightarrow> (delta_error, unit) result" where
  "assertPermutation is = permutation_loop (length is) (replicate (length is) False) is"

definition assertValidOp :: "delta_op \<Rightarrow> (delta_error, unit) result" where
  "assertValidOp op = (case op of
      OpR _ \<Rightarrow> Inr ()
    | OpS p _ \<Rightarrow> assertPathArg p True
    | OpD p \<Rightarrow> assertPathArg p True
    | OpA p _ \<Rightarrow> assertPathArg p True
    | OpT p _ \<Rightarrow> assertPathArg p True
    | OpP p _ _ _ \<Rightarrow> assertPathArg p False
    | OpM p is \<Rightarrow> rbind (assertPathArg p False) (\<lambda>_. assertPermutation is))"

section \<open>Walking a value\<close>

text \<open>The property a segment names; a number names the property of its decimal text.\<close>

definition seg_key :: "seg \<Rightarrow> jsstring" where
  "seg_key s = (case s of SStr k \<Rightarrow> k | SNum n \<Rightarrow> decimal n)"

definition isObj :: "json \<Rightarrow> bool" where
  "isObj v = (case v of JArr _ \<Rightarrow> True | JObj _ \<Rightarrow> True | _ \<Rightarrow> False)"

definition isArray :: "json \<Rightarrow> bool" where
  "isArray v = (case v of JArr _ \<Rightarrow> True | _ \<Rightarrow> False)"

definition isNum :: "seg \<Rightarrow> bool" where
  "isNum s = (case s of SNum _ \<Rightarrow> True | SStr _ \<Rightarrow> False)"

text \<open>Reading and writing an own property: array elements by index, object properties by name.\<close>

fun get_own :: "json \<Rightarrow> seg \<Rightarrow> json option" where
  "get_own (JArr xs) (SNum n) = (if n < length xs then Some (xs ! n) else None)"
| "get_own (JObj ps) s = map_of ps (seg_key s)"
| "get_own _ _ = None"

fun put_own :: "json \<Rightarrow> seg \<Rightarrow> json \<Rightarrow> json" where
  "put_own (JArr xs) (SNum n) v = JArr (if n < length xs then xs[n := v] else xs @ [v])"
| "put_own (JObj ps) s v = JObj (obj_set (seg_key s) v ps)"
| "put_own w _ _ = w"

text \<open>
  The walk of \<^verbatim>\<open>resolveValue\<close>; errors carry the whole path.
\<close>

fun resolve_from :: "path \<Rightarrow> json \<Rightarrow> path \<Rightarrow> (delta_error, json) result" where
  "resolve_from full node [] = Inr node"
| "resolve_from full node (s # p) =
     (if \<not> isObj node then Inl (PathError full)
      else if isArray node \<and> \<not> isNum s then Inl (UnsafePath s)
      else case get_own node s of
        None \<Rightarrow> Inl (PathError full)
      | Some child \<Rightarrow> resolve_from full child p)"

definition resolveValue :: "json \<Rightarrow> path \<Rightarrow> (delta_error, json) result" where
  "resolveValue root p = resolve_from p root p"

definition resolve :: "json \<Rightarrow> path \<Rightarrow> (delta_error, json) result" where
  "resolve root p = rbind (resolveValue root p) (\<lambda>node. if isObj node then Inr node else Inl (PathError p))"

text \<open>
  The applier mutates the container that \<^verbatim>\<open>resolve\<close> returns, in place: in the value of the root, the
  node at the path is replaced by what the mutation made of it.
\<close>

fun modify :: "path \<Rightarrow> json \<Rightarrow> path \<Rightarrow> (json \<Rightarrow> (delta_error, json) result) \<Rightarrow> (delta_error, json) result" where
  "modify full node [] f = (if isObj node then f node else Inl (PathError full))"
| "modify full node (s # p) f =
     (if \<not> isObj node then Inl (PathError full)
      else if isArray node \<and> \<not> isNum s then Inl (UnsafePath s)
      else case get_own node s of
        None \<Rightarrow> Inl (PathError full)
      | Some child \<Rightarrow> rbind (modify full child p f) (\<lambda>child'. Inr (put_own node s child')))"

lemma modify_resolve:
  "modify full node p f = rbind (resolve_from full node p) (\<lambda>v. if isObj v then
     rbind (f v) (\<lambda>v'. modify full node p (\<lambda>_. Inr v')) else Inl (PathError full))"
proof (induction full node p f rule: modify.induct)
  case (1 full node f)
  then show ?case by simp
next
  case (2 full node s p f)
  show ?case
  proof (cases "isObj node \<and> (isArray node \<longrightarrow> isNum s)")
    case True
    show ?thesis
    proof (cases "get_own node s")
      case None
      then show ?thesis using True by simp
    next
      case (Some child)
      have IH: "modify full child p f = rbind (resolve_from full child p) (\<lambda>v. if isObj v then
        rbind (f v) (\<lambda>v'. modify full child p (\<lambda>_. Inr v')) else Inl (PathError full))"
        using 2 Some True by blast
      show ?thesis using True Some
        by (simp add: IH rbind_assoc if_distrib [of "\<lambda>x. rbind x _"] cong: if_cong)
    qed
  qed auto
qed

section \<open>The applier\<close>

text \<open>\<^verbatim>\<open>Array.prototype.splice\<close>: the start and the count are cut to the array.\<close>

definition js_splice :: "nat \<Rightarrow> nat \<Rightarrow> 'a list \<Rightarrow> 'a list \<Rightarrow> 'a list" where
  "js_splice start del items xs =
     (let s = min start (length xs) in take s xs @ items @ drop (s + min del (length xs - s)) xs)"

text \<open>The items are inserted in chunks of 10000, since every item is an argument of the call.\<close>

function insert_chunks :: "nat \<Rightarrow> nat \<Rightarrow> 'a list \<Rightarrow> 'a list \<Rightarrow> 'a list" where
  "insert_chunks start off items xs =
     (if off < length items
      then insert_chunks start (off + 10000) items (js_splice (start + off) 0 (take 10000 (drop off items)) xs)
      else xs)"
  by pat_completeness auto
termination
  by (relation "measure (\<lambda>(start, off, items, xs). length items - off)") auto

declare insert_chunks.simps [simp del]

definition splice_op :: "nat \<Rightarrow> nat \<Rightarrow> 'a list \<Rightarrow> 'a list \<Rightarrow> 'a list" where
  "splice_op index remove items xs = insert_chunks index 0 items (js_splice index remove [] xs)"

definition permute :: "nat list \<Rightarrow> 'a list \<Rightarrow> 'a list" where
  "permute is xs = map (\<lambda>i. xs ! i) is"

definition remove_at :: "nat \<Rightarrow> 'a list \<Rightarrow> 'a list" where
  "remove_at n xs = take n xs @ drop (Suc n) xs"

text \<open>What an operation does to the container it targets.\<close>

definition check_key :: "json \<Rightarrow> seg \<Rightarrow> (delta_error, unit) result" where
  "check_key parent key = (case parent of
      JArr xs \<Rightarrow> (case key of SStr _ \<Rightarrow> Inl (UnsafePath key)
        | SNum n \<Rightarrow> if n > length xs then Inl (UnsafePath key) else Inr ())
    | _ \<Rightarrow> Inr ())"

definition read_string :: "path \<Rightarrow> json \<Rightarrow> seg \<Rightarrow> (delta_error, jsstring) result" where
  "read_string p parent key = (case get_own parent key of Some (JStr s) \<Rightarrow> Inr s | _ \<Rightarrow> Inl (PathError p))"

definition delete_key :: "path \<Rightarrow> json \<Rightarrow> seg \<Rightarrow> (delta_error, json) result" where
  "delete_key p parent key = (case parent of
      JArr xs \<Rightarrow> (case key of SNum n \<Rightarrow> if n \<ge> length xs then Inl (PathError p) else Inr (JArr (remove_at n xs))
        | SStr _ \<Rightarrow> Inl (PathError p))
    | JObj ps \<Rightarrow> Inr (JObj (obj_delete (seg_key key) ps))
    | _ \<Rightarrow> Inr parent)"

definition at_parent :: "path \<Rightarrow> json \<Rightarrow> (json \<Rightarrow> seg \<Rightarrow> (delta_error, json) result) \<Rightarrow> (delta_error, json) result" where
  "at_parent p root f = modify (butlast p) root (butlast p) (\<lambda>parent.
     rbind (check_key parent (last p)) (\<lambda>_. f parent (last p)))"

fun apply_valid :: "json \<Rightarrow> delta_op \<Rightarrow> (delta_error, json) result" where
  "apply_valid root (OpR v) = Inr v"
| "apply_valid root (OpP p index remove items) =
     (if p = [] then (case root of JArr xs \<Rightarrow> Inr (JArr (splice_op index remove items xs)) | _ \<Rightarrow> Inl (PathError p))
      else modify p root p (\<lambda>target. case target of
          JArr xs \<Rightarrow> Inr (JArr (splice_op index remove items xs)) | _ \<Rightarrow> Inl (PathError p)))"
| "apply_valid root (OpM p is) =
     (if p = [] then (case root of JArr xs \<Rightarrow> if length xs \<noteq> length is then Inl (PathError p) else Inr (JArr (permute is xs))
        | _ \<Rightarrow> Inl (PathError p))
      else modify p root p (\<lambda>target. case target of
          JArr xs \<Rightarrow> if length xs \<noteq> length is then Inl (PathError p) else Inr (JArr (permute is xs))
        | _ \<Rightarrow> Inl (PathError p)))"
| "apply_valid root (OpS p v) = at_parent p root (\<lambda>parent key. Inr (put_own parent key v))"
| "apply_valid root (OpD p) = at_parent p root (delete_key p)"
| "apply_valid root (OpA p t) = at_parent p root (\<lambda>parent key.
     rbind (read_string p parent key) (\<lambda>s. Inr (put_own parent key (JStr (s @ t)))))"
| "apply_valid root (OpT p n) = at_parent p root (\<lambda>parent key.
     rbind (read_string p parent key) (\<lambda>s. Inr (put_own parent key (JStr (drop n s)))))"

text \<open>The value of a replica may be undefined before its first replacement.\<close>

fun op_path :: "delta_op \<Rightarrow> path" where
  "op_path (OpR _) = []"
| "op_path (OpS p _) = p"
| "op_path (OpD p) = p"
| "op_path (OpA p _) = p"
| "op_path (OpT p _) = p"
| "op_path (OpP p _ _ _) = p"
| "op_path (OpM p _) = p"

text \<open>The path of the container an operation mutates.\<close>

definition container_path :: "delta_op \<Rightarrow> path" where
  "container_path op = (case op of OpP p _ _ _ \<Rightarrow> p | OpM p _ \<Rightarrow> p | _ \<Rightarrow> butlast (op_path op))"

definition apply_op :: "json option \<Rightarrow> delta_op \<Rightarrow> (delta_error, json option) result" where
  "apply_op root op =
     rbind (assertValidOp op) (\<lambda>_.
       case root of
         Some v \<Rightarrow> rbind (apply_valid v op) (\<lambda>v'. Inr (Some v'))
       | None \<Rightarrow> (case op of OpR v \<Rightarrow> Inr (Some v) | _ \<Rightarrow> Inl (PathError (container_path op))))"

definition applyOps :: "json option \<Rightarrow> delta_op list \<Rightarrow> (delta_error, json option) result" where
  "applyOps root ops = rfold apply_op root ops"

section \<open>The immutable applier\<close>

text \<open>
  \<^verbatim>\<open>copyContainers\<close> copies the containers on the way to the one that is mutated. Values carry no
  identity here, so its result is the rebuilt value; what remains observable is when it throws.
\<close>

definition copy_container :: "path \<Rightarrow> json \<Rightarrow> (delta_error, json) result" where
  "copy_container full v = (case v of
      JArr xs \<Rightarrow> Inr (JArr xs)
    | JObj ps \<Rightarrow> Inr (JObj (foldl (\<lambda>acc kv. obj_set (fst kv) (snd kv) acc) [] ps))
    | _ \<Rightarrow> Inl (PathError full))"

text \<open>\<^verbatim>\<open>Object.hasOwn\<close>: on an array also \<^verbatim>\<open>length\<close> and the decimal text of an index.\<close>

definition has_own :: "json \<Rightarrow> seg \<Rightarrow> bool" where
  "has_own v s = (case v of
      JArr xs \<Rightarrow> (case s of SNum n \<Rightarrow> n < length xs
        | SStr k \<Rightarrow> k = js ''length'' \<or> (case array_index k of Some n \<Rightarrow> n < length xs | None \<Rightarrow> False))
    | JObj ps \<Rightarrow> map_of ps (seg_key s) \<noteq> None
    | _ \<Rightarrow> False)"

fun copy_along :: "path \<Rightarrow> json \<Rightarrow> json \<Rightarrow> path \<Rightarrow> (delta_error, json) result" where
  "copy_along full source dest [] = Inr dest"
| "copy_along full source dest (s # p) =
     (if \<not> isObj source \<or> \<not> has_own source s then Inl (PathError full)
      else if isArray source \<and> \<not> isNum s then Inl (UnsafePath s)
      else case get_own source s of
        None \<Rightarrow> Inl (PathError full)
      | Some child \<Rightarrow>
          rbind (copy_container full child) (\<lambda>copied.
            rbind (copy_along full child copied p) (\<lambda>copied'. Inr (put_own dest s copied'))))"

definition copyContainers :: "json option \<Rightarrow> path \<Rightarrow> (delta_error, json) result" where
  "copyContainers root p = (case root of
      None \<Rightarrow> Inl (PathError p)
    | Some v \<Rightarrow> rbind (copy_container p v) (\<lambda>copied. copy_along p v copied p))"

definition apply_op_immutable :: "json option \<Rightarrow> delta_op \<Rightarrow> (delta_error, json option) result" where
  "apply_op_immutable root op =
     (if isReplace op then apply_op root op
      else rbind (copyContainers root (container_path op)) (\<lambda>copied. apply_op (Some copied) op))"

definition applyImmutable :: "json option \<Rightarrow> delta_op list \<Rightarrow> (delta_error, json option) result" where
  "applyImmutable root ops = rfold apply_op_immutable root ops"

section \<open>Splices\<close>

lemma js_splice_insert: "min n (length (l @ r)) = length l \<Longrightarrow> js_splice n 0 c (l @ r) = l @ c @ r"
  by (simp add: js_splice_def Let_def)

lemma insert_chunks_eq:
  assumes "s = min start (length b)"
  shows "insert_chunks start off items (take s b @ take off items @ drop s b) = take s b @ items @ drop s b"
  using assms
proof (induction "length items - off" arbitrary: off rule: less_induct)
  case less
  show ?case
  proof (cases "off < length items")
    case False
    then show ?thesis by (subst insert_chunks.simps) simp
  next
    case True
    let ?cur = "take s b @ take off items @ drop s b"
    have "min (start + off) (length ((take s b @ take off items) @ drop s b)) = length (take s b @ take off items)"
      using True less.prems by (auto simp: min_def)
    from js_splice_insert [OF this, of "take 10000 (drop off items)"]
    have "js_splice (start + off) 0 (take 10000 (drop off items)) ?cur = take s b @ take (off + 10000) items @ drop s b"
      by (simp add: take_add)
    moreover have "length items - (off + 10000) < length items - off" using True by simp
    ultimately show ?thesis using less.hyps [of "off + 10000"] less.prems True by (subst insert_chunks.simps) simp
  qed
qed

lemma splice_op_eq: "splice_op index remove items xs = js_splice index remove items xs"
proof -
  define s where "s = min index (length xs)"
  define b where "b = js_splice index remove [] xs"
  have b: "take s b = take s xs" "drop s b = drop (s + min remove (length xs - s)) xs"
    by (simp_all add: b_def js_splice_def Let_def s_def)
  have "s = min index (length b)"
    by (auto simp: b_def js_splice_def Let_def s_def min_def)
  from insert_chunks_eq [OF this, of 0 items] have "insert_chunks index 0 items b = take s b @ items @ drop s b"
    by simp
  then show ?thesis unfolding splice_op_def b_def [symmetric] by (simp add: b) (simp add: js_splice_def Let_def s_def)
qed

section \<open>Walking, reading back and well-formedness\<close>

lemma modify_append: "modify full node (p @ q) f = modify full node p (\<lambda>v. modify full v q f)"
proof (induction p arbitrary: node)
  case Nil
  then show ?case by (cases q) auto
next
  case (Cons s p)
  then show ?case by (auto split: option.splits)
qed

lemma get_own_isObj: "get_own v s = Some w \<Longrightarrow> isObj v"
  by (cases v) (auto simp: isObj_def)

lemma get_put_own: "get_own v s = Some w \<Longrightarrow> get_own (put_own v s x) s = Some x"
  by (cases v; cases s) (auto split: if_splits)

lemma put_own_same: "get_own v s = Some w \<Longrightarrow> put_own v s w = v"
proof -
  have "map_of ps k = Some w \<Longrightarrow> map_set k w ps = ps" for k and ps :: "json obj"
    by (induction k w ps rule: map_set.induct) (auto split: if_splits)
  moreover have "map_of ps k = Some w \<Longrightarrow> k \<in> fst ` set ps" for k and ps :: "json obj"
    by (force dest: map_of_SomeD)
  ultimately show "get_own v s = Some w \<Longrightarrow> ?thesis"
    by (cases v; cases s) (auto simp: obj_set_def split: if_splits)
qed

lemma wf_get_own: "get_own v s = Some w \<Longrightarrow> wf_json v \<Longrightarrow> wf_json w"
proof (cases v)
  case (JObj ps)
  then show "get_own v s = Some w \<Longrightarrow> wf_json v \<Longrightarrow> wf_json w" using wf_json_objD [of ps "seg_key s" w] by simp
qed (cases s; auto simp: list_all_length split: if_splits)+

lemma modify_Inr_resolve: "modify full v p f = Inr w \<Longrightarrow> \<exists>x y. resolve_from full v p = Inr x \<and> isObj x \<and> f x = Inr y"
  by (subst (asm) modify_resolve) (auto simp: rbind_Inr_iff split: if_splits)

section \<open>The two appliers agree\<close>

lemma copy_container_wf: "wf_json v \<Longrightarrow> copy_container full v = (if isObj v then Inr v else Inl (PathError full))"
  by (cases v) (auto simp: copy_container_def isObj_def obj_rebuild)

lemma has_own_get_own: "(isArray v \<longrightarrow> isNum s) \<Longrightarrow> has_own v s \<longleftrightarrow> get_own v s \<noteq> None"
  by (cases v; cases s) (auto simp: has_own_def isArray_def isNum_def)

lemma copy_along_iff:
  assumes "wf_json v" "isObj v"
  shows "copy_along full v v p = Inr w \<longleftrightarrow> w = v \<and> (\<exists>x. resolve_from full v p = Inr x \<and> isObj x)"
  using assms
proof (induction p arbitrary: v w)
  case Nil
  then show ?case by auto
next
  case (Cons s p)
  show ?case
  proof (cases "isArray v \<longrightarrow> isNum s")
    case False
    then show ?thesis by simp
  next
    case True
    show ?thesis
    proof (cases "get_own v s")
      case None
      then show ?thesis using has_own_get_own [OF True] by simp
    next
      case (Some child)
      have wf: "wf_json child" using wf_get_own [OF Some Cons.prems(1)] .
      have has: "has_own v s" using has_own_get_own [OF True] Some by simp
      show ?thesis
      proof (cases "isObj child")
        case False
        then have "\<not> (\<exists>x. resolve_from full child p = Inr x \<and> isObj x)" by (cases p) auto
        then show ?thesis using True Some has wf False by (simp add: copy_container_wf Cons.prems(2))
      next
        case obj: True
        have "copy_along full v v (s # p) = Inr w \<longleftrightarrow>
            (\<exists>c. copy_along full child child p = Inr c \<and> w = put_own v s c)"
          using True Some has wf obj Cons.prems(2) by (auto simp: copy_container_wf rbind_Inr_iff)
        also have "\<dots> \<longleftrightarrow> w = v \<and> (\<exists>x. resolve_from full child p = Inr x \<and> isObj x)"
          using Cons.IH [OF wf obj] put_own_same [OF Some] by auto
        also have "resolve_from full child p = resolve_from full v (s # p)" using True Some Cons.prems(2) by auto
        finally show ?thesis .
      qed
    qed
  qed
qed

lemma copyContainers_iff:
  assumes "wf_json v"
  shows "copyContainers (Some v) p = Inr w \<longleftrightarrow> w = v \<and> (\<exists>x. resolve_from p v p = Inr x \<and> isObj x)"
proof (cases "isObj v")
  case True
  then show ?thesis using assms copy_along_iff [OF assms True] by (simp add: copyContainers_def copy_container_wf)
next
  case False
  then have "\<not> (\<exists>x. resolve_from p v p = Inr x \<and> isObj x)" by (cases p) auto
  then show ?thesis using False assms by (simp add: copyContainers_def copy_container_wf)
qed

lemma apply_valid_resolves:
  "apply_valid v op = Inr w \<Longrightarrow> \<not> isReplace op \<Longrightarrow>
    \<exists>x. resolve_from (container_path op) v (container_path op) = Inr x \<and> isObj x"
  by (cases op) (auto simp: isReplace_def container_path_def at_parent_def isObj_def
      split: if_splits json.splits dest!: modify_Inr_resolve)

lemma apply_op_immutable_iff:
  assumes "case root of None \<Rightarrow> True | Some v \<Rightarrow> wf_json v"
  shows "apply_op_immutable root op = Inr w \<longleftrightarrow> apply_op root op = Inr w"
proof (cases "isReplace op")
  case True
  then show ?thesis by (simp add: apply_op_immutable_def)
next
  case False
  show ?thesis
  proof (cases root)
    case None
    then show ?thesis using False
      by (cases op) (auto simp: apply_op_immutable_def copyContainers_def apply_op_def isReplace_def rbind_Inr_iff)
  next
    case (Some v)
    have wf: "wf_json v" using assms Some by simp
    have "apply_op (Some v) op = Inr w \<Longrightarrow> copyContainers (Some v) (container_path op) = Inr v"
      using apply_valid_resolves [of v op] False copyContainers_iff [OF wf, of "container_path op" v]
      by (auto simp: apply_op_def rbind_Inr_iff)
    then show ?thesis using False Some copyContainers_iff [OF wf, of "container_path op"]
      by (auto simp: apply_op_immutable_def rbind_Inr_iff)
  qed
qed

section \<open>Hereditary predicates\<close>

lemma permutation_loop_ok:
  "permutation_loop n seen is = Inr u \<Longrightarrow> length seen = n \<Longrightarrow>
     set is \<subseteq> {..<n} \<and> distinct is \<and> (\<forall>i \<in> set is. \<not> seen ! i)"
proof (induction n seen "is" rule: permutation_loop.induct)
  case (2 n seen i "is")
  then have i: "i < n" "\<not> seen ! i" and IH: "set is \<subseteq> {..<n}" "distinct is" "\<forall>j \<in> set is. \<not> seen[i := True] ! j"
    by (auto split: if_splits)
  then show ?case using 2(3) by (auto simp: nth_list_update split: if_splits)
qed simp

lemma assertPermutation_ok: "assertPermutation is = Inr u \<Longrightarrow> set is \<subseteq> {..<length is} \<and> distinct is"
  using permutation_loop_ok [of "length is" "replicate (length is) False" "is" u] by (auto simp: assertPermutation_def)

fun op_payload :: "(json \<Rightarrow> bool) \<Rightarrow> delta_op \<Rightarrow> bool" where
  "op_payload P (OpR v) = P v"
| "op_payload P (OpS _ v) = P v"
| "op_payload P (OpP _ _ _ vs) = list_all P vs"
| "op_payload P _ = True"

definition holds_if_defined :: "('a \<Rightarrow> bool) \<Rightarrow> 'a option \<Rightarrow> bool" where
  "holds_if_defined P r = (case r of None \<Rightarrow> True | Some v \<Rightarrow> P v)"

text \<open>
  A predicate that passes from a container to its parts and back, as long as new keys satisfy
  \<^term>\<open>K\<close>: every applied operation keeps it.
\<close>

locale hereditary =
  fixes P :: "json \<Rightarrow> bool" and K :: "jsstring \<Rightarrow> bool"
  assumes arr: "P (JArr xs) \<longleftrightarrow> list_all P xs"
    and get: "P (JObj ps) \<Longrightarrow> map_of ps k = Some v \<Longrightarrow> P v"
    and set: "P (JObj ps) \<Longrightarrow> P v \<Longrightarrow> K k \<Longrightarrow> P (JObj (obj_set k v ps))"
    and del: "P (JObj ps) \<Longrightarrow> P (JObj (obj_delete k ps))"
    and str: "P (JStr s)"
    and index_key: "K (decimal n)"
    and safe_key: "\<not> reserved k \<Longrightarrow> K k"
begin

lemma seg_ok: "safe_path [s] \<Longrightarrow> K (seg_key s)"
  by (cases s) (auto simp: safe_path_def seg_key_def index_key safe_key)

lemma get_own_ok: "get_own v s = Some w \<Longrightarrow> P v \<Longrightarrow> P w"
  by (cases v; cases s) (auto simp: arr list_all_length split: if_splits intro: get)

lemma put_own_ok: "P v \<Longrightarrow> P w \<Longrightarrow> safe_path [s] \<Longrightarrow> P (put_own v s w)"
  using seg_ok [of s] by (cases v; cases s) (auto simp: arr list_all_length nth_list_update nth_append intro: set)

lemma modify_ok:
  assumes "modify full v p f = Inr w" "P v" "safe_path p"
    and "\<And>x y. P x \<Longrightarrow> f x = Inr y \<Longrightarrow> P y"
  shows "P w"
  using assms(1,2,3)
proof (induction p arbitrary: v w)
  case Nil
  then show ?case using assms(4) by (auto split: if_splits)
next
  case (Cons s p)
  then obtain child child' where "get_own v s = Some child" "modify full child p f = Inr child'" "w = put_own v s child'"
    by (auto split: if_splits option.splits elim!: rbindE)
  moreover have "safe_path [s]" "safe_path p" using Cons.prems(3) by (simp_all add: safe_path_def)
  ultimately show ?case using Cons.IH Cons.prems(2) get_own_ok put_own_ok by blast
qed

lemma splice_ok: "list_all P xs \<Longrightarrow> list_all P items \<Longrightarrow> list_all P (splice_op index remove items xs)"
  by (auto simp: splice_op_eq js_splice_def Let_def list_all_iff dest: in_set_takeD in_set_dropD)

lemma at_parent_ok:
  assumes "at_parent p v f = Inr w" "P v" "safe_path p" "p \<noteq> []"
    and "\<And>x y. P x \<Longrightarrow> f x (last p) = Inr y \<Longrightarrow> P y"
  shows "P w"
proof -
  have "safe_path (butlast p)" using assms(3) by (auto simp: safe_path_def list_all_iff dest: in_set_butlastD)
  then show ?thesis using assms(1,2,5) unfolding at_parent_def
    by (rule_tac modify_ok [where f = "\<lambda>parent. rbind (check_key parent (last p)) (\<lambda>_. f parent (last p))"])
      (auto elim!: rbindE)
qed

lemma remove_at_ok: "list_all P xs \<Longrightarrow> list_all P (remove_at n xs)"
  by (auto simp: list_all_iff remove_at_def dest: in_set_takeD in_set_dropD)

lemma delete_ok: "P v \<Longrightarrow> delete_key p v s = Inr w \<Longrightarrow> P w"
  by (cases v; cases s) (auto simp: delete_key_def arr remove_at_ok del split: if_splits)

lemma permute_ok: "set is \<subseteq> {..<length is} \<Longrightarrow> length xs = length is \<Longrightarrow> list_all P xs \<Longrightarrow> list_all P (permute is xs)"
  by (auto simp: permute_def list_all_iff)

lemma apply_valid_ok:
  assumes "apply_valid v op = Inr w" "assertValidOp op = Inr u" "P v" "op_payload P op"
  shows "P w"
proof -
  have path: "safe_path (op_path op)" "(\<exists>x. op = OpR x) \<or> (\<exists>p i r l. op = OpP p i r l) \<or> (\<exists>p is. op = OpM p is) \<or> op_path op \<noteq> []"
    using assms(2) by (cases op; auto simp: assertValidOp_def assertPathArg_def safe_path_def split: if_splits elim!: rbindE)+
  have key: "op_path op \<noteq> [] \<Longrightarrow> safe_path [last (op_path op)]"
    using path(1) by (auto simp: safe_path_def list_all_iff)
  show ?thesis
  proof (cases op)
    case (OpR x)
    then show ?thesis using assms by simp
  next
    case (OpS p x)
    then have "at_parent p v (\<lambda>parent key. Inr (put_own parent key x)) = Inr w" using assms(1) by simp
    then show ?thesis using OpS assms(3,4) path key by (elim at_parent_ok) (auto intro: put_own_ok)
  next
    case (OpD p)
    then have "at_parent p v (delete_key p) = Inr w" using assms(1) by simp
    then show ?thesis using OpD assms(3) path by (elim at_parent_ok) (auto intro: delete_ok)
  next
    case (OpA p t)
    then have "at_parent p v (\<lambda>parent key. rbind (read_string p parent key) (\<lambda>s. Inr (put_own parent key (JStr (s @ t))))) = Inr w"
      using assms(1) by simp
    then show ?thesis using OpA assms(3) path key by (elim at_parent_ok) (auto intro: put_own_ok str elim!: rbindE)
  next
    case (OpT p n)
    then have "at_parent p v (\<lambda>parent key. rbind (read_string p parent key) (\<lambda>s. Inr (put_own parent key (JStr (drop n s))))) = Inr w"
      using assms(1) by simp
    then show ?thesis using OpT assms(3) path key by (elim at_parent_ok) (auto intro: put_own_ok str elim!: rbindE)
  next
    case (OpP p i r l)
    let ?f = "\<lambda>target. case target of JArr xs \<Rightarrow> Inr (JArr (splice_op i r l xs)) | _ \<Rightarrow> Inl (PathError p)"
    have f: "P y" if "P x" "?f x = Inr y" for x y
      using that OpP assms(4) by (auto simp: arr splice_ok split: json.splits)
    have "?f v = Inr w \<or> modify p v p ?f = Inr w" using OpP assms(1) by (simp split: if_splits)
    then show ?thesis using f assms(3) path(1) OpP by (auto intro: modify_ok [where f = ?f])
  next
    case (OpM p "is")
    let ?f = "\<lambda>target. case target of
        JArr xs \<Rightarrow> if length xs \<noteq> length is then Inl (PathError p) else Inr (JArr (permute is xs)) | _ \<Rightarrow> Inl (PathError p)"
    have "set is \<subseteq> {..<length is}"
      using assms(2) OpM assertPermutation_ok [of "is"] by (auto simp: assertValidOp_def elim!: rbindE)
    then have f: "P y" if "P x" "?f x = Inr y" for x y
      using that by (auto simp: arr permute_ok split: json.splits if_splits)
    have "?f v = Inr w \<or> modify p v p ?f = Inr w" using OpM assms(1) by (simp split: if_splits)
    then show ?thesis using f assms(3) path(1) OpM by (auto intro: modify_ok [where f = ?f])
  qed
qed

lemma applyOps_ok:
  assumes "applyOps root ops = Inr r" "holds_if_defined P root" "list_all (op_payload P) ops"
  shows "holds_if_defined P r"
  using assms(1) unfolding applyOps_def
proof (rule rfold_invariant)
  fix u op v
  assume "op \<in> List.set ops" "holds_if_defined P u" "apply_op u op = Inr v"
  moreover from this have "op_payload P op" using assms(3) by (simp add: list_all_iff)
  ultimately show "holds_if_defined P v"
    by (auto simp: apply_op_def holds_if_defined_def elim!: rbindE split: option.splits delta_op.splits intro: apply_valid_ok)
qed (rule assms(2))

end

interpretation wf: hereditary wf_json "\<lambda>_. True"
  by unfold_locales (auto intro: wf_json_objD wf_json_obj_set wf_json_obj_delete simp del: wf_json.simps(3))

text \<open>No object anywhere in the value has a key that reaches the prototype chain.\<close>

fun reserved_free :: "json \<Rightarrow> bool" where
  "reserved_free (JArr xs) = list_all reserved_free xs"
| "reserved_free (JObj ps) = list_all (\<lambda>p. \<not> reserved (fst p) \<and> reserved_free (snd p)) ps"
| "reserved_free _ = True"

lemma decimal_not_reserved: "\<not> reserved (decimal n)"
proof -
  have "is_digit (hd (decimal n))" using decimal_digits [of n] by (cases "decimal n") auto
  then show ?thesis by (auto simp: reserved_def RESERVED_SEGMENTS_def js_def is_digit_def)
qed

interpretation unreserved: hereditary reserved_free "\<lambda>k. \<not> reserved k"
proof
  fix ps k v
  show "reserved_free (JObj ps) \<Longrightarrow> map_of ps k = Some v \<Longrightarrow> reserved_free v"
    by (force simp: list_all_iff dest: map_of_SomeD)
  show "reserved_free (JObj ps) \<Longrightarrow> reserved_free v \<Longrightarrow> \<not> reserved k \<Longrightarrow> reserved_free (JObj (obj_set k v ps))"
    by (auto simp: list_all_iff dest!: obj_set_values)
  show "reserved_free (JObj ps) \<Longrightarrow> reserved_free (JObj (obj_delete k ps))"
    by (auto simp: list_all_iff obj_delete_def map_delete_def)
qed (auto simp: decimal_not_reserved)

section \<open>Properties\<close>

lemma holds_if_defined_simps [simp]: "holds_if_defined P None" "holds_if_defined P (Some v) = P v"
  by (simp_all add: holds_if_defined_def)

lemma applyImmutable_iff:
  assumes "holds_if_defined wf_json root" "list_all (op_payload wf_json) ops"
  shows "applyImmutable root ops = Inr r \<longleftrightarrow> applyOps root ops = Inr r"
  using assms
proof (induction ops arbitrary: root)
  case Nil
  then show ?case by (simp add: applyImmutable_def applyOps_def)
next
  case (Cons op ops)
  have step: "apply_op_immutable root op = Inr u \<longleftrightarrow> apply_op root op = Inr u" for u
    using apply_op_immutable_iff [of root op u] Cons.prems(1) by (simp add: holds_if_defined_def)
  have next_wf: "holds_if_defined wf_json u" if "apply_op root op = Inr u" for u
    using wf.applyOps_ok [of root "[op]" u] Cons.prems that by (simp add: applyOps_def)
  have tail: "applyImmutable u ops = Inr r \<longleftrightarrow> applyOps u ops = Inr r" if "apply_op root op = Inr u" for u
    using Cons.IH [OF next_wf [OF that]] Cons.prems(2) by simp
  show ?case using step tail by (auto simp: applyImmutable_def applyOps_def rbind_Inr_iff)
qed


text \<open>
  Applying operations keeps a Json value a Json value: finite numbers, no duplicate key, keys in
  property order, at every level.
\<close>

theorem apply_keeps_json:
  assumes "applyOps root ops = Inr r" "holds_if_defined wf_json root" "list_all (op_payload wf_json) ops"
  shows "holds_if_defined wf_json r"
  using assms by (rule wf.applyOps_ok)


section \<open>Witnesses\<close>

lemma sample_apply: "applyOps (Some (JObj [(js ''a'', JArr [JNull])])) [OpP [SStr (js ''a'')] 1 0 [JBool True], OpD [SStr (js ''a''), SNum 0]]
    = Inr (Some (JObj [(js ''a'', JArr [JBool True])]))"
  by code_simp



end
