(* ===== verification/DeltaRewrite.thy ===== *)
theory DeltaRewrite
  imports DeltaOps
begin

text \<open>
  What each operation does when it is applied below a path that exists: the value at the path is
  rewritten and the rest of the root is kept. The producers of operations are proved against
  these rules.
\<close>

section \<open>Reading and replacing the value at a path\<close>

fun get_at :: "json \<Rightarrow> path \<Rightarrow> json option" where
  "get_at v [] = Some v"
| "get_at v (s # p) = (case get_own v s of None \<Rightarrow> None | Some c \<Rightarrow> get_at c p)"

fun set_at :: "json \<Rightarrow> path \<Rightarrow> json \<Rightarrow> json" where
  "set_at v [] w = w"
| "set_at v (s # p) w = (case get_own v s of None \<Rightarrow> v | Some c \<Rightarrow> put_own v s (set_at c p w))"

lemma map_set_twice: "map_set k b (map_set k a xs) = map_set k b xs"
  by (induction k a xs rule: map_set.induct) auto

lemma map_set_same: "map_of xs k = Some v \<Longrightarrow> map_set k v xs = xs"
  by (induction k v xs rule: map_set.induct) (auto split: if_splits)

lemma map_of_dom: "map_of xs k = Some v \<Longrightarrow> k \<in> fst ` set xs"
  by (force dest: map_of_SomeD)

lemma get_own_obj: "get_own v s = Some c \<Longrightarrow> isObj v \<and> (isArray v \<longrightarrow> isNum s)"
  by (cases v; cases s) (auto simp: isObj_def isArray_def isNum_def)

lemma get_put_own_same [simp]: "get_own v s = Some c \<Longrightarrow> get_own (put_own v s w) s = Some w"
  by (cases v; cases s) (auto split: if_splits)

lemma put_put_own [simp]: "get_own v s = Some c \<Longrightarrow> put_own (put_own v s a) s b = put_own v s b"
  by (cases v; cases s) (auto simp: obj_set_def fst_map_set map_set_twice dest: map_of_dom split: if_splits)

lemma put_own_unchanged [simp]: "get_own v s = Some c \<Longrightarrow> put_own v s c = v"
  by (cases v; cases s) (auto simp: obj_set_def map_set_same dest: map_of_dom split: if_splits)

lemma get_at_append: "get_at v (p @ q) = Option.bind (get_at v p) (\<lambda>x. get_at x q)"
  by (induction p arbitrary: v) (auto split: option.splits)

lemma get_set_at [simp]: "get_at v p = Some x \<Longrightarrow> get_at (set_at v p w) p = Some w"
  by (induction p arbitrary: v) (auto split: option.splits)

lemma set_set_at [simp]: "get_at v p = Some x \<Longrightarrow> set_at (set_at v p a) p b = set_at v p b"
  by (induction p arbitrary: v) (auto split: option.splits)

lemma set_at_same [simp]: "get_at v p = Some x \<Longrightarrow> set_at v p x = v"
  by (induction p arbitrary: v) (auto split: option.splits)

lemma set_at_append: "get_at v p = Some x \<Longrightarrow> set_at v (p @ q) w = set_at v p (set_at x q w)"
  by (induction p arbitrary: v) (auto split: option.splits)

lemma modify_at:
  "get_at v p = Some x \<Longrightarrow> isObj x \<Longrightarrow> modify full v p f = rbind (f x) (\<lambda>w. Inr (set_at v p w))"
  by (induction p arbitrary: v) (auto simp: rbind_assoc dest: get_own_obj split: option.splits)

section \<open>Rewriting a value at a path\<close>

definition turns :: "path \<Rightarrow> json \<Rightarrow> delta_op list \<Rightarrow> json \<Rightarrow> bool" where
  "turns p v ops w \<longleftrightarrow> (\<forall>root. get_at root p = Some v \<longrightarrow> applyOps (Some root) ops = Inr (Some (set_at root p w)))"

lemma turnsD: "turns p v ops w \<Longrightarrow> get_at root p = Some v \<Longrightarrow> applyOps (Some root) ops = Inr (Some (set_at root p w))"
  by (simp add: turns_def)

lemma turns_nil: "turns p v [] v"
  by (simp add: turns_def applyOps_def)

lemma turns_append: "turns p v xs u \<Longrightarrow> turns p u ys w \<Longrightarrow> turns p v (xs @ ys) w"
  by (auto simp: turns_def applyOps_def rfold_append)

lemma turns_child:
  "get_own v s = Some c \<Longrightarrow> turns (p @ [s]) c ops d \<Longrightarrow> turns p v ops (put_own v s d)"
  by (auto simp: turns_def get_at_append set_at_append)

lemma turns_root: "turns [] v ops w \<longleftrightarrow> applyOps (Some v) ops = Inr (Some w)"
  by (auto simp: turns_def)

lemma turnsI1:
  assumes "assertValidOp op = Inr ()" "\<And>root. get_at root p = Some v \<Longrightarrow> apply_valid root op = Inr (set_at root p w)"
  shows "turns p v [op] w"
  using assms by (auto simp: turns_def applyOps_def apply_op_def)

lemma turns_replace: "turns [] v [OpR w] w"
  by (rule turnsI1) (simp_all add: assertValidOp_def)

lemma safe_path_append [simp]: "safe_path (p @ q) \<longleftrightarrow> safe_path p \<and> safe_path q"
  by (simp add: safe_path_def)

lemma safe_path_simps [simp]:
  "safe_path []" "safe_path (SNum n # p) = safe_path p" "safe_path (SStr k # p) \<longleftrightarrow> \<not> reserved k \<and> safe_path p"
  by (simp_all add: safe_path_def)

lemma assertPathArg_ok [simp]: "assertPathArg p b = Inr u \<longleftrightarrow> (b \<longrightarrow> p \<noteq> []) \<and> safe_path p"
  by (auto simp: assertPathArg_def)

lemma at_parent_at:
  assumes "get_at root p = Some v" "isObj v" "check_key v s = Inr ()"
  shows "at_parent (p @ [s]) root f = rbind (f v s) (\<lambda>w. Inr (set_at root p w))"
  using assms by (simp add: at_parent_def modify_at)

lemma turns_put:
  assumes "isObj v" "check_key v s = Inr ()" "safe_path (p @ [s])"
  shows "turns p v [OpS (p @ [s]) w] (put_own v s w)"
  using assms by (intro turnsI1) (auto simp: assertValidOp_def at_parent_at)

lemma check_key_own: "get_own v s = Some c \<Longrightarrow> check_key v s = Inr ()"
  by (cases v; cases s) (auto simp: check_key_def split: if_splits)

lemma at_parent_own:
  "get_own v s = Some c \<Longrightarrow> get_at root p = Some v \<Longrightarrow>
    at_parent (p @ [s]) root f = rbind (f v s) (\<lambda>w. Inr (set_at root p w))"
  by (rule at_parent_at) (auto simp: check_key_own dest: get_own_obj)

lemma turns_own:
  assumes "safe_path p" "p \<noteq> []"
    and "\<And>q s v parent. p = q @ [s] \<Longrightarrow> get_own parent s = Some v0 \<Longrightarrow> get_at root q = Some parent \<Longrightarrow>
      apply_valid root op = Inr (set_at root q (put_own parent s w))"
    and "get_at root p = Some v0"
  shows "apply_valid root op = Inr (set_at root p w)"
proof -
  obtain q s where p: "p = q @ [s]" using assms(2) by (metis append_butlast_last_id)
  obtain parent where q: "get_at root q = Some parent" "get_own parent s = Some v0"
    using assms(4) p by (auto simp: get_at_append split: Option.bind_splits option.splits)
  then show ?thesis using assms(3) [OF p] by (simp add: p set_at_append)
qed

lemma turns_set:
  assumes "safe_path p" "p \<noteq> []"
  shows "turns p v [OpS p w] w"
proof (rule turnsI1)
  fix root assume g: "get_at root p = Some v"
  show "apply_valid root (OpS p w) = Inr (set_at root p w)"
    by (rule turns_own [OF assms _ g]) (auto simp: at_parent_own)
qed (use assms in \<open>auto simp: assertValidOp_def\<close>)

lemma turns_string:
  assumes "safe_path p" "p \<noteq> []"
  shows "turns p (JStr s) [OpA p t] (JStr (s @ t))" "turns p (JStr s) [OpT p n] (JStr (drop n s))"
proof -
  show "turns p (JStr s) [OpA p t] (JStr (s @ t))"
  proof (rule turnsI1)
    fix root assume g: "get_at root p = Some (JStr s)"
    show "apply_valid root (OpA p t) = Inr (set_at root p (JStr (s @ t)))"
      by (rule turns_own [OF assms _ g]) (auto simp: at_parent_own read_string_def)
  qed (use assms in \<open>auto simp: assertValidOp_def\<close>)
  show "turns p (JStr s) [OpT p n] (JStr (drop n s))"
  proof (rule turnsI1)
    fix root assume g: "get_at root p = Some (JStr s)"
    show "apply_valid root (OpT p n) = Inr (set_at root p (JStr (drop n s)))"
      by (rule turns_own [OF assms _ g]) (auto simp: at_parent_own read_string_def)
  qed (use assms in \<open>auto simp: assertValidOp_def\<close>)
qed

lemma turns_delete:
  assumes "safe_path p" "\<not> reserved k"
  shows "turns p (JObj ps) [OpD (p @ [SStr k])] (JObj (obj_delete k ps))"
  using assms by (intro turnsI1) (auto simp: assertValidOp_def at_parent_at isObj_def check_key_def delete_key_def seg_key_def)

lemma turns_splice:
  assumes "safe_path p"
  shows "turns p (JArr xs) [OpP p i r items] (JArr (js_splice i r items xs))"
  using assms by (intro turnsI1) (auto simp: assertValidOp_def modify_at isObj_def splice_op_eq)

lemma turns_permute:
  assumes "safe_path p" "assertPermutation is = Inr ()" "length is = length xs"
  shows "turns p (JArr xs) [OpM p is] (JArr (permute is xs))"
  using assms by (intro turnsI1) (auto simp: assertValidOp_def modify_at isObj_def)

text \<open>A list of indices passes the check of a permutation when no index is repeated or out of range.\<close>

lemma permutation_loop_complete:
  "set is \<subseteq> {..<n} \<Longrightarrow> distinct is \<Longrightarrow> length seen = n \<Longrightarrow> \<forall>i \<in> set is. \<not> seen ! i \<Longrightarrow> permutation_loop n seen is = Inr ()"
proof (induction n seen "is" rule: permutation_loop.induct)
  case (2 n seen i "is")
  then have "\<forall>j \<in> set is. \<not> seen[i := True] ! j" by (metis distinct.simps(2) list.set_intros(2) nth_list_update_neq)
  then show ?case using 2 by simp
qed simp

lemma assertPermutation_complete: "set is \<subseteq> {..<length is} \<Longrightarrow> distinct is \<Longrightarrow> assertPermutation is = Inr ()"
  by (auto simp: assertPermutation_def intro!: permutation_loop_complete)

section \<open>Operations act alike on equal values\<close>

text \<open>
  A replica holds a value that is equal to the one at the source but may list its keys in another
  order. An operation that applies to one applies to the other, with equal results.
\<close>

definition same_json :: "json \<Rightarrow> json \<Rightarrow> bool" where
  "same_json v w \<longleftrightarrow> wf_json v \<and> wf_json w \<and> json_eqv v w"

lemma same_json_refl: "wf_json v \<Longrightarrow> same_json v v"
  by (simp add: same_json_def json_eqv_refl)

lemma same_json_sym: "same_json v w \<Longrightarrow> same_json w v"
  unfolding same_json_def by (blast intro: json_eqv_sym)

lemma same_json_trans: "same_json u v \<Longrightarrow> same_json v w \<Longrightarrow> same_json u w"
  unfolding same_json_def by (blast intro: json_eqv_trans)

lemma same_json_arr: "same_json (JArr xs) (JArr ys) \<longleftrightarrow> list_all2 same_json xs ys"
  by (auto simp: same_json_def list_all2_conv_all_nth list_all_length)

lemma same_json_obj:
  "same_json (JObj xs) (JObj ys) \<longleftrightarrow> wf_json (JObj xs) \<and> wf_json (JObj ys) \<and> (\<forall>k. rel_option same_json (map_of xs k) (map_of ys k))"
  (is "_ \<longleftrightarrow> ?R")
proof -
  have "rel_option same_json (map_of xs k) (map_of ys k) \<longleftrightarrow> rel_option json_eqv (map_of xs k) (map_of ys k)"
    if "wf_json (JObj xs)" "wf_json (JObj ys)" for k
    using wf_json_objD [OF that(1), of k] wf_json_objD [OF that(2), of k]
    by (cases "map_of xs k"; cases "map_of ys k") (auto simp: same_json_def)
  moreover have "distinct (map fst zs)" if "wf_json (JObj zs)" for zs using that by simp
  ultimately show ?thesis unfolding same_json_def using json_eqv_obj [of xs ys] by blast
qed

lemma same_json_cases [consumes 2, case_names arr obj]:
  assumes "same_json v w" "isObj v \<or> isObj w"
  obtains (arr) xs ys where "v = JArr xs" "w = JArr ys" "list_all2 same_json xs ys"
  | (obj) xs ys where "v = JObj xs" "w = JObj ys" "wf_json v" "wf_json w" "\<And>k. rel_option same_json (map_of xs k) (map_of ys k)"
proof (cases v)
  case (JArr xs)
  then obtain ys where "w = JArr ys" using assms(1) by (auto simp: same_json_def split: json.splits)
  then show ?thesis using arr JArr assms(1) same_json_arr by blast
next
  case (JObj xs)
  then obtain ys where "w = JObj ys" using assms(1) by (auto simp: same_json_def split: json.splits)
  then show ?thesis using obj JObj assms(1) same_json_obj by blast
qed (use assms in \<open>auto simp: isObj_def same_json_def split: json.splits\<close>)

lemma same_json_kind: "same_json v w \<Longrightarrow> isObj v = isObj w \<and> isArray v = isArray w"
  by (cases v) (auto simp: same_json_def isObj_def isArray_def split: json.splits)

lemma same_json_get: "same_json v w \<Longrightarrow> rel_option same_json (get_own v s) (get_own w s)"
proof (cases "isObj v")
  case True
  assume "same_json v w"
  then show ?thesis using disjI1 [OF True]
  proof (cases rule: same_json_cases)
    case (arr xs ys)
    then show ?thesis by (cases s) (auto simp: list_all2_conv_all_nth)
  next
    case (obj xs ys)
    then show ?thesis by (cases s) auto
  qed
next
  case False
  assume "same_json v w"
  then have "\<not> isObj w" using False same_json_kind by blast
  then show ?thesis using False by (cases v; cases w) (auto simp: isObj_def)
qed

lemma same_json_put:
  assumes "same_json v w" "same_json a b" "isObj v"
  shows "same_json (put_own v s a) (put_own w s b)"
  using assms(1) disjI1 [OF assms(3)]
proof (cases rule: same_json_cases)
  case (arr xs ys)
  then show ?thesis using assms(2)
    by (cases s) (auto simp: same_json_arr list_all2_lengthD list_all2_update_cong list_all2_appendI)
next
  case (obj xs ys)
  then have "wf_json (JObj (obj_set k a xs)) \<and> wf_json (JObj (obj_set k b ys))" for k
    using assms(2) by (simp add: same_json_def wf_json_obj_set del: wf_json.simps)
  moreover have "rel_option same_json (map_of (obj_set k a xs) l) (map_of (obj_set k b ys) l)" for k l
    using obj(5) assms(2) by simp
  ultimately show ?thesis using obj(1,2) same_json_obj by simp
qed

definition same_result :: "(delta_error, json) result \<Rightarrow> (delta_error, json) result \<Rightarrow> bool" where
  "same_result r t \<longleftrightarrow> (\<forall>x. r = Inr x \<longrightarrow> (\<exists>y. t = Inr y \<and> same_json x y))"

lemma same_result_simps [simp]:
  "same_result (Inl e) t" "same_result (Inr x) (Inr y) = same_json x y" "same_result (Inr x) (Inl e) = False"
  by (auto simp: same_result_def)

lemma same_result_bind:
  "same_result r t \<Longrightarrow> (\<And>x y. same_json x y \<Longrightarrow> same_result (f x) (g y)) \<Longrightarrow> same_result (rbind r f) (rbind t g)"
  by (cases r; cases t) auto

lemma same_json_modify:
  assumes "\<And>x y. same_json x y \<Longrightarrow> isObj x \<Longrightarrow> same_result (f x) (f y)"
  shows "same_json v w \<Longrightarrow> same_result (modify full v p f) (modify full w p f)"
proof (induction p arbitrary: v w)
  case Nil
  then show ?case using assms same_json_kind by auto
next
  case (Cons s p)
  show ?case
  proof (cases "isObj v \<and> (isArray v \<longrightarrow> isNum s)")
    case True
    then have w: "isObj w \<and> (isArray w \<longrightarrow> isNum s)" using same_json_kind [OF Cons.prems] by auto
    have rel: "rel_option same_json (get_own v s) (get_own w s)" by (rule same_json_get [OF Cons.prems])
    show ?thesis
    proof (cases "get_own v s")
      case None
      then show ?thesis using True by auto
    next
      case (Some c)
      then obtain d where d: "get_own w s = Some d" "same_json c d" using rel by (cases "get_own w s") auto
      have "same_result (rbind (modify full c p f) (\<lambda>c'. Inr (put_own v s c'))) (rbind (modify full d p f) (\<lambda>d'. Inr (put_own w s d')))"
        by (rule same_result_bind [OF Cons.IH [OF d(2)]]) (use Cons.prems True same_json_put in auto)
      then show ?thesis using True w Some d(1) by auto
    qed
  qed auto
qed

lemma same_json_check_key: "same_json v w \<Longrightarrow> check_key v s = Inr u \<Longrightarrow> check_key w s = Inr u"
  by (cases v; cases s) (auto simp: same_json_def check_key_def list_all2_lengthD split: json.splits if_splits)

lemma same_json_at_parent:
  assumes "\<And>x y. same_json x y \<Longrightarrow> isObj x \<Longrightarrow> same_result (f x (last p)) (f y (last p))" "same_json v w"
  shows "same_result (at_parent p v f) (at_parent p w f)"
  unfolding at_parent_def
proof (rule same_json_modify [OF _ assms(2)])
  fix x y assume xy: "same_json x y" "isObj x"
  show "same_result (rbind (check_key x (last p)) (\<lambda>_. f x (last p))) (rbind (check_key y (last p)) (\<lambda>_. f y (last p)))"
    using same_json_check_key [OF xy(1), of "last p" "()"] assms(1) [OF xy] by (cases "check_key x (last p)") auto
qed

lemma same_json_read: "same_json v w \<Longrightarrow> read_string p v s = Inr t \<Longrightarrow> read_string p w s = Inr t"
  using same_json_get [of v w s]
  by (cases "get_own w s") (auto simp: read_string_def same_json_def split: option.splits json.splits)

lemma same_json_write_string:
  assumes "same_json v w" "isObj v"
  shows "same_result (rbind (read_string p v k) (\<lambda>t. Inr (put_own v k (JStr (h t))))) (rbind (read_string p w k) (\<lambda>t. Inr (put_own w k (JStr (h t)))))"
proof (cases "read_string p v k")
  case (Inr t)
  have "same_json (put_own v k (JStr (h t))) (put_own w k (JStr (h t)))"
    by (rule same_json_put [OF assms(1) _ assms(2)]) (simp add: same_json_def)
  then show ?thesis using Inr same_json_read [OF assms(1) Inr] by simp
qed simp

lemma same_json_delete:
  assumes "same_json v w" "isObj v"
  shows "same_result (delete_key p v k) (delete_key p w k)"
  using assms(1) disjI1 [OF assms(2)]
proof (cases rule: same_json_cases)
  case (arr xs ys)
  then show ?thesis
    by (cases k) (auto simp: delete_key_def same_json_arr remove_at_def list_all2_lengthD intro!: list_all2_appendI list_all2_takeI list_all2_dropI)
next
  case (obj xs ys)
  have "rel_option same_json (map_of (obj_delete (seg_key k) xs) l) (map_of (obj_delete (seg_key k) ys) l)" for l
    using obj(5) by (simp add: obj_delete_def)
  then show ?thesis using obj(1-4) wf_json_obj_delete
    by (simp add: delete_key_def same_json_obj del: wf_json.simps)
qed

lemma same_json_array_op:
  assumes "\<And>xs ys. list_all2 same_json xs ys \<Longrightarrow> same_result (h xs) (h ys)" "same_json v w"
  shows "same_result (case v of JArr xs \<Rightarrow> h xs | _ \<Rightarrow> Inl e) (case w of JArr xs \<Rightarrow> h xs | _ \<Rightarrow> Inl e)"
proof (cases v)
  case (JArr xs)
  then obtain ys where "w = JArr ys" using assms(2) by (auto simp: same_json_def split: json.splits)
  then show ?thesis using JArr assms same_json_arr by auto
qed auto

lemma same_json_splice:
  "list_all2 same_json xs ys \<Longrightarrow> list_all wf_json items \<Longrightarrow> same_result (Inr (JArr (splice_op i r items xs))) (Inr (JArr (splice_op i r items ys)))"
  by (auto simp: same_json_arr splice_op_eq js_splice_def Let_def list_all2_lengthD list_all_iff
      intro!: list_all2_appendI list_all2_takeI list_all2_dropI list.rel_refl_strong same_json_refl)

lemma same_json_permute:
  assumes "list_all2 same_json xs ys" "set is \<subseteq> {..<length is}"
  shows "same_result (if length xs \<noteq> length is then Inl e else Inr (JArr (permute is xs))) (if length ys \<noteq> length is then Inl e else Inr (JArr (permute is ys)))"
proof -
  have "list_all2 same_json (permute is xs) (permute is ys)" if "length xs = length is"
    using assms that by (auto simp: permute_def list_all2_conv_all_nth subset_eq)
  then show ?thesis using list_all2_lengthD [OF assms(1)] by (simp add: same_json_arr)
qed

lemma same_json_apply_valid:
  assumes "same_json v w" "assertValidOp op = Inr ()" "op_payload wf_json op"
  shows "same_result (apply_valid v op) (apply_valid w op)"
proof (cases op)
  case (OpR x)
  then show ?thesis using assms(3) by (simp add: same_json_refl)
next
  case (OpS p x)
  then show ?thesis using assms(3)
    by (simp, intro same_json_at_parent [OF _ assms(1)]) (simp add: same_json_put same_json_refl)
next
  case (OpD p)
  then show ?thesis by (simp, intro same_json_at_parent [OF _ assms(1)]) (rule same_json_delete)
next
  case (OpA p t)
  then show ?thesis
    by (simp, intro same_json_at_parent [OF _ assms(1)]) (rule same_json_write_string [where h = "\<lambda>s. s @ t"])
next
  case (OpT p n)
  then show ?thesis
    by (simp, intro same_json_at_parent [OF _ assms(1)]) (rule same_json_write_string [where h = "drop n"])
next
  case (OpP p i r items)
  have "same_result (case x of JArr xs \<Rightarrow> Inr (JArr (splice_op i r items xs)) | _ \<Rightarrow> Inl (PathError p))
      (case y of JArr xs \<Rightarrow> Inr (JArr (splice_op i r items xs)) | _ \<Rightarrow> Inl (PathError p))" if "same_json x y" for x y
    by (rule same_json_array_op [OF _ that]) (use assms(3) OpP same_json_splice in auto)
  then show ?thesis using OpP assms(1) by (simp add: same_json_modify)
next
  case (OpM p "is")
  have "set is \<subseteq> {..<length is}" using assms(2) OpM assertPermutation_ok by (auto simp: assertValidOp_def elim!: rbindE)
  then have "same_result (case x of JArr xs \<Rightarrow> if length xs \<noteq> length is then Inl (PathError p) else Inr (JArr (permute is xs)) | _ \<Rightarrow> Inl (PathError p))
      (case y of JArr xs \<Rightarrow> if length xs \<noteq> length is then Inl (PathError p) else Inr (JArr (permute is xs)) | _ \<Rightarrow> Inl (PathError p))"
    if "same_json x y" for x y
    using same_json_permute by (intro same_json_array_op [OF _ that]) auto
  then show ?thesis using OpM assms(1) by (simp add: same_json_modify)
qed

lemma same_json_applyOps:
  assumes "applyOps (Some v) ops = Inr (Some v')" "same_json v w" "list_all (op_payload wf_json) ops"
  shows "\<exists>w'. applyOps (Some w) ops = Inr (Some w') \<and> same_json v' w'"
  using assms
proof (induction ops arbitrary: v w)
  case Nil
  then show ?case by (simp add: applyOps_def)
next
  case (Cons op ops)
  obtain u where u: "assertValidOp op = Inr ()" "apply_valid v op = Inr u" "applyOps (Some u) ops = Inr (Some v')"
    using Cons.prems(1) by (auto simp: applyOps_def apply_op_def elim!: rbindE)
  then obtain t where t: "apply_valid w op = Inr t" "same_json u t"
    using same_json_apply_valid [OF Cons.prems(2) u(1)] Cons.prems(3) by (auto simp: same_result_def)
  then show ?case using Cons.IH [OF u(3) t(2)] Cons.prems(3) u(1) by (simp add: applyOps_def apply_op_def)
qed

end
