(* ===== verification/DeltaDiff.thy ===== *)
theory DeltaDiff
  imports DeltaRewrite
begin

text \<open>
  The diff of two immutable revisions, \<^verbatim>\<open>packages/chord/src/state/diff.ts\<close>, with \<^verbatim>\<open>overlap\<close> of
  \<^verbatim>\<open>packages/chord/src/delta/index.ts\<close>. The code compares containers by identity (\<open>===\<close>), so the
  values here carry the identity of each container.
\<close>

section \<open>Values with identity\<close>

datatype rjson = RNull | RBool bool | RNum jsnum | RStr jsstring | RArr nat "rjson list" | RObj nat "rjson obj"

fun plain :: "rjson \<Rightarrow> json" where
  "plain RNull = JNull"
| "plain (RBool b) = JBool b"
| "plain (RNum n) = JNum n"
| "plain (RStr s) = JStr s"
| "plain (RArr _ xs) = JArr (map plain xs)"
| "plain (RObj _ ps) = JObj (map (\<lambda>p. (fst p, plain (snd p))) ps)"

text \<open>Strict equality: primitives by value, containers by identity.\<close>

fun strict_eq :: "rjson \<Rightarrow> rjson \<Rightarrow> bool" where
  "strict_eq (RArr i _) b = (case b of RArr j _ \<Rightarrow> i = j | _ \<Rightarrow> False)"
| "strict_eq (RObj i _) b = (case b of RObj j _ \<Rightarrow> i = j | _ \<Rightarrow> False)"
| "strict_eq (RNum x) b = (case b of RNum y \<Rightarrow> num_eq x y | _ \<Rightarrow> False)"
| "strict_eq a b = (a = b)"

section \<open>Overlap of two strings\<close>

text \<open>\<^verbatim>\<open>String.prototype.indexOf\<close>: the first position from \<^term>\<open>from\<close> on at which \<^term>\<open>pat\<close> occurs.\<close>

function index_of :: "jsstring \<Rightarrow> jsstring \<Rightarrow> nat \<Rightarrow> nat option" where
  "index_of s pat from =
     (if from + length pat > length s then None
      else if take (length pat) (drop from s) = pat then Some from
      else index_of s pat (Suc from))"
  by pat_completeness auto
termination
  by (relation "measure (\<lambda>(s, pat, from). Suc (length s) - from)") auto

declare index_of.simps [simp del]

text \<open>One probe: at most \<^term>\<open>left\<close> further candidates are tried.\<close>

fun overlap_probe :: "jsstring \<Rightarrow> jsstring \<Rightarrow> jsstring \<Rightarrow> nat \<Rightarrow> nat \<Rightarrow> nat option" where
  "overlap_probe tail b head 0 from = None"
| "overlap_probe tail b head (Suc left) from =
     (case index_of tail head from of
        None \<Rightarrow> None
      | Some k \<Rightarrow>
          (let n = length tail - k in
           if n \<le> length b \<and> drop k tail = take n b then Some n
           else overlap_probe tail b head left (Suc k)))"

definition overlap_with :: "jsstring \<Rightarrow> jsstring \<Rightarrow> nat \<Rightarrow> nat \<Rightarrow> nat \<Rightarrow> nat" where
  "overlap_with a b scan probe maxCandidates =
     (if length a = 0 \<or> length b = 0 \<or> scan = 0 then 0
      else
        (let tail = (if length a > scan then drop (length a - scan) a else a);
             h = min probe (length b)
         in case overlap_probe tail b (take h b) maxCandidates 0 of
              Some n \<Rightarrow> n
            | None \<Rightarrow>
                if h = 1 then 0
                else (case overlap_probe tail b (take 1 b) maxCandidates 0 of Some n \<Rightarrow> n | None \<Rightarrow> 0)))"

definition overlap :: "jsstring \<Rightarrow> jsstring \<Rightarrow> nat \<Rightarrow> nat" where
  "overlap a b scan = overlap_with a b scan 64 8"

section \<open>The diff\<close>

definition DEFAULT_OVERLAP_SCAN :: nat where
  "DEFAULT_OVERLAP_SCAN = 65536"

definition MAX_DELTA_OPERATIONS :: nat where
  "MAX_DELTA_OPERATIONS = 4096"

definition emitSet :: "path \<Rightarrow> rjson \<Rightarrow> delta_op list \<Rightarrow> delta_op list" where
  "emitSet p v ops = ops @ [if p = [] then OpR (plain v) else OpS p (plain v)]"

fun equalJson :: "rjson \<Rightarrow> rjson \<Rightarrow> bool" where
  "equalJson (RArr i xs) b =
     (strict_eq (RArr i xs) b \<or> (case b of RArr j ys \<Rightarrow> length xs = length ys \<and> list_all2 equalJson xs ys | _ \<Rightarrow> False))"
| "equalJson (RObj i xs) b =
     (strict_eq (RObj i xs) b \<or> (case b of
        RObj j ys \<Rightarrow> length xs = length ys \<and>
          list_all (\<lambda>p. case map_of ys (fst p) of None \<Rightarrow> False | Some w \<Rightarrow> equalJson (snd p) w) xs
      | _ \<Rightarrow> False))"
| "equalJson a b = strict_eq a b"

text \<open>
  \<^verbatim>\<open>permutation\<close>: the positions of every value of \<^verbatim>\<open>before\<close>, a map keyed by the value itself, and how many
  of them are used up.
\<close>

type_synonym positions = "(rjson \<times> nat list \<times> nat) list"

fun find_position :: "positions \<Rightarrow> rjson \<Rightarrow> (nat list \<times> nat) option" where
  "find_position [] v = None"
| "find_position ((k, e) # m) v = (if strict_eq k v then Some e else find_position m v)"

fun set_position :: "positions \<Rightarrow> rjson \<Rightarrow> nat list \<times> nat \<Rightarrow> positions" where
  "set_position [] v e = [(v, e)]"
| "set_position ((k, e') # m) v e = (if strict_eq k v then (k, e) # m else (k, e') # set_position m v e)"

fun index_positions :: "nat \<Rightarrow> rjson list \<Rightarrow> positions \<Rightarrow> positions" where
  "index_positions i [] m = m"
| "index_positions i (v # vs) m =
     (case find_position m v of
        None \<Rightarrow> index_positions (Suc i) vs (set_position m v ([i], 0))
      | Some (indices, used) \<Rightarrow> index_positions (Suc i) vs (set_position m v (indices @ [i], used)))"

fun match_positions :: "rjson list \<Rightarrow> positions \<Rightarrow> nat list option" where
  "match_positions [] m = Some []"
| "match_positions (v # vs) m =
     (case find_position m v of
        None \<Rightarrow> None
      | Some (indices, used) \<Rightarrow>
          if used = length indices then None
          else map_option ((#) (indices ! used)) (match_positions vs (set_position m v (indices, Suc used))))"

definition permutation :: "rjson list \<Rightarrow> rjson list \<Rightarrow> nat list option" where
  "permutation before after =
     (if length before \<noteq> length after then None else match_positions after (index_positions 0 before []))"

definition emitString :: "jsstring \<Rightarrow> jsstring \<Rightarrow> path \<Rightarrow> delta_op list \<Rightarrow> delta_op list" where
  "emitString before after p ops =
     (if before = after then ops
      else if length after > length before \<and> take (length before) after = before
      then ops @ [OpA p (drop (length before) after)]
      else
        (let shared = overlap before after DEFAULT_OVERLAP_SCAN in
         if shared = 0 then ops @ [OpS p (JStr after)]
         else ops @ [OpT p (length before - shared)] @ (if length after > shared then [OpA p (drop shared after)] else [])))"

text \<open>
  The search of \<^verbatim>\<open>emitSameLengthShift\<close> for a shift by \<^term>\<open>d\<close>: the elements of \<^term>\<open>xs\<close> from \<^term>\<open>d\<close> on are the
  first ones of \<^term>\<open>ys\<close>; at most 16 candidates are compared.
\<close>

definition shifted_by :: "rjson list \<Rightarrow> rjson list \<Rightarrow> nat \<Rightarrow> bool" where
  "shifted_by xs ys d = list_all (\<lambda>i. strict_eq (xs ! i) (ys ! (i - d))) [d..<length xs]"

function find_shift :: "rjson list \<Rightarrow> rjson list \<Rightarrow> nat \<Rightarrow> nat \<Rightarrow> nat option" where
  "find_shift xs ys d candidates =
     (if d < length xs \<and> candidates < 16 then
        (if \<not> strict_eq (xs ! d) (ys ! 0) then find_shift xs ys (Suc d) candidates
         else if shifted_by xs ys d then Some d
         else find_shift xs ys (Suc d) (Suc candidates))
      else None)"
  by pat_completeness auto
termination
  by (relation "measure (\<lambda>(xs, ys, d, c). length xs - d)") auto

declare find_shift.simps [simp del]

definition emitSameLengthShift :: "rjson list \<Rightarrow> rjson list \<Rightarrow> path \<Rightarrow> delta_op list \<Rightarrow> delta_op list option" where
  "emitSameLengthShift before after p ops =
     (let n = length before in
      if n < 2 then None
      else case find_shift before after 1 0 of
        Some removed \<Rightarrow> Some (ops @ [OpP p 0 removed [], OpP p (n - removed) 0 (map plain (drop (n - removed) after))])
      | None \<Rightarrow>
          (case find_shift after before 1 0 of
             Some inserted \<Rightarrow> Some (ops @ [OpP p 0 0 (map plain (take inserted after)), OpP p n inserted []])
           | None \<Rightarrow> None))"

definition mismatches :: "rjson list \<Rightarrow> rjson list \<Rightarrow> nat" where
  "mismatches before after = length (filter (\<lambda>(x, y). \<not> strict_eq x y) (zip before after))"

text \<open>The lengths of the longest equal prefix and of the longest equal suffix of what remains.\<close>

fun common_prefix :: "rjson list \<Rightarrow> rjson list \<Rightarrow> nat" where
  "common_prefix (x # xs) (y # ys) = (if equalJson x y then Suc (common_prefix xs ys) else 0)"
| "common_prefix _ _ = 0"

definition common_suffix :: "rjson list \<Rightarrow> rjson list \<Rightarrow> nat \<Rightarrow> nat" where
  "common_suffix before after prefix = common_prefix (rev (drop prefix before)) (rev (drop prefix after))"

definition hasReserved :: "rjson obj \<Rightarrow> rjson obj \<Rightarrow> bool" where
  "hasReserved before after = list_ex reserved (map fst before @ map fst after)"

text \<open>The last loop of \<^verbatim>\<open>diffObject\<close>: delete the keys that are gone.\<close>

fun diff_deletes :: "jsstring list \<Rightarrow> rjson obj \<Rightarrow> path \<Rightarrow> delta_op list \<Rightarrow> delta_op list" where
  "diff_deletes [] after p ops = ops"
| "diff_deletes (k # ks) after p ops =
     (if length ops > MAX_DELTA_OPERATIONS then ops
      else diff_deletes ks after p (if map_of after k = None then ops @ [OpD (p @ [SStr k])] else ops))"

lemma size_map_of: "map_of xs k = Some v \<Longrightarrow> size v \<le> size_list (size_prod (\<lambda>_. 0) size) xs"
  by (induction xs) (auto split: if_splits)

function (sequential) diffValue :: "rjson \<Rightarrow> rjson \<Rightarrow> path \<Rightarrow> delta_op list \<Rightarrow> delta_op list"
  and diffArray :: "rjson list \<Rightarrow> rjson list \<Rightarrow> path \<Rightarrow> delta_op list \<Rightarrow> delta_op list"
  and diffElements :: "rjson list \<Rightarrow> rjson list \<Rightarrow> path \<Rightarrow> nat \<Rightarrow> delta_op list \<Rightarrow> delta_op list"
  and diffObject :: "nat \<Rightarrow> rjson obj \<Rightarrow> nat \<Rightarrow> rjson obj \<Rightarrow> path \<Rightarrow> delta_op list \<Rightarrow> delta_op list"
  and diffProperties :: "rjson obj \<Rightarrow> rjson obj \<Rightarrow> path \<Rightarrow> delta_op list \<Rightarrow> delta_op list"
where
  "diffValue before after p ops =
     (if strict_eq before after \<or> length ops > MAX_DELTA_OPERATIONS then ops
      else case (before, after) of
        (RStr s, RStr t) \<Rightarrow> if p \<noteq> [] then emitString s t p ops else emitSet p after ops
      | (RArr _ xs, RArr _ ys) \<Rightarrow> diffArray xs ys p ops
      | (RObj i xs, RObj j ys) \<Rightarrow> diffObject i xs j ys p ops
      | _ \<Rightarrow> emitSet p after ops)"
| "diffArray before after p ops =
     (if length before = length after then
        (let m = mismatches before after in
         if m = 0 then ops
         else case (if m > 1 then permutation before after else None) of
           Some order \<Rightarrow> ops @ [OpM p order]
         | None \<Rightarrow>
             (case (if m > 1 then emitSameLengthShift before after p ops else None) of
                Some ops' \<Rightarrow> ops'
              | None \<Rightarrow> diffElements before after p 0 ops))
      else
        (let prefix = common_prefix before after; suffix = common_suffix before after prefix in
         ops @ [OpP p prefix (length before - prefix - suffix)
           (map plain (take (length after - suffix - prefix) (drop prefix after)))]))"
| "diffElements (x # xs) (y # ys) p i ops =
     (if length ops > MAX_DELTA_OPERATIONS then ops
      else diffElements xs ys p (Suc i) (diffValue x y (p @ [SNum i]) ops))"
| "diffElements _ _ p i ops = ops"
| "diffObject i before j after p ops =
     (if hasReserved before after
      then (if equalJson (RObj i before) (RObj j after) then ops else emitSet p (RObj j after) ops)
      else
        (let ops' = diffProperties after before p ops in
         diff_deletes (map fst before) after p ops'))"
| "diffProperties [] before p ops = ops"
| "diffProperties ((k, v) # rest) before p ops =
     (if length ops > MAX_DELTA_OPERATIONS then ops
      else diffProperties rest before p
        (case map_of before k of
           Some u \<Rightarrow> diffValue u v (p @ [SStr k]) ops
         | None \<Rightarrow> emitSet (p @ [SStr k]) v ops))"
  by pat_completeness auto

termination
proof (relation "measures
    [\<lambda>x. case x of
        Inl (Inl (b, a, p, ops)) \<Rightarrow> 3 * size b
      | Inl (Inr (b, a, p, ops)) \<Rightarrow> 3 * size_list size b + 2
      | Inr (Inl (b, a, p, i, ops)) \<Rightarrow> 3 * size_list size b + 1
      | Inr (Inr (Inl (i, b, j, a, p, ops))) \<Rightarrow> 3 * size_list (size_prod (\<lambda>_. 0) size) b + 2
      | Inr (Inr (Inr (a, b, p, ops))) \<Rightarrow> 3 * size_list (size_prod (\<lambda>_. 0) size) b + 1,
     \<lambda>x. case x of Inr (Inr (Inr (a, b, p, ops))) \<Rightarrow> length a | _ \<Rightarrow> 0]")
qed (auto dest: size_map_of)

declare diffValue.simps [simp del] diffArray.simps [simp del] diffObject.simps [simp del]

section \<open>The cost of a batch\<close>

text \<open>
  The length of the decimal text of a number is the parameter \<^term>\<open>numlen\<close>: it only decides between a
  batch of operations and a snapshot.
\<close>

fun jsonCost :: "(jsnum \<Rightarrow> nat) \<Rightarrow> json \<Rightarrow> nat" where
  "jsonCost numlen JNull = 4"
| "jsonCost numlen (JStr s) = length s + 2"
| "jsonCost numlen (JNum n) = numlen n"
| "jsonCost numlen (JBool b) = (if b then 4 else 5)"
| "jsonCost numlen (JArr xs) = 2 + sum_list (map (jsonCost numlen) xs) + (length xs - 1)"
| "jsonCost numlen (JObj ps) = 2 + sum_list (map (\<lambda>p. length (fst p) + 3 + jsonCost numlen (snd p)) ps) + (length ps - 1)"

definition pathCost :: "(jsnum \<Rightarrow> nat) \<Rightarrow> path \<Rightarrow> nat" where
  "pathCost numlen p =
     2 + sum_list (map (\<lambda>s. case s of SStr k \<Rightarrow> length k + 2 | SNum n \<Rightarrow> numlen (NInt (int n))) p) + (length p - 1)"

definition operationCost :: "(jsnum \<Rightarrow> nat) \<Rightarrow> delta_op \<Rightarrow> nat" where
  "operationCost numlen op = (case op of
      OpR v \<Rightarrow> 6 + jsonCost numlen v
    | OpS p v \<Rightarrow> 7 + pathCost numlen p + jsonCost numlen v
    | OpD p \<Rightarrow> 6 + pathCost numlen p
    | OpA p t \<Rightarrow> 7 + pathCost numlen p + length t + 2
    | OpT p n \<Rightarrow> 7 + pathCost numlen p + numlen (NInt (int n))
    | OpP p i r items \<Rightarrow> 10 + pathCost numlen p + numlen (NInt (int i)) + numlen (NInt (int r)) + jsonCost numlen (JArr items)
    | OpM p is \<Rightarrow> 7 + pathCost numlen p + jsonCost numlen (JArr (map (\<lambda>i. JNum (NInt (int i))) is)))"

definition diffRevisions :: "(jsnum \<Rightarrow> nat) \<Rightarrow> rjson \<Rightarrow> rjson \<Rightarrow> delta_op list" where
  "diffRevisions numlen before after =
     (let operations = diffValue before after [] [] in
      if length operations > MAX_DELTA_OPERATIONS then [OpR (plain after)]
      else if operations = [] \<or> isBase operations then operations
      else
        (let deltaCost = 2 + sum_list (map (\<lambda>op. operationCost numlen op + 1) operations) in
         if deltaCost < 65536 then operations
         else if deltaCost \<ge> jsonCost numlen (plain after) + 6 then [OpR (plain after)] else operations))"

section \<open>Identity and equality\<close>

fun subs :: "rjson \<Rightarrow> rjson list" where
  "subs (RArr i xs) = RArr i xs # concat (map subs xs)"
| "subs (RObj i ps) = RObj i ps # concat (map (\<lambda>p. subs (snd p)) ps)"
| "subs v = [v]"

fun same_ref :: "rjson \<Rightarrow> rjson \<Rightarrow> bool" where
  "same_ref (RArr i _) (RArr j _) = (i = j)"
| "same_ref (RObj i _) (RObj j _) = (i = j)"
| "same_ref _ _ = False"

text \<open>One identity is one value: revisions are immutable, so a container they share is unchanged.\<close>

definition refs_agree :: "rjson \<Rightarrow> rjson \<Rightarrow> bool" where
  "refs_agree b a = list_all (\<lambda>c. list_all (\<lambda>d. same_ref c d \<longrightarrow> plain c = plain d) (subs a)) (subs b)"

definition revisions :: "rjson \<Rightarrow> rjson \<Rightarrow> bool" where
  "revisions b a \<longleftrightarrow> wf_json (plain b) \<and> wf_json (plain a) \<and> refs_agree b a"

lemma strict_eq_sym: "strict_eq a b \<longleftrightarrow> strict_eq b a"
  by (cases a; cases b) (simp_all, (rule num_eq_sym eq_commute)+)

lemma strict_eq_trans: "strict_eq a b \<Longrightarrow> strict_eq b c \<Longrightarrow> strict_eq a c"
  by (cases a; cases b; simp) (auto split: rjson.splits intro: num_eq_trans)

lemma subs_self: "v \<in> set (subs v)"
  by (cases v) auto

lemma subs_arr: "x \<in> set xs \<Longrightarrow> set (subs x) \<subseteq> set (subs (RArr i xs))"
  by auto

lemma subs_obj: "map_of ps k = Some x \<Longrightarrow> set (subs x) \<subseteq> set (subs (RObj i ps))"
  by (force dest: map_of_SomeD)

lemma refs_agree_mono: "refs_agree b a \<Longrightarrow> set (subs c) \<subseteq> set (subs b) \<Longrightarrow> set (subs d) \<subseteq> set (subs a) \<Longrightarrow> refs_agree c d"
  unfolding refs_agree_def list_all_iff by blast

lemma refs_agree_sym: "refs_agree b a \<Longrightarrow> refs_agree a b"
proof -
  have "same_ref c d = same_ref d c" for c d by (cases c; cases d) auto
  then show "refs_agree b a \<Longrightarrow> refs_agree a b" unfolding refs_agree_def list_all_iff by metis
qed

lemma revisions_sym: "revisions b a \<Longrightarrow> revisions a b"
  by (simp add: revisions_def refs_agree_sym)

lemma revisions_arr: "revisions (RArr i xs) (RArr j ys) \<Longrightarrow> x \<in> set xs \<Longrightarrow> y \<in> set ys \<Longrightarrow> revisions x y"
  unfolding revisions_def using refs_agree_mono [OF _ subs_arr subs_arr] by (auto simp: list_all_iff)

lemma map_of_plain: "map_of (map (\<lambda>p. (fst p, plain (snd p))) ps) k = map_option plain (map_of ps k)"
  by (induction ps) auto

lemma revisions_obj:
  assumes "revisions (RObj i xs) (RObj j ys)" "map_of xs k = Some x" "map_of ys l = Some y"
  shows "revisions x y"
  using assms wf_json_objD [of "map (\<lambda>p. (fst p, plain (snd p))) xs" k "plain x"]
    wf_json_objD [of "map (\<lambda>p. (fst p, plain (snd p))) ys" l "plain y"]
    refs_agree_mono [OF _ subs_obj subs_obj, of i xs j ys k x l y]
  unfolding revisions_def by (simp add: map_of_plain del: wf_json.simps subs.simps)

lemma strict_eq_sound: "revisions b a \<Longrightarrow> strict_eq b a \<Longrightarrow> json_eqv (plain b) (plain a)"
proof -
  assume rev: "revisions b a" and eq: "strict_eq b a"
  have same: "same_ref b a \<Longrightarrow> plain b = plain a"
    using rev subs_self [of b] subs_self [of a] by (auto simp: revisions_def refs_agree_def list_all_iff)
  show ?thesis
  proof (cases "same_ref b a")
    case True
    then show ?thesis using same rev by (auto simp: revisions_def intro: json_eqv_refl)
  next
    case False
    then show ?thesis using eq by (cases b; cases a) auto
  qed
qed

lemma equalJson_sound: "revisions b a \<Longrightarrow> equalJson b a \<Longrightarrow> json_eqv (plain b) (plain a)"
proof (induction b arbitrary: a)
  case (RArr i xs)
  show ?case
  proof (cases "strict_eq (RArr i xs) a")
    case True
    then show ?thesis using strict_eq_sound RArr.prems by blast
  next
    case False
    then obtain j ys where a: "a = RArr j ys" "list_all2 equalJson xs ys" using RArr.prems(2) by (auto split: rjson.splits)
    have "list_all2 (\<lambda>x y. json_eqv (plain x) (plain y)) xs ys"
      by (rule list.rel_mono_strong [OF a(2)]) (use RArr a(1) revisions_arr in blast)
    then show ?thesis using a(1) by (simp add: list_all2_map1 list_all2_map2)
  qed
next
  case (RObj i xs)
  show ?case
  proof (cases "strict_eq (RObj i xs) a")
    case True
    then show ?thesis using strict_eq_sound RObj.prems by blast
  next
    case False
    then obtain j ys where a: "a = RObj j ys" and len: "length xs = length ys"
      and all: "\<forall>p \<in> set xs. \<exists>w. map_of ys (fst p) = Some w \<and> equalJson (snd p) w"
      using RObj.prems(2) by (auto simp: list_all_iff split: rjson.splits option.splits)
    have "distinct (map fst xs)" using RObj.prems(1) by (simp add: revisions_def comp_def)
    then have "map_of xs (fst p) = Some (snd p)" if "p \<in> set xs" for p using that by simp
    then have "\<exists>w. map_of ys (fst p) = Some w \<and> json_eqv (plain (snd p)) (plain w)" if "p \<in> set xs" for p
      using all that RObj.IH [of p "snd p"] RObj.prems(1) a revisions_obj by (metis snds.intros)
    then show ?thesis using a len by (fastforce simp: list_all_iff map_of_plain)
  qed
qed (simp_all add: strict_eq_sound del: json_eqv.simps plain.simps strict_eq.simps)

section \<open>Strings\<close>

lemma index_of_Some: "index_of s pat from = Some k \<Longrightarrow> k + length pat \<le> length s"
proof (induction s pat "from" rule: index_of.induct)
  case (1 s pat "from")
  then show ?case by (subst (asm) (2) index_of.simps) (auto split: if_splits)
qed

lemma overlap_probe_Some:
  "overlap_probe tail b head left from = Some n \<Longrightarrow> n \<le> length b \<and> n \<le> length tail \<and> drop (length tail - n) tail = take n b"
proof (induction left arbitrary: "from")
  case (Suc left)
  then show ?case by (auto simp: Let_def split: option.splits if_splits dest: index_of_Some)
qed simp

lemma overlap_ok:
  assumes "n = overlap_with a b scan probe maxCandidates"
  shows "n \<le> length b \<and> n \<le> length a \<and> drop (length a - n) a = take n b"
proof -
  let ?tail = "if length a > scan then drop (length a - scan) a else a"
  have "n = 0 \<or> (\<exists>head left. overlap_probe ?tail b head left 0 = Some n)"
    using assms by (auto simp: overlap_with_def Let_def split: option.splits if_splits)
  moreover have "?thesis" if "overlap_probe ?tail b head left 0 = Some n" for head left
    using overlap_probe_Some [OF that] by (auto split: if_splits)
  ultimately show ?thesis by auto
qed

lemma emitString_turns:
  "\<exists>new. emitString s t p ops = ops @ new \<and> (safe_path p \<and> p \<noteq> [] \<longrightarrow> turns p (JStr s) new (JStr t))"
proof (cases "s = t")
  case True
  then show ?thesis by (auto simp: emitString_def turns_nil)
next
  case neq: False
  show ?thesis
  proof (cases "length t > length s \<and> take (length s) t = s")
    case True
    then have "t = s @ drop (length s) t" by (metis append_take_drop_id)
    then have "safe_path p \<and> p \<noteq> [] \<longrightarrow> turns p (JStr s) [OpA p (drop (length s) t)] (JStr t)"
      using turns_string(1) [of p s "drop (length s) t"] by simp
    then show ?thesis using neq True by (simp add: emitString_def)
  next
    case False
    define n where "n = overlap s t DEFAULT_OVERLAP_SCAN"
    have n: "n \<le> length t" "n \<le> length s" "drop (length s - n) s = take n t"
      using overlap_ok [OF n_def [unfolded overlap_def]] by blast+
    let ?new = "if n = 0 then [OpS p (JStr t)] else [OpT p (length s - n)] @ (if length t > n then [OpA p (drop n t)] else [])"
    have "emitString s t p ops = ops @ ?new"
      using neq False by (auto simp: emitString_def Let_def n_def)
    moreover have "turns p (JStr s) ?new (JStr t)" if p: "safe_path p" "p \<noteq> []"
    proof (cases "n = 0")
      case True
      then show ?thesis using turns_set [OF p] by simp
    next
      case False
      have cut: "turns p (JStr s) [OpT p (length s - n)] (JStr (take n t))"
        using turns_string(2) [OF p, of s "length s - n"] n(3) by simp
      have grow: "turns p (JStr (take n t)) [OpA p (drop n t)] (JStr t)"
        using turns_string(1) [OF p, of "take n t" "drop n t"] by simp
      show ?thesis using False cut turns_append [OF cut grow] n(1) by (cases "length t > n") auto
    qed
    ultimately show ?thesis by blast
  qed
qed

section \<open>Reordered arrays\<close>

lemma find_position_Some:
  "find_position m v = Some e \<Longrightarrow>
     \<exists>l k r. m = l @ (k, e) # r \<and> strict_eq k v \<and> (\<forall>e'. set_position m v e' = l @ (k, e') # r)"
proof (induction m v rule: find_position.induct)
  case (2 k e' m v)
  show ?case
  proof (cases "strict_eq k v")
    case True
    then show ?thesis using 2(2) by (auto intro!: exI [of _ "[]"])
  next
    case False
    then obtain l k' r where "m = l @ (k', e) # r" "strict_eq k' v" "\<forall>e'. set_position m v e' = l @ (k', e') # r" using 2 by auto
    then show ?thesis using False by (intro exI [of _ "(k, e') # l"]) auto
  qed
qed simp

lemma find_position_None: "find_position m v = None \<Longrightarrow> set_position m v e = m @ [(v, e)]"
  by (induction m v rule: find_position.induct) (auto split: if_splits)

definition remaining :: "positions \<Rightarrow> nat list" where
  "remaining m = concat (map (\<lambda>(k, indices, used). drop used indices) m)"

lemma remaining_simps [simp]:
  "remaining (l @ (k, indices, used) # r) = remaining l @ drop used indices @ remaining r"
  by (simp add: remaining_def)

text \<open>The table lists every position of \<^term>\<open>before\<close> below \<^term>\<open>n\<close> under a key equal to its element.\<close>

definition positions_ok :: "rjson list \<Rightarrow> nat \<Rightarrow> positions \<Rightarrow> bool" where
  "positions_ok before n m \<longleftrightarrow> distinct (remaining m) \<and>
     (\<forall>(k, indices, used) \<in> set m. used \<le> length indices \<and> (\<forall>i \<in> set indices. i < n \<and> strict_eq (before ! i) k))"

lemma positions_ok_remaining: "positions_ok before n m \<Longrightarrow> i \<in> set (remaining m) \<Longrightarrow> i < n"
  by (fastforce simp: positions_ok_def remaining_def dest: in_set_dropD)

lemma positions_ok_insert:
  assumes "positions_ok before i m" "strict_eq (before ! i) (before ! i)"
  shows "positions_ok before (Suc i) (case find_position m (before ! i) of
      None \<Rightarrow> set_position m (before ! i) ([i], 0)
    | Some (indices, used) \<Rightarrow> set_position m (before ! i) (indices @ [i], used))"
proof -
  have fresh: "i \<notin> set (remaining m)" using positions_ok_remaining [OF assms(1)] by blast
  show ?thesis
  proof (cases "find_position m (before ! i)")
    case None
    then show ?thesis using fresh assms find_position_None [OF None, of "([i], 0)"]
      by (fastforce simp: positions_ok_def remaining_def)
  next
    case (Some e)
    obtain indices used where e: "e = (indices, used)" by (cases e)
    obtain l k r where m: "m = l @ (k, e) # r" "strict_eq k (before ! i)"
      "\<forall>e'. set_position m (before ! i) e' = l @ (k, e') # r"
      using find_position_Some [OF Some] by blast
    have "strict_eq (before ! i) k" using m(2) by (subst strict_eq_sym)
    then show ?thesis using fresh assms(1) m(1,3) Some e
      by (fastforce simp: positions_ok_def remaining_def)
  qed
qed

lemma index_positions_ok:
  "positions_ok before i m \<Longrightarrow> list_all (\<lambda>v. strict_eq v v) before \<Longrightarrow> i \<le> length before \<Longrightarrow>
     positions_ok before (length before) (index_positions i (drop i before) m)"
proof (induction "length before - i" arbitrary: i m)
  case 0
  then show ?case by simp
next
  case (Suc n)
  then have i: "i < length before" "drop i before = before ! i # drop (Suc i) before" by (simp_all add: Cons_nth_drop_Suc)
  let ?m = "case find_position m (before ! i) of
      None \<Rightarrow> set_position m (before ! i) ([i], 0)
    | Some (indices, used) \<Rightarrow> set_position m (before ! i) (indices @ [i], used)"
  have "positions_ok before (Suc i) ?m"
    using positions_ok_insert [OF Suc.prems(1)] Suc.prems(2) i(1) by (simp add: list_all_length)
  then have "positions_ok before (length before) (index_positions (Suc i) (drop (Suc i) before) ?m)"
    using Suc.hyps(1) [of "Suc i" ?m] Suc.hyps(2) Suc.prems(2) i(1) by simp
  then show ?case by (auto simp: i(2) split: option.splits)
qed

lemma match_positions_ok:
  "match_positions vs m = Some is \<Longrightarrow> positions_ok before n m \<Longrightarrow>
     distinct is \<and> set is \<subseteq> set (remaining m) \<and> list_all2 (\<lambda>i v. strict_eq (before ! i) v) is vs"
proof (induction vs m arbitrary: "is" rule: match_positions.induct)
  case (2 v vs m)
  obtain indices used js' where f: "find_position m v = Some (indices, used)" and u: "used \<noteq> length indices"
    and rest: "match_positions vs (set_position m v (indices, Suc used)) = Some js'" and is_eq: "is = indices ! used # js'"
    using 2(2) by (auto split: option.splits if_splits)
  obtain l k r where m: "m = l @ (k, indices, used) # r" "strict_eq k v" "set_position m v (indices, Suc used) = l @ (k, indices, Suc used) # r"
    using find_position_Some [OF f] by blast
  have lt: "used < length indices" using 2(3) m(1) u by (auto simp: positions_ok_def)
  have cons: "drop used indices = indices ! used # drop (Suc used) indices" using lt by (simp add: Cons_nth_drop_Suc)
  let ?m = "set_position m v (indices, Suc used)"
  have ok: "positions_ok before n ?m" and new: "indices ! used \<notin> set (remaining ?m)"
    and sub: "set (remaining ?m) \<subseteq> set (remaining m)" "indices ! used \<in> set (remaining m)"
    using 2(3) lt unfolding m(3) unfolding m(1) positions_ok_def by (auto simp: cons)
  have "strict_eq (before ! (indices ! used)) v"
    using 2(3) m(1,2) lt by (auto simp: positions_ok_def intro: strict_eq_trans)
  moreover have "distinct js' \<and> set js' \<subseteq> set (remaining ?m) \<and> list_all2 (\<lambda>i v. strict_eq (before ! i) v) js' vs"
    using 2(1) [OF f refl u rest ok] .
  ultimately show ?case using is_eq new sub by auto
qed simp

lemma permutation_ok:
  assumes "permutation before after = Some is" "list_all (\<lambda>v. strict_eq v v) before"
  shows "assertPermutation is = Inr ()" "length is = length before" "list_all2 (\<lambda>i v. strict_eq (before ! i) v) is after"
proof -
  have len: "length before = length after" and m: "match_positions after (index_positions 0 before []) = Some is"
    using assms(1) by (auto simp: permutation_def split: if_splits)
  have ok: "positions_ok before (length before) (index_positions 0 before [])"
    using index_positions_ok [of before 0 "[]"] assms(2) by (simp add: positions_ok_def remaining_def)
  note r = match_positions_ok [OF m ok]
  show "list_all2 (\<lambda>i v. strict_eq (before ! i) v) is after" using r by blast
  then show l: "length is = length before" using len by (simp add: list_all2_lengthD)
  show "assertPermutation is = Inr ()"
    using r positions_ok_remaining [OF ok] l by (intro assertPermutation_complete) auto
qed

section \<open>Shifted and spliced arrays\<close>

lemma find_shift_Some: "find_shift xs ys d c = Some e \<Longrightarrow> d \<le> e \<and> e < length xs \<and> shifted_by xs ys e"
proof (induction xs ys d c rule: find_shift.induct)
  case (1 xs ys d c)
  then show ?case by (subst (asm) (3) find_shift.simps) (auto split: if_splits)
qed

text \<open>Two arrays of values of two revisions, compared element by element.\<close>

definition array_revisions :: "rjson list \<Rightarrow> rjson list \<Rightarrow> bool" where
  "array_revisions xs ys \<longleftrightarrow> list_all (wf_json \<circ> plain) xs \<and> list_all (wf_json \<circ> plain) ys \<and>
     (\<forall>x \<in> set xs. \<forall>y \<in> set ys. revisions x y)"

definition eqv_list :: "json list \<Rightarrow> rjson list \<Rightarrow> bool" where
  "eqv_list ws ys \<longleftrightarrow> list_all2 json_eqv ws (map plain ys)"

lemma eqv_list_append: "eqv_list us xs \<Longrightarrow> eqv_list vs ys \<Longrightarrow> eqv_list (us @ vs) (xs @ ys)"
  by (simp add: eqv_list_def list_all2_appendI)

lemma eqv_list_refl: "list_all (wf_json \<circ> plain) ys \<Longrightarrow> eqv_list (map plain ys) ys"
  by (auto simp: eqv_list_def list_all_iff intro!: list.rel_refl_strong json_eqv_refl)

lemma list_all_takeD: "list_all P xs \<Longrightarrow> list_all P (take n xs) \<and> list_all P (drop n xs)"
  by (auto simp: list_all_iff dest: in_set_takeD in_set_dropD)

lemma eqv_list_shift:
  assumes "array_revisions xs ys" "shifted_by xs ys d" "length xs = length ys" "d \<le> length xs"
  shows "eqv_list (map plain (drop d xs)) (take (length xs - d) ys)"
proof -
  have "json_eqv (plain (xs ! (d + i))) (plain (ys ! i))" if "d + i < length xs" for i
  proof (rule strict_eq_sound)
    have "d + i \<in> set [d..<length xs]" using that by simp
    then have "strict_eq (xs ! (d + i)) (ys ! (d + i - d))"
      using assms(2) unfolding shifted_by_def list_all_iff by blast
    then show "strict_eq (xs ! (d + i)) (ys ! i)" by simp
    show "revisions (xs ! (d + i)) (ys ! i)" using assms(1,3) that by (simp add: array_revisions_def)
  qed
  then show ?thesis using assms(3,4) by (auto simp: eqv_list_def list_all2_conv_all_nth)
qed

lemma emitSameLengthShift_turns:
  assumes "emitSameLengthShift before after p ops = Some res" "array_revisions before after"
    and len: "length before = length after"
  shows "\<exists>new ws. res = ops @ new \<and> (safe_path p \<longrightarrow> turns p (JArr (map plain before)) new (JArr ws)) \<and>
     eqv_list ws after \<and> list_all wf_json ws"
proof -
  let ?n = "length before"
  have wf: "list_all wf_json (map plain before)" "list_all wf_json (map plain after)" "list_all (wf_json \<circ> plain) after"
    using assms(2) by (simp_all add: array_revisions_def list_all_iff)
  consider (removed) d where "find_shift before after 1 0 = Some d"
      "res = ops @ [OpP p 0 d [], OpP p (?n - d) 0 (map plain (drop (?n - d) after))]"
    | (inserted) d where "find_shift after before 1 0 = Some d"
      "res = ops @ [OpP p 0 0 (map plain (take d after)), OpP p ?n d []]"
    using assms(1) by (auto simp: emitSameLengthShift_def Let_def split: if_splits option.splits)
  then show ?thesis
  proof cases
    case removed
    have d: "d < ?n" "shifted_by before after d" using find_shift_Some [OF removed(1)] by auto
    let ?mid = "map plain (drop d before)" and ?fin = "map plain (drop (?n - d) after)"
    have "eqv_list (?mid @ ?fin) (take (?n - d) after @ drop (?n - d) after)"
      by (rule eqv_list_append [OF eqv_list_shift [OF assms(2) d(2) len] eqv_list_refl])
        (use d(1) list_all_takeD [OF wf(3)] in auto)
    moreover have "turns p (JArr (map plain before)) ([OpP p 0 d []] @ [OpP p (?n - d) 0 ?fin]) (JArr (?mid @ ?fin))"
      if "safe_path p"
    proof (rule turns_append)
      show "turns p (JArr (map plain before)) [OpP p 0 d []] (JArr ?mid)"
        using turns_splice [OF that, of "map plain before" 0 d "[]"] d(1) by (simp add: js_splice_def drop_map)
      show "turns p (JArr ?mid) [OpP p (?n - d) 0 ?fin] (JArr (?mid @ ?fin))"
        using turns_splice [OF that, of ?mid "?n - d" 0 ?fin] by (simp add: js_splice_def)
    qed
    ultimately show ?thesis using removed(2) list_all_takeD [OF wf(1)] list_all_takeD [OF wf(2)]
      by (intro exI [of _ "[OpP p 0 d [], OpP p (?n - d) 0 ?fin]"] exI [of _ "?mid @ ?fin"]) (simp add: drop_map)
  next
    case inserted
    have d: "d < ?n" "shifted_by after before d" using find_shift_Some [OF inserted(1)] len by auto
    have rev: "array_revisions after before" using assms(2) revisions_sym by (simp add: array_revisions_def)
    let ?front = "map plain (take d after)" and ?rest = "map plain (take (?n - d) before)"
    have flipped: "list_all2 json_eqv (map plain (drop d after)) ?rest"
      using eqv_list_shift [OF rev d(2)] len d(1) by (simp add: eqv_list_def)
    have "list_all2 json_eqv ?rest (map plain (drop d after))"
      by (rule list_all2_sym_strong [OF flipped])
        (use wf in \<open>auto simp: list_all_iff intro!: json_eqv_sym dest: in_set_takeD in_set_dropD\<close>)
    then have "eqv_list (?front @ ?rest) (take d after @ drop d after)"
      using list_all_takeD [OF wf(3)] by (intro eqv_list_append eqv_list_refl) (simp_all add: eqv_list_def)
    moreover have "turns p (JArr (map plain before)) ([OpP p 0 0 ?front] @ [OpP p ?n d []]) (JArr (?front @ ?rest))"
      if "safe_path p"
    proof (rule turns_append)
      show "turns p (JArr (map plain before)) [OpP p 0 0 ?front] (JArr (?front @ map plain before))"
        using turns_splice [OF that, of "map plain before" 0 0 ?front] by (simp add: js_splice_def)
      show "turns p (JArr (?front @ map plain before)) [OpP p ?n d []] (JArr (?front @ ?rest))"
        using turns_splice [OF that, of "?front @ map plain before" ?n d "[]"] d(1) len by (simp add: js_splice_def take_map)
    qed
    ultimately show ?thesis using inserted(2) list_all_takeD [OF wf(1)] list_all_takeD [OF wf(2)]
      by (intro exI [of _ "[OpP p 0 0 ?front, OpP p ?n d []]"] exI [of _ "?front @ ?rest"]) (simp add: take_map)
  qed
qed

lemma common_prefix_ok:
  "common_prefix xs ys \<le> length xs \<and> common_prefix xs ys \<le> length ys \<and>
     list_all2 equalJson (take (common_prefix xs ys) xs) (take (common_prefix xs ys) ys)"
  by (induction xs ys rule: common_prefix.induct) auto

lemma common_suffix_ok:
  assumes "n \<le> length xs" "n \<le> length ys" "m = common_suffix xs ys n"
  shows "m \<le> length xs - n" "m \<le> length ys - n" "list_all2 equalJson (drop (length xs - m) xs) (drop (length ys - m) ys)"
proof -
  let ?u = "rev (drop n xs)" and ?v = "rev (drop n ys)"
  have m: "m = common_prefix ?u ?v" using assms(3) by (simp add: common_suffix_def)
  note ok = common_prefix_ok [of ?u ?v, folded m]
  show le: "m \<le> length xs - n" "m \<le> length ys - n" using ok by simp_all
  have "drop (length zs - m) zs = rev (take m (rev (drop n zs)))" if "m \<le> length zs - n" "n \<le> length zs" for zs :: "rjson list"
    using that by (simp add: take_rev)
  then show "list_all2 equalJson (drop (length xs - m) xs) (drop (length ys - m) ys)"
    using ok le assms(1,2) by simp
qed

lemma equalJson_list:
  assumes "list_all2 equalJson xs ys" "\<And>x y. x \<in> set xs \<Longrightarrow> y \<in> set ys \<Longrightarrow> revisions x y"
  shows "eqv_list (map plain xs) ys"
proof -
  have "list_all2 (\<lambda>x y. json_eqv (plain x) (plain y)) xs ys"
    by (rule list.rel_mono_strong [OF assms(1)]) (use assms(2) equalJson_sound in blast)
  then show ?thesis by (simp add: eqv_list_def list_all2_map1 list_all2_map2)
qed

lemma splice_eqv:
  assumes rev: "array_revisions xs ys" and n: "n = common_prefix xs ys" and m: "m = common_suffix xs ys n"
  shows "eqv_list (js_splice n (length xs - n - m) (map plain (take (length ys - m - n) (drop n ys))) (map plain xs)) ys"
proof -
  have n': "n \<le> length xs" "n \<le> length ys" "list_all2 equalJson (take n xs) (take n ys)"
    using common_prefix_ok [of xs ys] n by auto
  note m' = common_suffix_ok [OF n'(1,2) m]
  let ?mid = "take (length ys - m - n) (drop n ys)"
  have "eqv_list (map plain (take n xs) @ map plain ?mid @ map plain (drop (length xs - m) xs)) (take n ys @ ?mid @ drop (length ys - m) ys)"
  proof (intro eqv_list_append)
    show "eqv_list (map plain (take n xs)) (take n ys)"
      by (rule equalJson_list [OF n'(3)]) (use rev in \<open>auto simp: array_revisions_def dest: in_set_takeD\<close>)
    show "eqv_list (map plain (drop (length xs - m) xs)) (drop (length ys - m) ys)"
      by (rule equalJson_list [OF m'(3)]) (use rev in \<open>auto simp: array_revisions_def dest: in_set_dropD\<close>)
    show "eqv_list (map plain ?mid) ?mid"
      using rev by (intro eqv_list_refl) (auto simp: array_revisions_def list_all_iff dest: in_set_takeD in_set_dropD)
  qed
  moreover have "take n ys @ ?mid @ drop (length ys - m) ys = ys"
  proof -
    have "?mid = drop n (take (length ys - m) ys)" by (simp add: drop_take)
    moreover have "take n ys = take n (take (length ys - m) ys)" using m'(2) n'(2) by (simp add: min_absorb1)
    ultimately have "take n ys @ ?mid = take (length ys - m) ys" by (metis append_take_drop_id)
    then show ?thesis by (metis append_assoc append_take_drop_id)
  qed
  moreover have "n + (length xs - n - m) = length xs - m" using m'(1) n'(1) by simp
  ultimately show ?thesis using n'(1) by (simp add: js_splice_def Let_def take_map drop_map)
qed

section \<open>The diff is sound\<close>

text \<open>
  \<^term>\<open>res\<close> extends \<^term>\<open>ops\<close>, and unless the search was cut off, the operations added turn the
  value \<^term>\<open>v\<close> at \<^term>\<open>p\<close> into one equal to \<^term>\<open>u\<close>.
\<close>

definition diffs :: "path \<Rightarrow> delta_op list \<Rightarrow> delta_op list \<Rightarrow> json \<Rightarrow> json \<Rightarrow> bool" where
  "diffs p ops res v u \<longleftrightarrow> (\<exists>new. res = ops @ new \<and>
     (length res \<le> MAX_DELTA_OPERATIONS \<and> safe_path p \<longrightarrow> (\<exists>w. turns p v new w \<and> wf_json w \<and> json_eqv w u)))"

lemma diffsI:
  "res = ops @ new \<Longrightarrow> (safe_path p \<Longrightarrow> turns p v new w) \<Longrightarrow> wf_json w \<Longrightarrow> json_eqv w u \<Longrightarrow> diffs p ops res v u"
  unfolding diffs_def by blast

lemma diffs_cut: "length ops > MAX_DELTA_OPERATIONS \<Longrightarrow> diffs p ops ops v u"
  by (simp add: diffs_def)

lemma diffs_same: "json_eqv v u \<Longrightarrow> wf_json v \<Longrightarrow> diffs p ops ops v u"
  by (rule diffsI [where new = "[]" and w = v]) (simp_all add: turns_nil)

lemma diffs_emitSet: "wf_json (plain a) \<Longrightarrow> diffs p ops (emitSet p a ops) v (plain a)"
  by (rule diffsI [where new = "[if p = [] then OpR (plain a) else OpS p (plain a)]" and w = "plain a"])
    (auto simp: emitSet_def turns_replace turns_set json_eqv_refl)

lemma strict_eq_refl: "wf_json (plain v) \<Longrightarrow> strict_eq v v"
  by (cases v) (auto simp: num_eq_refl)

lemma diffs_array:
  assumes "res = ops @ new" "safe_path p \<Longrightarrow> turns p v new (JArr ws)" "eqv_list ws ys" "list_all wf_json ws"
  shows "diffs p ops res v (JArr (map plain ys))"
  using assms by (intro diffsI [where w = "JArr ws"]) (auto simp: eqv_list_def)

lemma diffs_permutation:
  assumes "permutation xs ys = Some order" "array_revisions xs ys"
  shows "diffs p ops (ops @ [OpM p order]) (JArr (map plain xs)) (JArr (map plain ys))"
proof -
  have refl: "list_all (\<lambda>v. strict_eq v v) xs"
    using assms(2) by (auto simp: array_revisions_def list_all_iff strict_eq_refl)
  note ok = permutation_ok [OF assms(1) refl]
  have range: "i < length xs" if "i \<in> set order" for i
    using assertPermutation_ok [OF ok(1)] that ok(2) by auto
  let ?ws = "permute order (map plain xs)"
  have "list_all2 (\<lambda>i y. json_eqv (plain (xs ! i)) (plain y)) order ys"
    by (rule list.rel_mono_strong [OF ok(3)])
      (use assms(2) range in \<open>auto simp: array_revisions_def intro!: strict_eq_sound\<close>)
  then have "list_all2 (\<lambda>i y. json_eqv (map plain xs ! i) y) order (map plain ys)"
    unfolding list_all2_map2 by (rule list.rel_mono_strong) (simp add: range)
  then have "eqv_list ?ws ys" by (simp add: eqv_list_def permute_def list_all2_map1)
  moreover have "list_all wf_json ?ws"
    using assms(2) range by (auto simp: permute_def list_all_iff array_revisions_def)
  moreover have "safe_path p \<Longrightarrow> turns p (JArr (map plain xs)) [OpM p order] (JArr ?ws)"
    using turns_permute [OF _ ok(1)] ok(2) by simp
  ultimately show ?thesis by (intro diffs_array) auto
qed

lemma no_mismatches:
  assumes "mismatches xs ys = 0" "length xs = length ys" "array_revisions xs ys"
  shows "eqv_list (map plain xs) ys"
proof -
  have "list_all2 strict_eq xs ys"
    using assms(1,2) by (auto simp: mismatches_def filter_empty_conv list_all2_iff)
  then have "list_all2 (\<lambda>x y. json_eqv (plain x) (plain y)) xs ys"
    by (rule list.rel_mono_strong) (use assms(3) in \<open>auto simp: array_revisions_def intro: strict_eq_sound\<close>)
  then show ?thesis by (simp add: eqv_list_def list_all2_map1 list_all2_map2)
qed

lemma diffs_splice:
  assumes "array_revisions xs ys" "n = common_prefix xs ys" "m = common_suffix xs ys n"
  shows "diffs p ops (ops @ [OpP p n (length xs - n - m) (map plain (take (length ys - m - n) (drop n ys)))])
    (JArr (map plain xs)) (JArr (map plain ys))"
proof (rule diffs_array [OF refl _ splice_eqv [OF assms]])
  show "list_all wf_json (js_splice n (length xs - n - m) (map plain (take (length ys - m - n) (drop n ys))) (map plain xs))"
    using assms(1) by (auto simp: js_splice_def Let_def list_all_iff array_revisions_def dest!: in_set_takeD in_set_dropD)
qed (rule turns_splice)

text \<open>The elements, one after the other: those before the index are done.\<close>

definition diffs_from :: "path \<Rightarrow> nat \<Rightarrow> delta_op list \<Rightarrow> delta_op list \<Rightarrow> json list \<Rightarrow> rjson list \<Rightarrow> bool" where
  "diffs_from p i ops res vs ys \<longleftrightarrow> (\<exists>new. res = ops @ new \<and>
     (length res \<le> MAX_DELTA_OPERATIONS \<and> safe_path p \<longrightarrow> (\<exists>ws. eqv_list ws ys \<and> list_all wf_json ws \<and>
        (\<forall>done. length done = i \<longrightarrow> turns p (JArr (done @ vs)) new (JArr (done @ ws))))))"

lemma diffs_from_Cons:
  assumes "diffs (p @ [SNum i]) ops mid v (plain y)" "diffs_from p (Suc i) mid res vs ys"
  shows "diffs_from p i ops res (v # vs) (y # ys)"
proof -
  obtain new1 where 1: "mid = ops @ new1" "length mid \<le> MAX_DELTA_OPERATIONS \<and> safe_path (p @ [SNum i]) \<longrightarrow>
      (\<exists>w. turns (p @ [SNum i]) v new1 w \<and> wf_json w \<and> json_eqv w (plain y))"
    using assms(1) unfolding diffs_def by blast
  obtain new2 where 2: "res = mid @ new2" "length res \<le> MAX_DELTA_OPERATIONS \<and> safe_path p \<longrightarrow>
      (\<exists>ws. eqv_list ws ys \<and> list_all wf_json ws \<and>
        (\<forall>done. length done = Suc i \<longrightarrow> turns p (JArr (done @ vs)) new2 (JArr (done @ ws))))"
    using assms(2) unfolding diffs_from_def by blast
  have "\<exists>ws. eqv_list ws (y # ys) \<and> list_all wf_json ws \<and>
      (\<forall>done. length done = i \<longrightarrow> turns p (JArr (done @ v # vs)) (new1 @ new2) (JArr (done @ ws)))"
    if ok: "length res \<le> MAX_DELTA_OPERATIONS \<and> safe_path p"
  proof -
    obtain w where w: "turns (p @ [SNum i]) v new1 w" "wf_json w" "json_eqv w (plain y)" using 1(2) ok 2(1) by auto
    obtain ws where ws: "eqv_list ws ys" "list_all wf_json ws"
        "\<forall>done. length done = Suc i \<longrightarrow> turns p (JArr (done @ vs)) new2 (JArr (done @ ws))" using 2(2) ok by blast
    have "turns p (JArr (done @ v # vs)) (new1 @ new2) (JArr (done @ w # ws))" if "length done = i" for "done"
    proof (rule turns_append)
      show "turns p (JArr (done @ v # vs)) new1 (JArr (done @ w # vs))"
        using turns_child [of "JArr (done @ v # vs)" "SNum i", OF _ w(1)] that by (auto simp: nth_append list_update_append)
      show "turns p (JArr (done @ w # vs)) new2 (JArr (done @ w # ws))"
        using ws(3) [rule_format, of "done @ [w]"] that by simp
    qed
    then show ?thesis using w ws by (intro exI [of _ "w # ws"]) (simp add: eqv_list_def)
  qed
  then show ?thesis using 1(1) 2(1) unfolding diffs_from_def by (intro exI [of _ "new1 @ new2"]) simp
qed

lemma diffs_from_0: "diffs_from p 0 ops res vs ys \<Longrightarrow> diffs p ops res (JArr vs) (JArr (map plain ys))"
  by (fastforce simp: diffs_from_def diffs_def eqv_list_def)

text \<open>The properties: every key of \<^term>\<open>rest\<close> gets its new value, the others stay.\<close>

definition updates :: "json obj \<Rightarrow> (jsstring \<Rightarrow> bool) \<Rightarrow> json obj \<Rightarrow> json obj \<Rightarrow> bool" where
  "updates cur K target cur' \<longleftrightarrow> wf_json (JObj cur') \<and>
     (\<forall>k. if K k then rel_option json_eqv (map_of cur' k) (map_of target k) else map_of cur' k = map_of cur k)"

definition diffs_keys :: "path \<Rightarrow> (jsstring \<Rightarrow> bool) \<Rightarrow> json obj \<Rightarrow> delta_op list \<Rightarrow> delta_op list \<Rightarrow> json obj \<Rightarrow> bool" where
  "diffs_keys p K cur ops res target \<longleftrightarrow> (\<exists>new. res = ops @ new \<and>
     (length res \<le> MAX_DELTA_OPERATIONS \<and> safe_path p \<longrightarrow>
        (\<exists>cur'. turns p (JObj cur) new (JObj cur') \<and> updates cur K target cur')))"

lemma diffs_keys_none: "wf_json (JObj cur) \<Longrightarrow> diffs_keys p (\<lambda>_. False) cur ops ops target"
  by (auto simp: diffs_keys_def updates_def intro!: exI [of _ cur] turns_nil simp del: wf_json.simps)

lemma diffs_keys_trans:
  assumes first: "diffs_keys p K cur ops mid target"
    and second: "\<And>cur'. updates cur K target cur' \<Longrightarrow> diffs_keys p L cur' mid res target"
    and ext: "\<exists>new. res = mid @ new"
    and "\<And>k. M k \<longleftrightarrow> K k \<or> L k"
  shows "diffs_keys p M cur ops res target"
proof -
  obtain new1 where 1: "mid = ops @ new1" "length mid \<le> MAX_DELTA_OPERATIONS \<and> safe_path p \<longrightarrow>
      (\<exists>cur'. turns p (JObj cur) new1 (JObj cur') \<and> updates cur K target cur')"
    using first unfolding diffs_keys_def by blast
  obtain new2 where 2: "res = mid @ new2" using ext by blast
  have "\<exists>cur'. turns p (JObj cur) (new1 @ new2) (JObj cur') \<and> updates cur M target cur'"
    if ok: "length res \<le> MAX_DELTA_OPERATIONS \<and> safe_path p"
  proof -
    obtain c1 where c1: "turns p (JObj cur) new1 (JObj c1)" "updates cur K target c1" using 1(2) ok 2 by auto
    obtain c2 where c2: "turns p (JObj c1) new2 (JObj c2)" "updates c1 L target c2"
      using second [OF c1(2)] ok 2 by (auto simp: diffs_keys_def)
    have "updates cur M target c2"
      using c1(2) c2(2) assms(4) unfolding updates_def by (simp del: wf_json.simps) metis
    then show ?thesis using turns_append [OF c1(1) c2(1)] by blast
  qed
  then show ?thesis using 1(1) 2 unfolding diffs_keys_def by (intro exI [of _ "new1 @ new2"]) simp
qed

lemma diffs_keys_own:
  assumes "diffs (p @ [SStr k]) ops res v u" "map_of cur k = Some v" "map_of target k = Some u" "wf_json (JObj cur)" "\<not> reserved k"
  shows "diffs_keys p (\<lambda>l. l = k) cur ops res target"
proof -
  obtain new where new: "res = ops @ new" "length res \<le> MAX_DELTA_OPERATIONS \<and> safe_path (p @ [SStr k]) \<longrightarrow>
      (\<exists>w. turns (p @ [SStr k]) v new w \<and> wf_json w \<and> json_eqv w u)"
    using assms(1) unfolding diffs_def by blast
  have "turns p (JObj cur) new (JObj (obj_set k w cur)) \<and> updates cur (\<lambda>l. l = k) target (obj_set k w cur)"
    if "turns (p @ [SStr k]) v new w" "wf_json w" "json_eqv w u" for w
    using turns_child [of "JObj cur" "SStr k", OF _ that(1)] that wf_json_obj_set [OF assms(4) that(2)] assms(2,3)
    by (simp add: seg_key_def updates_def del: wf_json.simps)
  moreover have "safe_path (p @ [SStr k]) = safe_path p" using assms(5) by simp
  ultimately show ?thesis using new unfolding diffs_keys_def by (intro exI [of _ new]) (simp only:, blast)
qed

lemma diffs_keys_new:
  assumes "map_of target k = Some (plain v)" "wf_json (JObj cur)" "wf_json (plain v)" "\<not> reserved k"
  shows "diffs_keys p (\<lambda>l. l = k) cur ops (emitSet (p @ [SStr k]) v ops) target"
proof -
  have "turns p (JObj cur) [OpS (p @ [SStr k]) (plain v)] (JObj (obj_set k (plain v) cur))" if "safe_path p"
    using turns_put [of "JObj cur" "SStr k" p "plain v"] that assms(4) by (simp add: isObj_def check_key_def seg_key_def)
  moreover have "updates cur (\<lambda>l. l = k) target (obj_set k (plain v) cur)"
    using wf_json_obj_set [OF assms(2,3), of k] assms(1) by (simp add: updates_def json_eqv_refl [OF assms(3)] del: wf_json.simps)
  ultimately show ?thesis by (auto simp: diffs_keys_def emitSet_def)
qed

lemma diff_deletes_extends: "\<exists>new. diff_deletes ks after p ops = ops @ new"
  by (induction ks arbitrary: ops) (auto, metis append.assoc)

lemma diffs_keys_deletes:
  assumes "wf_json (JObj cur)" "list_all (\<lambda>k. \<not> reserved k) ks" "\<And>k. map_of target k = None \<longleftrightarrow> map_of after k = None"
  shows "diffs_keys p (\<lambda>k. k \<in> set ks \<and> map_of after k = None) cur ops (diff_deletes ks after p ops) target"
  using assms(1,2)
proof (induction ks arbitrary: cur ops)
  case Nil
  then show ?case using diffs_keys_none by simp
next
  case (Cons k ks)
  show ?case
  proof (cases "length ops > MAX_DELTA_OPERATIONS")
    case True
    then show ?thesis by (simp add: diffs_keys_def)
  next
    case False
    show ?thesis
    proof (cases "map_of after k = None")
      case gone: True
      let ?mid = "ops @ [OpD (p @ [SStr k])]"
      have "diffs_keys p (\<lambda>l. l = k) cur ops ?mid target"
        using turns_delete [of p k cur] Cons.prems wf_json_obj_delete [OF Cons.prems(1), of k] assms(3) [of k] gone
        by (fastforce simp: diffs_keys_def updates_def obj_delete_def simp del: wf_json.simps)
      moreover have "diffs_keys p (\<lambda>k. k \<in> set ks \<and> map_of after k = None) cur' ?mid (diff_deletes ks after p ?mid) target"
        if "updates cur (\<lambda>l. l = k) target cur'" for cur'
        using Cons.IH [of cur' ?mid] that Cons.prems(2) by (simp add: updates_def)
      ultimately have "diffs_keys p (\<lambda>l. l \<in> set (k # ks) \<and> map_of after l = None) cur ops (diff_deletes ks after p ?mid) target"
        by (rule diffs_keys_trans [OF _ _ diff_deletes_extends]) (use gone in auto)
      then show ?thesis using False gone by simp
    next
      case kept: False
      then have "(\<lambda>l. l \<in> set (k # ks) \<and> map_of after l = None) = (\<lambda>l. l \<in> set ks \<and> map_of after l = None)" by auto
      moreover have "diff_deletes (k # ks) after p ops = diff_deletes ks after p ops" using False kept by auto
      ultimately show ?thesis using Cons.IH [OF Cons.prems(1)] Cons.prems(2) by simp
    qed
  qed
qed

lemma diffs_keys_extends: "diffs_keys p K cur ops res target \<Longrightarrow> \<exists>new. res = ops @ new"
  unfolding diffs_keys_def by blast

text \<open>One round of \<^verbatim>\<open>diffObject\<close>'s first loop.\<close>

definition property_ops :: "rjson obj \<Rightarrow> path \<Rightarrow> jsstring \<Rightarrow> rjson \<Rightarrow> delta_op list \<Rightarrow> delta_op list" where
  "property_ops before p k v ops = (case map_of before k of
      Some u \<Rightarrow> diffValue u v (p @ [SStr k]) ops
    | None \<Rightarrow> emitSet (p @ [SStr k]) v ops)"

lemma diffs_keys_property:
  assumes "\<And>u. map_of before k = Some u \<Longrightarrow> diffs (p @ [SStr k]) ops (diffValue u v (p @ [SStr k]) ops) (plain u) (plain v)"
    and "map_of cur k = map_option plain (map_of before k)" "map_of target k = Some (plain v)"
    and "wf_json (JObj cur)" "wf_json (plain v)" "\<not> reserved k"
  shows "diffs_keys p (\<lambda>l. l = k) cur ops (property_ops before p k v ops) target"
proof (cases "map_of before k")
  case None
  then show ?thesis using diffs_keys_new [OF assms(3-6)] by (simp add: property_ops_def)
next
  case (Some u)
  then show ?thesis using diffs_keys_own [OF assms(1) [OF Some] _ assms(3,4,6)] assms(2) by (simp add: property_ops_def)
qed

lemma diffs_keys_Cons:
  assumes head: "diffs_keys p (\<lambda>l. l = k) cur ops mid target"
    and tail: "\<And>cur'. updates cur (\<lambda>l. l = k) target cur' \<Longrightarrow> diffs_keys p (\<lambda>l. l \<in> K) cur' mid res target"
    and ext: "\<exists>new. res = mid @ new"
  shows "diffs_keys p (\<lambda>l. l \<in> insert k K) cur ops res target"
  by (rule diffs_keys_trans [OF head tail ext]) auto

abbreviation plains :: "rjson obj \<Rightarrow> json obj" where
  "plains ps \<equiv> map (\<lambda>p. (fst p, plain (snd p))) ps"

lemma diffs_object:
  assumes rev: "revisions (RObj i xs) (RObj j ys)" and res: "\<not> hasReserved xs ys"
    and props: "diffs_keys p (\<lambda>k. k \<in> fst ` set ys) (plains xs) ops mid (plains ys)"
  shows "diffs p ops (diff_deletes (map fst xs) ys p mid) (JObj (plains xs)) (JObj (plains ys))"
proof -
  have wf: "wf_json (JObj (plains ys))" using rev by (simp add: revisions_def)
  have none: "map_of (plains zs) k = None \<longleftrightarrow> map_of zs k = None" for zs k by (simp add: map_of_plain)
  have safe: "list_all (\<lambda>k. \<not> reserved k) (map fst xs)" using res by (auto simp: hasReserved_def list_all_iff list_ex_iff)
  have "diffs_keys p (\<lambda>k. k \<in> fst ` set ys \<or> (k \<in> set (map fst xs) \<and> map_of ys k = None)) (plains xs) ops
      (diff_deletes (map fst xs) ys p mid) (plains ys)"
  proof (rule diffs_keys_trans [OF props _ diff_deletes_extends])
    fix cur' assume "updates (plains xs) (\<lambda>k. k \<in> fst ` set ys) (plains ys) cur'"
    then show "diffs_keys p (\<lambda>k. k \<in> set (map fst xs) \<and> map_of ys k = None) cur' mid (diff_deletes (map fst xs) ys p mid) (plains ys)"
      by (intro diffs_keys_deletes safe none) (simp add: updates_def)
  qed simp
  then obtain new where new: "diff_deletes (map fst xs) ys p mid = ops @ new"
    "length (diff_deletes (map fst xs) ys p mid) \<le> MAX_DELTA_OPERATIONS \<and> safe_path p \<longrightarrow> (\<exists>cur'. turns p (JObj (plains xs)) new (JObj cur') \<and>
       updates (plains xs) (\<lambda>k. k \<in> fst ` set ys \<or> (k \<in> set (map fst xs) \<and> map_of ys k = None)) (plains ys) cur')"
    unfolding diffs_keys_def by blast
  have "json_eqv (JObj cur') (JObj (plains ys))"
    if up: "updates (plains xs) (\<lambda>k. k \<in> fst ` set ys \<or> (k \<in> set (map fst xs) \<and> map_of ys k = None)) (plains ys) cur'" for cur'
  proof -
    have "rel_option json_eqv (map_of cur' k) (map_of (plains ys) k)" for k
    proof (cases "k \<in> fst ` set ys \<or> k \<in> set (map fst xs)")
      case True
      then have "k \<in> fst ` set ys \<or> (k \<in> set (map fst xs) \<and> map_of ys k = None)" by (auto simp: map_of_eq_None_iff)
      then show ?thesis using up unfolding updates_def by presburger
    next
      case False
      then have "map_of xs k = None" "map_of ys k = None" by (auto simp: map_of_eq_None_iff)
      then show ?thesis using up False by (simp add: updates_def map_of_plain)
    qed
    moreover have "distinct (map fst cur')" "distinct (map fst (plains ys))" using up wf by (auto simp: updates_def wf_json_obj simp del: wf_json.simps map_map)
    ultimately show ?thesis using json_eqv_obj by blast
  qed
  then show ?thesis using new unfolding diffs_def by (auto simp: updates_def simp del: wf_json.simps json_eqv.simps)
qed

lemma array_revisions_arr: "revisions (RArr i xs) (RArr j ys) \<Longrightarrow> array_revisions xs ys"
  using revisions_arr by (auto simp: array_revisions_def revisions_def list_all_iff)

lemma property_ops_extends:
  "(\<And>u. map_of before k = Some u \<Longrightarrow> \<exists>new. diffValue u v (p @ [SStr k]) ops = ops @ new) \<Longrightarrow> \<exists>new. property_ops before p k v ops = ops @ new"
  by (auto simp: property_ops_def emitSet_def split: option.splits)

text \<open>Every routine of the diff only appends operations.\<close>

lemma diff_extends:
  "\<exists>new. diffValue before after p ops = ops @ new"
  "\<exists>new. diffArray xs ys p ops = ops @ new"
  "\<exists>new. diffElements xs ys p i ops = ops @ new"
  "\<exists>new. diffObject i ps j qs p ops = ops @ new"
  "\<exists>new. diffProperties qs ps p ops = ops @ new"
proof (induction before after p ops and xs ys p ops and xs ys p i ops and i ps j qs p ops and qs ps p ops
    rule: diffValue_diffArray_diffElements_diffObject_diffProperties.induct)
  case (1 before after p ops)
  have "\<exists>new. emitSet q v ops = ops @ new" for q v by (simp add: emitSet_def)
  moreover have "\<exists>new. emitString s t p ops = ops @ new" for s t using emitString_turns by blast
  ultimately show ?case using 1 by (subst diffValue.simps) (cases before; cases after; simp)
next
  case (2 before after p ops)
  have "\<exists>new. res = ops @ new" if "emitSameLengthShift before after p ops = Some res" for res
    using that by (auto simp: emitSameLengthShift_def Let_def split: if_splits option.splits)
  then show ?case using 2 by (subst diffArray.simps) (auto simp: Let_def split: option.splits)
next
  case (3 x xs y ys p i ops)
  then show ?case by simp (metis append.assoc)
next
  case (5 i before j after p ops)
  then show ?case using diff_deletes_extends [of "map fst before" after p]
    by (subst diffObject.simps) (simp add: Let_def emitSet_def, metis append.assoc)
next
  case (7 k v rest before p ops)
  have "\<exists>new. property_ops before p k v ops = ops @ new" if "\<not> length ops > MAX_DELTA_OPERATIONS"
    by (rule property_ops_extends) (use 7(1) [OF that] in auto)
  then show ?case using 7(2) by (simp flip: property_ops_def) (metis append.assoc)
qed auto

lemma diff_sound:
  "revisions before after \<Longrightarrow> diffs p ops (diffValue before after p ops) (plain before) (plain after)"
  "array_revisions xs ys \<Longrightarrow> diffs p ops (diffArray xs ys p ops) (JArr (map plain xs)) (JArr (map plain ys))"
  "array_revisions xs ys \<Longrightarrow> length xs = length ys \<Longrightarrow> diffs_from p i ops (diffElements xs ys p i ops) (map plain xs) ys"
  "revisions (RObj i ps) (RObj j qs) \<Longrightarrow> diffs p ops (diffObject i ps j qs p ops) (JObj (plains ps)) (JObj (plains qs))"
  "(\<And>cur target. (\<forall>k u v. map_of ps k = Some u \<longrightarrow> map_of qs k = Some v \<longrightarrow> revisions u v) \<Longrightarrow>
     (\<forall>k \<in> fst ` set qs. \<not> reserved k \<and> map_of cur k = map_option plain (map_of ps k) \<and> map_of target k = map_option plain (map_of qs k)) \<Longrightarrow>
     distinct (map fst qs) \<Longrightarrow> list_all (\<lambda>q. wf_json (plain (snd q))) qs \<Longrightarrow> wf_json (JObj cur) \<Longrightarrow>
     diffs_keys p (\<lambda>k. k \<in> fst ` set qs) cur ops (diffProperties qs ps p ops) target)"
proof (induction before after p ops and xs ys p ops and xs ys p i ops and i ps j qs p ops and qs ps p ops
    rule: diffValue_diffArray_diffElements_diffObject_diffProperties.induct)
  case (1 before after p ops)
  show ?case
  proof (cases "strict_eq before after \<or> length ops > MAX_DELTA_OPERATIONS")
    case True
    then show ?thesis using 1(3) strict_eq_sound [OF 1(3)]
      by (subst diffValue.simps) (auto intro: diffs_cut diffs_same simp: revisions_def)
  next
    case False
    have set: "diffs p ops (emitSet p after ops) (plain before) (plain after)"
      using 1(3) by (intro diffs_emitSet) (simp add: revisions_def)
    have str: "diffs p ops (emitString s t p ops) (JStr s) (JStr t)" if "p \<noteq> []" for s t
    proof -
      obtain new where "emitString s t p ops = ops @ new" "safe_path p \<and> p \<noteq> [] \<longrightarrow> turns p (JStr s) new (JStr t)"
        using emitString_turns by blast
      then show ?thesis using that by (intro diffsI [of _ ops new p _ "JStr t"]) simp_all
    qed
    show ?thesis
      using False 1 set str by (subst diffValue.simps) (cases before; cases after; auto simp: array_revisions_arr)
  qed
next
  case (2 before after p ops)
  show ?case
  proof (cases "length before = length after")
    case True
    have zero: "diffs p ops ops (JArr (map plain before)) (JArr (map plain after))" if "mismatches before after = 0"
      using no_mismatches [OF that True 2(2)] 2(2)
      by (intro diffs_same) (auto simp: eqv_list_def array_revisions_def list_all_iff)
    have shift: "diffs p ops res (JArr (map plain before)) (JArr (map plain after))"
      if "emitSameLengthShift before after p ops = Some res" for res
      using emitSameLengthShift_turns [OF that 2(2) True] diffs_array by blast
    have elems: "diffs p ops (diffElements before after p 0 ops) (JArr (map plain before)) (JArr (map plain after))"
      if "(if mismatches before after > 1 then permutation before after else None) = None"
        "mismatches before after \<noteq> 0" "(if mismatches before after > 1 then emitSameLengthShift before after p ops else None) = None"
      using 2(1) [OF True refl that(2,1,3) 2(2) True] by (rule diffs_from_0)
    show ?thesis
      using True zero shift elems diffs_permutation [OF _ 2(2)]
      by (subst diffArray.simps) (simp add: Let_def split: option.split)
  next
    case False
    then show ?thesis using diffs_splice [OF 2(2) refl refl] by (subst diffArray.simps) (simp add: Let_def)
  qed
next
  case (3 x xs y ys p i ops)
  have xy: "revisions x y" "array_revisions xs ys" "length xs = length ys"
    using 3(3,4) by (auto simp: array_revisions_def)
  show ?case
  proof (cases "length ops > MAX_DELTA_OPERATIONS")
    case True
    then show ?thesis by (simp add: diffs_from_def)
  next
    case False
    then show ?thesis using diffs_from_Cons [OF 3(1) [OF False xy(1)] 3(2) [OF False xy(2,3)]] by simp
  qed
next
  case "4_1"
  then show ?case by (auto simp: diffs_from_def eqv_list_def intro!: exI [of _ "[]"] turns_nil)
next
  case "4_2"
  then show ?case by (auto simp: diffs_from_def eqv_list_def intro!: exI [of _ "[]"] turns_nil)
next
  case (5 i before j after p ops)
  have wf: "wf_json (plain (RObj i before))" "wf_json (plain (RObj j after))" using 5(2) by (simp_all add: revisions_def)
  show ?case
  proof (cases "hasReserved before after")
    case True
    then show ?thesis
      using equalJson_sound [OF 5(2)] diffs_emitSet [OF wf(2)] diffs_same [OF _ wf(1)]
      by (subst diffObject.simps) (auto simp del: wf_json.simps equalJson.simps json_eqv.simps)
  next
    case False
    have safe: "\<not> reserved k" if "k \<in> fst ` set after" for k
      using False that by (auto simp: hasReserved_def list_ex_iff)
    have "diffs_keys p (\<lambda>k. k \<in> fst ` set after) (plains before) ops (diffProperties after before p ops) (plains after)"
      by (rule 5(1) [OF False])
        (use safe wf revisions_obj [OF 5(2)] in \<open>auto simp: map_of_plain comp_def list_all_iff\<close>)
    then show ?thesis using diffs_object [OF 5(2) False] False by (subst diffObject.simps) (simp add: Let_def)
  qed
next
  case (6 before p ops)
  then show ?case using diffs_keys_none by simp
next
  case (7 k v rest before p ops)
  show ?case
  proof (cases "length ops > MAX_DELTA_OPERATIONS")
    case True
    then show ?thesis by (simp add: diffs_keys_def)
  next
    case False
    let ?mid = "property_ops before p k v ops"
    have fresh: "k \<notin> fst ` set rest" using 7(5) by simp
    have "diffs_keys p (\<lambda>l. l = k) cur ops ?mid target"
      by (rule diffs_keys_property) (use 7 False in auto)
    moreover have "diffs_keys p (\<lambda>l. l \<in> fst ` set rest) cur' ?mid (diffProperties rest before p ?mid) target"
      if up: "updates cur (\<lambda>l. l = k) target cur'" for cur'
    proof (unfold property_ops_def, rule 7(2) [OF False])
      show "\<forall>k u v. map_of before k = Some u \<longrightarrow> map_of rest k = Some v \<longrightarrow> revisions u v"
        using 7(3) fresh by (metis map_of_Cons_code(2) map_of_dom)
      show "\<forall>l \<in> fst ` set rest. \<not> reserved l \<and> map_of cur' l = map_option plain (map_of before l) \<and> map_of target l = map_option plain (map_of rest l)"
        using 7(4) up fresh by (auto simp: updates_def)
    qed (use 7(5,6) up in \<open>auto simp: updates_def\<close>)
    ultimately have "diffs_keys p (\<lambda>l. l \<in> insert k (fst ` set rest)) cur ops (diffProperties rest before p ?mid) target"
      by (rule diffs_keys_Cons) (auto intro: diff_extends(5))
    then show ?thesis using False by (simp add: property_ops_def)
  qed
qed

text \<open>Every payload is a well-formed value.\<close>

lemma payload_emitSet: "wf_json (plain v) \<Longrightarrow> list_all (op_payload wf_json) ops \<Longrightarrow> list_all (op_payload wf_json) (emitSet p v ops)"
  by (simp add: emitSet_def)

lemma payload_deletes: "list_all (op_payload wf_json) ops \<Longrightarrow> list_all (op_payload wf_json) (diff_deletes ks after p ops)"
  by (induction ks arbitrary: ops) auto

lemma payload_shift:
  "emitSameLengthShift before after p ops = Some res \<Longrightarrow> list_all (wf_json \<circ> plain) after \<Longrightarrow>
    list_all (op_payload wf_json) ops \<Longrightarrow> list_all (op_payload wf_json) res"
  by (auto simp: emitSameLengthShift_def Let_def list_all_iff split: if_splits option.splits dest!: in_set_takeD in_set_dropD)

lemma diff_payload:
  "wf_json (plain after) \<Longrightarrow> list_all (op_payload wf_json) ops \<Longrightarrow> list_all (op_payload wf_json) (diffValue before after p ops)"
  "list_all (wf_json \<circ> plain) ys \<Longrightarrow> list_all (op_payload wf_json) ops \<Longrightarrow> list_all (op_payload wf_json) (diffArray xs ys p ops)"
  "list_all (wf_json \<circ> plain) ys \<Longrightarrow> list_all (op_payload wf_json) ops \<Longrightarrow> list_all (op_payload wf_json) (diffElements xs ys p i ops)"
  "wf_json (JObj (plains qs)) \<Longrightarrow> list_all (op_payload wf_json) ops \<Longrightarrow> list_all (op_payload wf_json) (diffObject i ps j qs p ops)"
  "list_all (\<lambda>q. wf_json (plain (snd q))) qs \<Longrightarrow> list_all (op_payload wf_json) ops \<Longrightarrow> list_all (op_payload wf_json) (diffProperties qs ps p ops)"
proof (induction before after p ops and xs ys p ops and xs ys p i ops and i ps j qs p ops and qs ps p ops
    rule: diffValue_diffArray_diffElements_diffObject_diffProperties.induct)
  case (1 before after p ops)
  have "list_all (op_payload wf_json) (emitString s t p ops)" for s t
    using 1(4) by (simp add: emitString_def Let_def)
  then show ?case using 1 payload_emitSet [OF 1(3,4)]
    by (subst diffValue.simps) (cases before; cases after; auto simp: comp_def list_all_iff)
next
  case (2 before after p ops)
  have "list_all wf_json (map plain (take n (drop m after)))" for n m
    using 2(2) by (auto simp: list_all_iff dest!: in_set_takeD in_set_dropD)
  then show ?case using 2 payload_shift [OF _ 2(2,3)]
    by (subst diffArray.simps) (simp add: Let_def split: option.split)
next
  case (5 i before j after p ops)
  have "list_all (\<lambda>q. wf_json (plain (snd q))) after" using 5(2) by (simp add: list_all_iff)
  then have "\<not> hasReserved before after \<Longrightarrow> list_all (op_payload wf_json) (diffProperties after before p ops)"
    using 5(1,3) by blast
  moreover have "list_all (op_payload wf_json) (emitSet p (RObj j after) ops)"
    by (rule payload_emitSet) (use 5 in simp_all)
  ultimately show ?case using 5(3)
    by (subst diffObject.simps) (simp add: Let_def payload_deletes del: equalJson.simps)
next
  case (7 k v rest before p ops)
  then show ?case by (auto simp: payload_emitSet split: option.split)
qed auto

lemma diffRevisions_valid:
  assumes "revisions before after"
  shows "\<exists>w. applyOps (Some (plain before)) (diffRevisions numlen before after) = Inr (Some w) \<and> json_eqv w (plain after)"
proof -
  let ?ops = "diffValue before after [] []"
  have snapshot: "applyOps (Some (plain before)) [OpR (plain after)] = Inr (Some (plain after))"
    using turns_replace by (simp add: turns_root)
  have refl: "json_eqv (plain after) (plain after)" using assms by (auto simp: revisions_def intro: json_eqv_refl)
  show ?thesis
  proof (cases "diffRevisions numlen before after = ?ops \<and> length ?ops \<le> MAX_DELTA_OPERATIONS")
    case True
    then show ?thesis using diff_sound(1) [OF assms, of "[]" "[]"] by (auto simp: diffs_def turns_root)
  next
    case False
    then have "diffRevisions numlen before after = [OpR (plain after)]" by (auto simp: diffRevisions_def Let_def split: if_splits)
    then show ?thesis using snapshot refl by auto
  qed
qed

lemma applyOps_valid: "applyOps root ops = Inr r \<Longrightarrow> op \<in> set ops \<Longrightarrow> assertValidOp op = Inr ()"
  by (induction ops arbitrary: root) (auto simp: applyOps_def apply_op_def elim!: rbindE)

section \<open>Properties\<close>

text \<open>
  C3. The batch computed from two revisions is sound: applied to the old revision it always
  succeeds and gives a value equal to the new one, whichever way the cost estimate
  chooses between operations and a snapshot.
\<close>

theorem diffRevisions_sound:
  assumes "revisions before after"
  shows "\<exists>w. applyOps (Some (plain before)) (diffRevisions numlen before after) = Inr (Some w) \<and> json_eqv w (plain after)"
  using assms by (rule diffRevisions_valid)

text \<open>
  A batch has at most 4096 operations, all its payloads are Json values, and every
  operation passes the validation of the applier.
\<close>

theorem diffRevisions_wellformed:
  assumes "revisions before after"
  shows "length (diffRevisions numlen before after) \<le> MAX_DELTA_OPERATIONS \<and>
    list_all (\<lambda>op. op_payload wf_json op \<and> assertValidOp op = Inr ()) (diffRevisions numlen before after)"
proof -
  have wf: "wf_json (plain after)" using assms by (simp add: revisions_def)
  have "length (diffRevisions numlen before after) \<le> MAX_DELTA_OPERATIONS"
    by (auto simp: diffRevisions_def Let_def MAX_DELTA_OPERATIONS_def)
  moreover have "list_all (op_payload wf_json) (diffRevisions numlen before after)"
    using diff_payload(1) [OF wf, of "[]"] wf by (auto simp: diffRevisions_def Let_def)
  moreover obtain w where "applyOps (Some (plain before)) (diffRevisions numlen before after) = Inr (Some w)"
    using diffRevisions_valid [OF assms] by blast
  ultimately show ?thesis using applyOps_valid by (auto simp: list_all_iff)
qed

section \<open>Witnesses\<close>

text \<open>A text that grew, a key that is gone, an array whose first element was dropped, a shared container.\<close>

definition sample_before :: rjson where
  "sample_before = RObj 0 [(js ''text'', RStr (js ''abc'')), (js ''old'', RNull),
     (js ''log'', RArr 1 [RStr (js ''x''), RStr (js ''y''), RStr (js ''z'')]), (js ''same'', RObj 2 [])]"

definition sample_after :: rjson where
  "sample_after = RObj 3 [(js ''text'', RStr (js ''abcd'')),
     (js ''log'', RArr 4 [RStr (js ''y''), RStr (js ''z''), RStr (js ''w'')]), (js ''same'', RObj 2 [])]"

lemma sample_revisions: "revisions sample_before sample_after"
proof -
  have "wf_json (plain sample_before)" "wf_json (plain sample_after)" "refs_agree sample_before sample_after"
    by code_simp+
  then show ?thesis by (simp add: revisions_def)
qed

lemma sample_diff:
  "diffRevisions (\<lambda>_. 1) sample_before sample_after =
     [OpA [SStr (js ''text'')] (js ''d''), OpP [SStr (js ''log'')] 0 1 [], OpP [SStr (js ''log'')] 2 0 [JStr (js ''w'')],
      OpD [SStr (js ''old'')]]"
  by code_simp

theorem diffRevisions_sound_witness:
  "\<exists>w. applyOps (Some (plain sample_before))
     [OpA [SStr (js ''text'')] (js ''d''), OpP [SStr (js ''log'')] 0 1 [], OpP [SStr (js ''log'')] 2 0 [JStr (js ''w'')],
      OpD [SStr (js ''old'')]] = Inr (Some w) \<and> json_eqv w (plain sample_after)"
  using diffRevisions_sound [OF sample_revisions, of "\<lambda>_. 1"] unfolding sample_diff .

end
