(* ===== verification/DeltaCodec.thy ===== *)
theory DeltaCodec
  imports DeltaRewrite KeyText
begin

text \<open>
  The codec between operations and the wire, the last part of \<^verbatim>\<open>packages/chord/src/delta/index.ts\<close>: the
  encoder interns a path on its second use and drops a path equal to the previous one, the decoder
  validates every wire operation and restores the paths.
\<close>

section \<open>Wire operations\<close>

datatype path_ref = RPath path | RId nat

text \<open>The path of a wire operation is absent in the short forms.\<close>

datatype wire_op =
    WR json
  | WS "path_ref option" json
  | WD "path_ref option"
  | WA "path_ref option" jsstring
  | WT "path_ref option" nat
  | WP "path_ref option" nat nat "json list"
  | WM "path_ref option" "nat list"
  | WDef nat path

text \<open>The tuple of a wire operation.\<close>

definition num_json :: "nat \<Rightarrow> json" where
  "num_json n = JNum (NInt (int n))"

definition seg_json :: "seg \<Rightarrow> json" where
  "seg_json s = (case s of SStr k \<Rightarrow> JStr k | SNum n \<Rightarrow> num_json n)"

definition path_json :: "path \<Rightarrow> json" where
  "path_json p = JArr (map seg_json p)"

definition ref_json :: "path_ref option \<Rightarrow> json list" where
  "ref_json r = (case r of None \<Rightarrow> [] | Some (RPath p) \<Rightarrow> [path_json p] | Some (RId n) \<Rightarrow> [num_json n])"

fun wire_json :: "wire_op \<Rightarrow> json" where
  "wire_json (WR v) = JArr [JStr (js ''r''), v]"
| "wire_json (WS r v) = JArr (JStr (js ''s'') # ref_json r @ [v])"
| "wire_json (WD r) = JArr (JStr (js ''d'') # ref_json r)"
| "wire_json (WA r t) = JArr (JStr (js ''a'') # ref_json r @ [JStr t])"
| "wire_json (WT r n) = JArr (JStr (js ''t'') # ref_json r @ [num_json n])"
| "wire_json (WP r i n items) = JArr (JStr (js ''p'') # ref_json r @ [num_json i, num_json n, JArr items])"
| "wire_json (WM r is) = JArr (JStr (js ''m'') # ref_json r @ [JArr (map num_json is)])"
| "wire_json (WDef n p) = JArr [JStr (js ''#''), num_json n, path_json p]"

section \<open>Validation of a wire operation\<close>

text \<open>\<^verbatim>\<open>Number.isInteger(x) && x >= 0\<close>.\<close>

definition natural :: "json \<Rightarrow> nat option" where
  "natural v = (case v of
      JNum (NInt i) \<Rightarrow> if i < 0 then None else Some (nat i)
    | JNum NNegZero \<Rightarrow> Some 0
    | _ \<Rightarrow> None)"

definition natural_or :: "string \<Rightarrow> json \<Rightarrow> (delta_error, nat) result" where
  "natural_or message v = (case natural v of None \<Rightarrow> Inl (TypeError message) | Some n \<Rightarrow> Inr n)"

text \<open>\<^verbatim>\<open>assertSafePath\<close> on an array whose elements are not yet known to be segments.\<close>

fun check_segments :: "json list \<Rightarrow> (delta_error, path) result" where
  "check_segments [] = Inr []"
| "check_segments (v # vs) =
     rbind (case v of
         JStr k \<Rightarrow> if reserved k then Inl (UnsafePath (SStr k)) else Inr (SStr k)
       | _ \<Rightarrow> (case natural v of None \<Rightarrow> Inl (UnsafeSegment v) | Some n \<Rightarrow> Inr (SNum n)))
       (\<lambda>s. rbind (check_segments vs) (\<lambda>p. Inr (s # p)))"

definition check_permutation :: "json \<Rightarrow> (delta_error, nat list) result" where
  "check_permutation v = (case v of
      JArr vs \<Rightarrow>
        rbind (rmap (natural_or ''m permutation is not a bijection'') vs) (\<lambda>is.
          rbind (assertPermutation is) (\<lambda>_. Inr is))
    | _ \<Rightarrow> Inl (TypeError ''m permutation is not an array''))"

definition okRef :: "json \<Rightarrow> (delta_error, path_ref) result" where
  "okRef r = (case r of
      JNum _ \<Rightarrow> rbind (natural_or ''bad path id'' r) (\<lambda>n. Inr (RId n))
    | JArr vs \<Rightarrow> rbind (check_segments vs) (\<lambda>p. Inr (RPath p))
    | _ \<Rightarrow> Inl (TypeError ''path is not an array''))"

definition check_string :: "json \<Rightarrow> (delta_error, jsstring) result" where
  "check_string v = (case v of JStr s \<Rightarrow> Inr s | _ \<Rightarrow> Inl (TypeError ''a value''))"

definition check_items :: "json \<Rightarrow> (delta_error, json list) result" where
  "check_items v = (case v of JArr vs \<Rightarrow> Inr vs | _ \<Rightarrow> Inl (TypeError ''p items''))"

definition check_splice :: "path_ref option \<Rightarrow> json \<Rightarrow> json \<Rightarrow> json \<Rightarrow> (delta_error, wire_op) result" where
  "check_splice ref i r items =
     rbind (natural_or ''p index'' i) (\<lambda>i'. rbind (natural_or ''p remove'' r) (\<lambda>r'.
       rbind (check_items items) (\<lambda>items'. Inr (WP ref i' r' items'))))"

text \<open>The verb selects the shape; arity tells the short forms from the full ones.\<close>

definition check_verb :: "jsstring \<Rightarrow> json list \<Rightarrow> (delta_error, wire_op) result" where
  "check_verb verb args =
     (if verb = js ''r'' then (case args of [v] \<Rightarrow> Inr (WR v) | _ \<Rightarrow> Inl (TypeError ''r arity''))
      else if verb = js ''s'' then
        (case args of [r, v] \<Rightarrow> rbind (okRef r) (\<lambda>ref. Inr (WS (Some ref) v)) | [v] \<Rightarrow> Inr (WS None v) | _ \<Rightarrow> Inl (TypeError ''s arity''))
      else if verb = js ''d'' then
        (case args of [r] \<Rightarrow> rbind (okRef r) (\<lambda>ref. Inr (WD (Some ref))) | [] \<Rightarrow> Inr (WD None) | _ \<Rightarrow> Inl (TypeError ''d arity''))
      else if verb = js ''a'' then
        (case args of
           [r, v] \<Rightarrow> rbind (okRef r) (\<lambda>ref. rbind (check_string v) (\<lambda>s. Inr (WA (Some ref) s)))
         | [v] \<Rightarrow> rbind (check_string v) (\<lambda>s. Inr (WA None s))
         | _ \<Rightarrow> Inl (TypeError ''a arity''))
      else if verb = js ''t'' then
        (case args of
           [r, v] \<Rightarrow> rbind (okRef r) (\<lambda>ref. rbind (natural_or ''t count'' v) (\<lambda>n. Inr (WT (Some ref) n)))
         | [v] \<Rightarrow> rbind (natural_or ''t count'' v) (\<lambda>n. Inr (WT None n))
         | _ \<Rightarrow> Inl (TypeError ''t arity''))
      else if verb = js ''p'' then
        (case args of
           [ref, i, r, items] \<Rightarrow> rbind (okRef ref) (\<lambda>ref'. check_splice (Some ref') i r items)
         | [i, r, items] \<Rightarrow> check_splice None i r items
         | _ \<Rightarrow> Inl (TypeError ''p arity''))
      else if verb = js ''m'' then
        (case args of
           [r, v] \<Rightarrow> rbind (okRef r) (\<lambda>ref. rbind (check_permutation v) (\<lambda>is. Inr (WM (Some ref) is)))
         | [v] \<Rightarrow> rbind (check_permutation v) (\<lambda>is. Inr (WM None is))
         | _ \<Rightarrow> Inl (TypeError ''m arity''))
      else if verb = js ''#'' then
        (case args of
           [n, JArr vs] \<Rightarrow> rbind (natural_or ''# shape'' n) (\<lambda>id. rbind (check_segments vs) (\<lambda>p. Inr (WDef id p)))
         | _ \<Rightarrow> Inl (TypeError ''# shape''))
      else Inl (TypeError ''unknown op verb''))"

definition assertValidWireOp :: "json \<Rightarrow> (delta_error, wire_op) result" where
  "assertValidWireOp op = (case op of
      JArr (JStr verb # args) \<Rightarrow> check_verb verb args
    | JArr (_ # _) \<Rightarrow> Inl (TypeError ''unknown op verb'')
    | _ \<Rightarrow> Inl (TypeError ''op is not a tuple''))"

section \<open>The encoder\<close>

definition pathKey :: "path \<Rightarrow> jsstring" where
  "pathKey p = stringify (KArr (map (\<lambda>s. case s of SStr k \<Rightarrow> KStr k | SNum n \<Rightarrow> KNum n) p))"

record delta_encoder =
  enc_seen :: "jsstring list"
  enc_ids :: "(jsstring \<times> nat) list"
  enc_nextId :: nat
  enc_previous :: "jsstring option"

definition encoder :: delta_encoder where
  "encoder = \<lparr>enc_seen = [], enc_ids = [], enc_nextId = 0, enc_previous = None\<rparr>"

text \<open>The operation with its path replaced by a reference, or left out.\<close>

fun with_ref :: "path_ref option \<Rightarrow> delta_op \<Rightarrow> wire_op" where
  "with_ref r (OpR v) = WR v"
| "with_ref r (OpS _ v) = WS r v"
| "with_ref r (OpD _) = WD r"
| "with_ref r (OpA _ t) = WA r t"
| "with_ref r (OpT _ n) = WT r n"
| "with_ref r (OpP _ i n items) = WP r i n items"
| "with_ref r (OpM _ is) = WM r is"

definition encode_op :: "delta_encoder \<Rightarrow> delta_op \<Rightarrow> wire_op list \<times> delta_encoder" where
  "encode_op e op =
     (if isReplace op
      then ([with_ref None op], e\<lparr>enc_seen := [], enc_ids := [], enc_nextId := 0, enc_previous := None\<rparr>)
      else
        (let path = op_path op; key = pathKey path in
         if enc_previous e = Some key then ([with_ref None op], e)
         else case map_of (enc_ids e) key of
           Some existing \<Rightarrow> ([with_ref (Some (RId existing)) op], e\<lparr>enc_previous := Some key\<rparr>)
         | None \<Rightarrow>
             if List.member (enc_seen e) key
             then
               (let id = enc_nextId e in
                ([WDef id path, with_ref (Some (RId id)) op],
                 e\<lparr>enc_nextId := Suc id, enc_ids := map_set key id (enc_ids e), enc_previous := Some key\<rparr>))
             else
               ([with_ref (Some (RPath path)) op], e\<lparr>enc_seen := enc_seen e @ [key], enc_previous := Some key\<rparr>)))"

fun encode_loop :: "delta_encoder \<Rightarrow> delta_op list \<Rightarrow> wire_op list \<times> delta_encoder" where
  "encode_loop e [] = ([], e)"
| "encode_loop e (op # ops) =
     (let (out, e') = encode_op e op; (rest, e'') = encode_loop e' ops in (out @ rest, e''))"

definition encode :: "delta_encoder \<Rightarrow> delta_op list \<Rightarrow> wire_op list \<times> delta_encoder" where
  "encode e ops = encode_loop (e\<lparr>enc_previous := None\<rparr>) ops"

section \<open>The decoder\<close>

text \<open>The dictionary of paths; the previous path is local to a batch.\<close>

record delta_decoder =
  dec_paths :: "(nat \<times> path) list"

definition decoder :: delta_decoder where
  "decoder = \<lparr>dec_paths = []\<rparr>"

definition resolve_ref :: "delta_decoder \<Rightarrow> path option \<Rightarrow> path_ref option \<Rightarrow> (delta_error, path) result" where
  "resolve_ref d previous r = (case r of
      None \<Rightarrow> (case previous of None \<Rightarrow> Inl (PathError []) | Some p \<Rightarrow> Inr p)
    | Some (RId n) \<Rightarrow> (case map_of (dec_paths d) n of None \<Rightarrow> Inl (PathIdError n) | Some p \<Rightarrow> Inr p)
    | Some (RPath p) \<Rightarrow> Inr p)"

text \<open>The operation at a resolved path; only splices and permutations may target the root.\<close>

definition at_path :: "bool \<Rightarrow> path \<Rightarrow> delta_op \<Rightarrow> (delta_error, delta_op) result" where
  "at_path rootable p op = (if \<not> rootable \<and> p = [] then Inl (PathError p) else Inr op)"

fun decode_target :: "wire_op \<Rightarrow> path_ref option" where
  "decode_target (WS r _) = r"
| "decode_target (WD r) = r"
| "decode_target (WA r _) = r"
| "decode_target (WT r _) = r"
| "decode_target (WP r _ _ _) = r"
| "decode_target (WM r _) = r"
| "decode_target _ = None"

fun decode_body :: "wire_op \<Rightarrow> path \<Rightarrow> (delta_error, delta_op) result" where
  "decode_body (WS _ v) p = at_path False p (OpS p v)"
| "decode_body (WD _) p = at_path False p (OpD p)"
| "decode_body (WA _ t) p = at_path False p (OpA p t)"
| "decode_body (WT _ n) p = at_path False p (OpT p n)"
| "decode_body (WP _ i n items) p = at_path True p (OpP p i n items)"
| "decode_body (WM _ is) p = at_path True p (OpM p is)"
| "decode_body (WR v) p = Inr (OpR v)"
| "decode_body (WDef _ _) p = Inl (PathError p)"

fun decode_op :: "delta_decoder \<Rightarrow> path option \<Rightarrow> wire_op \<Rightarrow> (delta_error, delta_decoder \<times> path option \<times> delta_op list) result" where
  "decode_op d previous (WDef n p) = Inr (d\<lparr>dec_paths := map_set n p (dec_paths d)\<rparr>, previous, [])"
| "decode_op d previous (WR v) = Inr (d\<lparr>dec_paths := []\<rparr>, None, [OpR v])"
| "decode_op d previous w =
     rbind (resolve_ref d previous (decode_target w)) (\<lambda>p.
       rbind (decode_body w p) (\<lambda>op. Inr (d, Some p, [op])))"

text \<open>Operations are validated one by one; what was learned before a failure stays in the dictionary.\<close>

fun decode_loop :: "delta_decoder \<Rightarrow> path option \<Rightarrow> json list \<Rightarrow> delta_decoder \<times> (delta_error, delta_op list) result" where
  "decode_loop d previous [] = (d, Inr [])"
| "decode_loop d previous (raw # rest) =
     (case rbind (assertValidWireOp raw) (decode_op d previous) of
        Inl e \<Rightarrow> (d, Inl e)
      | Inr (d', previous', out) \<Rightarrow>
          (let (d'', r) = decode_loop d' previous' rest in (d'', rbind r (\<lambda>ops. Inr (out @ ops)))))"

definition decode :: "delta_decoder \<Rightarrow> json list \<Rightarrow> delta_decoder \<times> (delta_error, delta_op list) result" where
  "decode d wire = decode_loop d None wire"

section \<open>Tuples are read back\<close>

lemma natural_num [simp]: "natural (num_json n) = Some n"
  by (simp add: natural_def num_json_def)

lemma natural_or_num [simp]: "natural_or m (num_json n) = Inr n"
  by (simp add: natural_or_def)

lemma check_segments_json [simp]: "safe_path p \<Longrightarrow> check_segments (map seg_json p) = Inr p"
proof (induction p)
  case (Cons s p)
  have "natural (JNum (NInt (int n))) = Some n" for n using natural_num [of n] by (simp add: num_json_def)
  then show ?case using Cons by (cases s) (simp_all add: seg_json_def num_json_def)
qed simp

lemma check_permutation_json [simp]:
  "assertPermutation is = Inr () \<Longrightarrow> check_permutation (JArr (map num_json is)) = Inr is"
proof -
  have "rmap (natural_or m) (map num_json is) = Inr is" for m by (induction "is") simp_all
  then show "assertPermutation is = Inr () \<Longrightarrow> check_permutation (JArr (map num_json is)) = Inr is"
    by (simp add: check_permutation_def)
qed

definition valid_ref :: "path_ref \<Rightarrow> bool" where
  "valid_ref r = (case r of RPath p \<Rightarrow> safe_path p | RId _ \<Rightarrow> True)"

lemma okRef_json: "valid_ref r \<Longrightarrow> \<exists>x. ref_json (Some r) = [x] \<and> okRef x = Inr r"
proof (cases r)
  case (RPath p)
  then show "valid_ref r \<Longrightarrow> ?thesis" by (simp add: ref_json_def okRef_def path_json_def valid_ref_def)
next
  case (RId n)
  have "natural_or m (JNum (NInt (int n))) = Inr n" for m using natural_or_num [of m n] by (simp add: num_json_def)
  then show ?thesis using RId by (simp add: ref_json_def okRef_def num_json_def)
qed

fun valid_wire :: "wire_op \<Rightarrow> bool" where
  "valid_wire (WDef _ p) = safe_path p"
| "valid_wire (WM r is) = (pred_option valid_ref r \<and> assertPermutation is = Inr ())"
| "valid_wire w = pred_option valid_ref (decode_target w)"

lemma verb_simps [simp]: "js ''s'' \<noteq> js ''r''" "js ''d'' \<noteq> js ''r''" "js ''d'' \<noteq> js ''s''" "js ''a'' \<noteq> js ''r''"
  "js ''a'' \<noteq> js ''s''" "js ''a'' \<noteq> js ''d''" "js ''t'' \<noteq> js ''r''" "js ''t'' \<noteq> js ''s''" "js ''t'' \<noteq> js ''d''" "js ''t'' \<noteq> js ''a''"
  "js ''p'' \<noteq> js ''r''" "js ''p'' \<noteq> js ''s''" "js ''p'' \<noteq> js ''d''" "js ''p'' \<noteq> js ''a''" "js ''p'' \<noteq> js ''t''"
  "js ''m'' \<noteq> js ''r''" "js ''m'' \<noteq> js ''s''" "js ''m'' \<noteq> js ''d''" "js ''m'' \<noteq> js ''a''" "js ''m'' \<noteq> js ''t''" "js ''m'' \<noteq> js ''p''"
  "js ''#'' \<noteq> js ''r''" "js ''#'' \<noteq> js ''s''" "js ''#'' \<noteq> js ''d''" "js ''#'' \<noteq> js ''a''" "js ''#'' \<noteq> js ''t''" "js ''#'' \<noteq> js ''p''" "js ''#'' \<noteq> js ''m''"
  by (simp_all add: js_def)

lemma assertValidWireOp_json: "valid_wire w \<Longrightarrow> assertValidWireOp (wire_json w) = Inr w"
proof -
  assume valid: "valid_wire w"
  have none: "ref_json None = []" by (simp add: ref_json_def)
  show ?thesis
  proof (cases "decode_target w")
    case None
    then show ?thesis using valid
      by (cases w) (auto simp: assertValidWireOp_def check_verb_def none check_string_def check_splice_def check_items_def path_json_def)
  next
    case (Some r)
    then have "valid_ref r" using valid by (cases w) auto
    then obtain x where "ref_json (Some r) = [x]" "okRef x = Inr r" using okRef_json by blast
    then show ?thesis using valid Some
      by (cases w) (auto simp: assertValidWireOp_def check_verb_def check_string_def check_splice_def check_items_def)
  qed
qed

section \<open>Decoding undoes encoding\<close>

lemma pathKey_inj: "pathKey p = pathKey q \<longleftrightarrow> p = q"
proof
  let ?f = "\<lambda>s. case s of SStr k \<Rightarrow> KStr k | SNum n \<Rightarrow> KNum n"
  assume "pathKey p = pathKey q"
  then have "map ?f p = map ?f q" unfolding pathKey_def stringify_inj by simp
  moreover have "inj ?f" by (auto simp: inj_def split: seg.splits)
  ultimately show "p = q" by simp
qed simp

definition codec_rel :: "delta_encoder \<Rightarrow> delta_decoder \<Rightarrow> bool" where
  "codec_rel e d \<longleftrightarrow> (\<forall>p id. map_of (enc_ids e) (pathKey p) = Some id \<longrightarrow> map_of (dec_paths d) id = Some p \<and> id < enc_nextId e)"

text \<open>A decoder knows the paths it stored are safe.\<close>

definition decoder_ok :: "delta_decoder \<Rightarrow> bool" where
  "decoder_ok d = list_all (\<lambda>(n, p). safe_path p) (dec_paths d)"

abbreviation valid_op :: "delta_op \<Rightarrow> bool" where
  "valid_op op \<equiv> assertValidOp op = Inr ()"

lemma valid_op_path: "valid_op op \<Longrightarrow> safe_path (op_path op)"
  by (cases op) (auto simp: assertValidOp_def elim!: rbindE)

lemma with_ref_valid: "valid_op op \<Longrightarrow> pred_option valid_ref r \<Longrightarrow> valid_wire (with_ref r op)"
  by (cases op) (auto simp: assertValidOp_def elim!: rbindE)

lemma decode_with_ref:
  assumes "valid_op op" "\<not> isReplace op" "resolve_ref d previous r = Inr (op_path op)"
  shows "decode_op d previous (with_ref r op) = Inr (d, Some (op_path op), [op])"
  using assms by (cases op) (auto simp: isReplace_def assertValidOp_def at_path_def elim!: rbindE)

text \<open>What the loop does on an operation that decodes.\<close>

lemma decode_loop_step:
  assumes "valid_wire w" "decode_op d previous w = Inr (d', previous', out)"
  shows "decode_loop d previous (wire_json w # rest) =
    (let (d'', r) = decode_loop d' previous' rest in (d'', rbind r (\<lambda>ops. Inr (out @ ops))))"
  using assms by (simp add: assertValidWireOp_json)

definition in_step :: "delta_encoder \<Rightarrow> delta_decoder \<Rightarrow> path option \<Rightarrow> bool" where
  "in_step e d previous \<longleftrightarrow> codec_rel e d \<and> enc_previous e = map_option pathKey previous"

lemma encode_op_decodes:
  assumes "valid_op op" "in_step e d previous" "encode_op e op = (out, e')"
  shows "\<exists>d' previous'. in_step e' d' previous' \<and> (\<forall>rest. decode_loop d previous (map wire_json out @ rest) =
    (let (d'', r) = decode_loop d' previous' rest in (d'', rbind r (\<lambda>ops. Inr (op # ops)))))"
proof (cases "isReplace op")
  case True
  then obtain v where op: "op = OpR v" by (cases op) (auto simp: isReplace_def)
  have "in_step e' (d\<lparr>dec_paths := []\<rparr>) None"
    using assms(3) op True by (auto simp: encode_op_def in_step_def codec_rel_def)
  moreover have "out = [WR v]" using assms(3) op True by (simp add: encode_op_def)
  ultimately show ?thesis
    by (intro exI [of _ "d\<lparr>dec_paths := []\<rparr>"] exI [of _ None])
      (simp add: decode_loop_step [where w = "WR v"] op split_def Let_def del: decode_loop.simps wire_json.simps)
next
  case False
  let ?p = "op_path op"
  have safe: "safe_path ?p" by (rule valid_op_path [OF assms(1)])
  have rel: "codec_rel e d" "enc_previous e = map_option pathKey previous" using assms(2) by (simp_all add: in_step_def)
  have single: "?thesis" if "out = [with_ref r op]" "pred_option valid_ref r" "resolve_ref d previous r = Inr ?p" "in_step e' d (Some ?p)" for r
    using that decode_loop_step [OF with_ref_valid [OF assms(1) that(2)] decode_with_ref [OF assms(1) False that(3)]]
    by (intro exI [of _ d] exI [of _ "Some ?p"]) simp
  consider (short) "enc_previous e = Some (pathKey ?p)"
    | (known) n where "enc_previous e \<noteq> Some (pathKey ?p)" "map_of (enc_ids e) (pathKey ?p) = Some n"
    | (second) "enc_previous e \<noteq> Some (pathKey ?p)" "map_of (enc_ids e) (pathKey ?p) = None" "List.member (enc_seen e) (pathKey ?p)"
    | (first) "enc_previous e \<noteq> Some (pathKey ?p)" "map_of (enc_ids e) (pathKey ?p) = None" "\<not> List.member (enc_seen e) (pathKey ?p)"
    by (cases "map_of (enc_ids e) (pathKey ?p)") blast+
  then show ?thesis
  proof cases
    case short
    then have "previous = Some ?p" using rel(2) by (cases previous) (auto simp: pathKey_inj)
    then show ?thesis using short assms(2,3) False
      by (intro single [of None]) (auto simp: encode_op_def resolve_ref_def Let_def)
  next
    case known
    then show ?thesis using rel(1) assms(3) False
      by (intro single [of "Some (RId n)"])
        (auto simp: encode_op_def resolve_ref_def Let_def codec_rel_def in_step_def valid_ref_def)
  next
    case first
    then show ?thesis using rel(1) assms(3) False safe
      by (intro single [of "Some (RPath ?p)"])
        (auto simp: encode_op_def resolve_ref_def Let_def codec_rel_def in_step_def valid_ref_def)
  next
    case second
    let ?n = "enc_nextId e"
    let ?d = "d\<lparr>dec_paths := map_set ?n ?p (dec_paths d)\<rparr>"
    have out: "out = [WDef ?n ?p, with_ref (Some (RId ?n)) op]"
      and e': "e' = e\<lparr>enc_nextId := Suc ?n, enc_ids := map_set (pathKey ?p) ?n (enc_ids e), enc_previous := Some (pathKey ?p)\<rparr>"
      using second assms(3) False by (auto simp: encode_op_def Let_def)
    have "in_step e' ?d (Some ?p)"
      using rel(1) by (auto simp: in_step_def codec_rel_def e' pathKey_inj less_Suc_eq)
    moreover have "decode_op ?d previous (with_ref (Some (RId ?n)) op) = Inr (?d, Some ?p, [op])"
      by (rule decode_with_ref [OF assms(1) False]) (simp add: resolve_ref_def)
    moreover have "valid_wire (with_ref (Some (RId ?n)) op)" by (rule with_ref_valid [OF assms(1)]) (simp add: valid_ref_def)
    ultimately show ?thesis
      by (intro exI [of _ ?d] exI [of _ "Some ?p"])
        (simp add: out decode_loop_step [where w = "WDef ?n ?p"] decode_loop_step [where w = "with_ref (Some (RId ?n)) op"] safe split_def Let_def
          del: decode_loop.simps wire_json.simps)
  qed
qed

lemma encode_loop_decodes:
  assumes "list_all valid_op ops" "in_step e d previous" "encode_loop e ops = (out, e')"
  shows "\<exists>d' previous'. decode_loop d previous (map wire_json out) = (d', Inr ops) \<and> in_step e' d' previous'"
  using assms
proof (induction ops arbitrary: e d previous out e')
  case Nil
  then show ?case by auto
next
  case (Cons op ops)
  obtain out1 e1 where 1: "encode_op e op = (out1, e1)" by fastforce
  obtain out2 where 2: "encode_loop e1 ops = (out2, e')" "out = out1 @ out2"
    using Cons.prems(3) 1 by (cases "encode_loop e1 ops") auto
  obtain d1 previous1 where s: "in_step e1 d1 previous1"
    "decode_loop d previous (map wire_json out1 @ map wire_json out2) =
      (let (d'', r) = decode_loop d1 previous1 (map wire_json out2) in (d'', rbind r (\<lambda>ops. Inr (op # ops))))"
    using encode_op_decodes [OF _ Cons.prems(2) 1] Cons.prems(1) by auto
  obtain d' previous' where "decode_loop d1 previous1 (map wire_json out2) = (d', Inr ops)" "in_step e' d' previous'"
    using Cons.IH [OF _ s(1) 2(1)] Cons.prems(1) by auto
  then show ?case using s(2) 2(2) by auto
qed

lemma encode_decodes:
  assumes "list_all valid_op ops" "codec_rel e d"
  shows "\<exists>d'. decode d (map wire_json (fst (encode e ops))) = (d', Inr ops) \<and> codec_rel (snd (encode e ops)) d'"
proof -
  have "in_step (e\<lparr>enc_previous := None\<rparr>) d None" using assms(2) by (simp add: in_step_def codec_rel_def)
  moreover obtain out e' where "encode_loop (e\<lparr>enc_previous := None\<rparr>) ops = (out, e')" by fastforce
  ultimately show ?thesis using encode_loop_decodes [OF assms(1)] by (fastforce simp: encode_def decode_def in_step_def)
qed

text \<open>A base batch resets the encoder, so its output does not depend on the history.\<close>

lemma encode_base:
  assumes "isBase ops"
  shows "encode e ops = encode encoder ops"
  using assms by (cases e) (auto simp: isBase_def encode_def encode_op_def encoder_def split: list.splits)

section \<open>Streams of batches\<close>

fun encode_all :: "('e \<Rightarrow> 'a \<Rightarrow> 'w \<times> 'e) \<Rightarrow> 'e \<Rightarrow> 'a list \<Rightarrow> 'w list \<times> 'e" where
  "encode_all enc e [] = ([], e)"
| "encode_all enc e (b # bs) = (let (w, e') = enc e b; (ws, e'') = encode_all enc e' bs in (w # ws, e''))"

fun decode_all :: "('d \<Rightarrow> 'w \<Rightarrow> 'd \<times> ('x, 'a) result) \<Rightarrow> 'd \<Rightarrow> 'w list \<Rightarrow> ('x, 'a list) result" where
  "decode_all dec d [] = Inr []"
| "decode_all dec d (w # ws) = (let (d', r) = dec d w in rbind r (\<lambda>b. rbind (decode_all dec d' ws) (\<lambda>bs. Inr (b # bs))))"

text \<open>
  A stateful codec: encoder and decoder stay related, and a base batch is a point from which a fresh
  decoder can start.
\<close>

locale batch_codec =
  fixes enc :: "'e \<Rightarrow> 'a \<Rightarrow> 'w \<times> 'e" and dec :: "'d \<Rightarrow> 'w \<Rightarrow> 'd \<times> ('x, 'a) result"
    and rel :: "'e \<Rightarrow> 'd \<Rightarrow> bool" and valid :: "'a \<Rightarrow> bool" and base :: "'a \<Rightarrow> bool" and fresh :: 'd
  assumes step: "valid b \<Longrightarrow> rel e d \<Longrightarrow> \<exists>d'. dec d (fst (enc e b)) = (d', Inr b) \<and> rel (snd (enc e b)) d'"
    and restart: "valid b \<Longrightarrow> base b \<Longrightarrow> \<exists>d'. dec fresh (fst (enc e b)) = (d', Inr b) \<and> rel (snd (enc e b)) d'"
begin

lemma stream: "list_all valid bs \<Longrightarrow> rel e d \<Longrightarrow> decode_all dec d (fst (encode_all enc e bs)) = Inr bs"
proof (induction bs arbitrary: e d)
  case (Cons b bs)
  obtain d' where "dec d (fst (enc e b)) = (d', Inr b)" "rel (snd (enc e b)) d'" using step Cons.prems by force
  then show ?case using Cons by (simp add: split_def Let_def)
qed simp

lemma recover: "list_all valid (b # bs) \<Longrightarrow> base b \<Longrightarrow> decode_all dec fresh (fst (encode_all enc e (b # bs))) = Inr (b # bs)"
proof -
  assume "list_all valid (b # bs)" "base b"
  moreover from this obtain d' where "dec fresh (fst (enc e b)) = (d', Inr b)" "rel (snd (enc e b)) d'" using restart by force
  ultimately show ?thesis using stream by (simp add: split_def Let_def)
qed

end

text \<open>The codec of the code: what crosses the boundary are the tuples of the wire operations.\<close>

definition encode_json :: "delta_encoder \<Rightarrow> delta_op list \<Rightarrow> json list \<times> delta_encoder" where
  "encode_json e ops = apfst (map wire_json) (encode e ops)"

lemma encode_json_base: "isBase ops \<Longrightarrow> encode_json e ops = encode_json encoder ops"
  unfolding encode_json_def by (simp only: encode_base [of ops e])

lemma encode_json_decodes:
  assumes "list_all valid_op ops" "codec_rel e d"
  shows "\<exists>d'. decode d (fst (encode_json e ops)) = (d', Inr ops) \<and> codec_rel (snd (encode_json e ops)) d'"
  using encode_decodes [OF assms] by (simp add: encode_json_def)

lemma codec_rel_fresh: "codec_rel encoder d"
  by (simp add: codec_rel_def encoder_def)

interpretation delta: batch_codec encode_json decode codec_rel "list_all valid_op" isBase decoder
proof
  fix b e
  assume "list_all valid_op b" "isBase b"
  then show "\<exists>d'. decode decoder (fst (encode_json e b)) = (d', Inr b) \<and> codec_rel (snd (encode_json e b)) d'"
    using encode_json_decodes [OF _ codec_rel_fresh] encode_json_base by metis
qed (rule encode_json_decodes)

section \<open>What a decoder can produce\<close>

lemma check_segments_safe: "check_segments vs = Inr p \<Longrightarrow> safe_path p"
  by (induction vs arbitrary: p) (auto elim!: rbindE split: json.splits if_splits option.splits)

lemma check_permutation_ok: "check_permutation v = Inr is \<Longrightarrow> assertPermutation is = Inr ()"
  by (auto simp: check_permutation_def elim!: rbindE split: json.splits)

lemma okRef_valid: "okRef v = Inr r \<Longrightarrow> valid_ref r"
  by (auto simp: okRef_def valid_ref_def check_segments_safe elim!: rbindE split: json.splits)

lemma check_verb_valid: "check_verb verb args = Inr w \<Longrightarrow> valid_wire w"
  by (auto simp: check_verb_def check_splice_def okRef_valid check_segments_safe check_permutation_ok
      elim!: rbindE split: if_splits list.splits json.splits)

lemma assertValidWireOp_valid: "assertValidWireOp raw = Inr w \<Longrightarrow> valid_wire w"
  by (auto simp: assertValidWireOp_def check_verb_valid split: json.splits list.splits)

lemma decode_op_valid:
  assumes "decode_op d previous w = Inr (d', previous', out)" "valid_wire w" "decoder_ok d" "pred_option safe_path previous"
  shows "decoder_ok d' \<and> pred_option safe_path previous' \<and> list_all valid_op out"
proof -
  have ref: "safe_path p" if "resolve_ref d previous r = Inr p" "pred_option valid_ref r" for r p
    using that assms(3,4) by (auto simp: resolve_ref_def decoder_ok_def valid_ref_def list_all_iff
        split: option.splits path_ref.splits dest: map_of_SomeD)
  have store: "decoder_ok (d\<lparr>dec_paths := map_set n p (dec_paths d)\<rparr>)" if "safe_path p" for n p
  proof -
    have "set (map_set n p xs) \<subseteq> insert (n, p) (set xs)" for xs :: "(nat \<times> path) list"
      by (induction n p xs rule: map_set.induct) auto
    then show ?thesis using assms(3) that by (fastforce simp: decoder_ok_def list_all_iff)
  qed
  have plain_op: "?thesis" if eq: "w = w'" and target: "valid_wire w' \<Longrightarrow> pred_option valid_ref (decode_target w')"
      and step: "decode_op d previous w' = rbind (resolve_ref d previous (decode_target w')) (\<lambda>p. rbind (decode_body w' p) (\<lambda>op. Inr (d, Some p, [op])))"
      and body: "\<And>p op. decode_body w' p = Inr op \<Longrightarrow> safe_path p \<Longrightarrow> valid_wire w' \<Longrightarrow> valid_op op" for w'
  proof -
    obtain p op where "resolve_ref d previous (decode_target w') = Inr p" "decode_body w' p = Inr op" "d' = d" "previous' = Some p" "out = [op]"
      using assms(1) eq step by (auto elim!: rbindE)
    then show ?thesis using target body ref assms(2,3) eq by simp
  qed
  show ?thesis
  proof (cases w)
    case (WDef n p)
    then show ?thesis using assms store by auto
  next
    case (WR v)
    then show ?thesis using assms by (auto simp: decoder_ok_def assertValidOp_def)
  qed (erule plain_op; force simp: at_path_def assertValidOp_def split: if_splits)+
qed

lemma decode_loop_valid:
  "decoder_ok d \<Longrightarrow> pred_option safe_path previous \<Longrightarrow> decode_loop d previous wire = (d', r) \<Longrightarrow>
     decoder_ok d' \<and> (\<forall>ops. r = Inr ops \<longrightarrow> list_all valid_op ops)"
proof (induction wire arbitrary: d previous d' r)
  case (Cons raw wire)
  show ?case
  proof (cases "rbind (assertValidWireOp raw) (decode_op d previous)")
    case (Inl e)
    then show ?thesis using Cons.prems by auto
  next
    case (Inr t)
    obtain d1 previous1 out where t: "t = (d1, previous1, out)" by (cases t)
    obtain w where w: "assertValidWireOp raw = Inr w" "decode_op d previous w = Inr (d1, previous1, out)"
      using Inr t by (auto elim!: rbindE)
    obtain d2 r2 where 2: "decode_loop d1 previous1 wire = (d2, r2)" by fastforce
    have "decoder_ok d1 \<and> pred_option safe_path previous1 \<and> list_all valid_op out"
      using decode_op_valid [OF w(2) assertValidWireOp_valid [OF w(1)] Cons.prems(1,2)] .
    then show ?thesis using Cons.IH [OF _ _ 2] Cons.prems(3) Inr t 2 by (auto elim!: rbindE)
  qed
qed auto

section \<open>Properties\<close>

text \<open>
  C11. The path dictionary loses nothing: every sequence of batches of valid operations, encoded by one
  encoder, is decoded to the same sequence by a decoder that reads all of them from the start.
\<close>

theorem codec_stream_roundtrip:
  assumes "list_all (list_all valid_op) batches"
  shows "decode_all decode decoder (fst (encode_all encode_json encoder batches)) = Inr batches"
  using assms codec_rel_fresh by (rule delta.stream)

text \<open>
  C26. A base batch is a recovery point: whatever the encoder has sent before, a fresh decoder that
  starts at a batch beginning with a replacement decodes it and everything after it.
\<close>

theorem codec_recovery:
  assumes "list_all (list_all valid_op) (base # batches)" "isBase base"
  shows "decode_all decode decoder (fst (encode_all encode_json history (base # batches))) = Inr (base # batches)"
  using assms by (rule delta.recover)

text \<open>
  Whatever arrives on the wire, a decoder only ever produces operations that pass the validation
  of the applier (no reserved segment, no empty path for a property, bijective permutations),
  and it stays in a state from which this holds for the next batch, also after an error.
\<close>

lemma decode_only_valid:
  assumes "decoder_ok d"
  shows "decoder_ok (fst (decode d wire)) \<and> (\<forall>ops. snd (decode d wire) = Inr ops \<longrightarrow> list_all valid_op ops)"
  using decode_loop_valid [OF assms, of None wire] by (cases "decode_loop d None wire") (simp add: decode_def)

section \<open>Witnesses\<close>

definition sample_batches :: "delta_op list list" where
  "sample_batches =
     [[OpR (JObj [(js ''t'', JStr [])])],
      [OpA [SStr (js ''t'')] (js ''x''), OpA [SStr (js ''t'')] (js ''y'')],
      [OpA [SStr (js ''t'')] (js ''z'')],
      [OpT [SStr (js ''t'')] 1, OpM [] []]]"

lemma sample_batches_wire:
  "fst (encode_all encode_json encoder sample_batches) =
     [[wire_json (WR (JObj [(js ''t'', JStr [])]))],
      [wire_json (WA (Some (RPath [SStr (js ''t'')])) (js ''x'')), wire_json (WA None (js ''y''))],
      [wire_json (WDef 0 [SStr (js ''t'')]), wire_json (WA (Some (RId 0)) (js ''z''))],
      [wire_json (WT (Some (RId 0)) 1), wire_json (WM (Some (RPath [])) [])]]"
  by code_simp

lemma sample_batches_valid: "list_all (list_all valid_op) sample_batches"
  by code_simp

theorem codec_stream_roundtrip_witness:
  "decode_all decode decoder (fst (encode_all encode_json encoder sample_batches)) = Inr sample_batches"
  by (rule codec_stream_roundtrip [OF sample_batches_valid])

theorem codec_recovery_witness:
  "decode_all decode decoder (fst (encode_all encode_json
     \<lparr>enc_seen = [pathKey [SStr (js ''t'')]], enc_ids = [(pathKey [SStr (js ''t'')], 0)], enc_nextId = 1, enc_previous = None\<rparr>
     sample_batches)) = Inr sample_batches"
  unfolding sample_batches_def
  by (rule codec_recovery) (use sample_batches_valid in \<open>simp_all add: sample_batches_def isBase_def isReplace_def\<close>)

end
