(* ===== verification/ReplicatedState.thy ===== *)
theory ReplicatedState
  imports DeltaDiff DeltaCodec
begin

text \<open>
  Replicated state, \<^verbatim>\<open>packages/chord/src/services/state.ts\<close>: the source that publishes every committed revision as a
  numbered batch of operations, and the replica that follows it.
\<close>

section \<open>The source\<close>

record 'c publication =
  pub_value :: rjson
  pub_ops :: "delta_op list"
  pub_sequence :: nat
  pub_context :: 'c

text \<open>\<^verbatim>\<open>MutableReplicatedStateImpl\<close>. Listeners are named by \<^typ>\<open>'l\<close>; the map of value listeners gives the sequence each was hydrated at.\<close>

record ('l, 'c) source =
  src_listeners :: "('l \<times> nat) list"
  src_sourceListeners :: "'l list"
  src_publications :: "'c publication list"
  src_value :: rjson
  src_sequence :: nat
  src_changing :: bool
  src_delivering :: bool

definition new_source :: "rjson \<Rightarrow> ('l, 'c) source" where
  "new_source initial = \<lparr>src_listeners = [], src_sourceListeners = [], src_publications = [], src_value = initial,
     src_sequence = 0, src_changing = False, src_delivering = False\<rparr>"

text \<open>The calls a source makes to its listeners, and what a listener may do: replace the state, and throw.\<close>

datatype ('l, 'c) call = SourceCall 'l "delta_op list" nat 'c | UpdateCall 'l rjson nat 'c | HydrateCall 'l rjson nat

type_synonym ('l, 'c, 'e) reactions = "('l, 'c) call \<Rightarrow> (rjson \<times> 'c) list \<times> 'e option"

datatype 'e source_error = Reentrant | Listener 'e | Aggregate "'e list" | Produce 'e

text \<open>The first part of \<^verbatim>\<open>#commit\<close>: a revision that differs is stored, numbered and queued.\<close>

definition enqueue :: "(jsnum \<Rightarrow> nat) \<Rightarrow> ('l, 'c) source \<Rightarrow> rjson \<times> 'c \<Rightarrow> ('l, 'c) source" where
  "enqueue numlen s nc =
     (let ops = diffRevisions numlen (src_value s) (fst nc) in
      if ops = [] then s
      else s\<lparr>src_value := fst nc, src_sequence := Suc (src_sequence s),
        src_publications := src_publications s @
          [\<lparr>pub_value = fst nc, pub_ops = ops, pub_sequence = Suc (src_sequence s), pub_context = snd nc\<rparr>]\<rparr>)"

text \<open>
  Calling a listener while the queue is being delivered: the commits it makes are only queued
  (\<^verbatim>\<open>#delivering\<close> is set), what it throws is collected.
\<close>

type_synonym ('l, 'c, 'e) delivering = "('l, 'c) source \<times> ('l, 'c) call list \<times> 'e list"

definition invoke :: "(jsnum \<Rightarrow> nat) \<Rightarrow> ('l, 'c, 'e) reactions \<Rightarrow> ('l, 'c, 'e) delivering \<Rightarrow> ('l, 'c) call \<Rightarrow> ('l, 'c, 'e) delivering" where
  "invoke numlen react st call = (case st of (s, log, errors) \<Rightarrow>
     (let (commits, thrown) = react call in
      (foldl (enqueue numlen) s commits, log @ [call],
       errors @ (case thrown of None \<Rightarrow> [] | Some e \<Rightarrow> [e]))))"

definition publication_calls :: "('l, 'c) source \<Rightarrow> 'c publication \<Rightarrow> ('l, 'c) call list" where
  "publication_calls s p =
     map (\<lambda>l. SourceCall l (pub_ops p) (pub_sequence p) (pub_context p)) (src_sourceListeners s) @
     map (\<lambda>(l, h). UpdateCall l (pub_value p) (pub_sequence p) (pub_context p))
       (filter (\<lambda>(l, h). \<not> pub_sequence p \<le> h) (src_listeners s))"

text \<open>The delivery loop. It need not end: a listener can commit a new revision on every call.\<close>

partial_function (option) drain :: "(jsnum \<Rightarrow> nat) \<Rightarrow> ('l, 'c, 'e) reactions \<Rightarrow> ('l, 'c, 'e) delivering \<Rightarrow> ('l, 'c, 'e) delivering option" where
  "drain numlen react st = (case st of (s, log, errors) \<Rightarrow>
     (case src_publications s of
        [] \<Rightarrow> Some (s, log, errors)
      | p # ps \<Rightarrow>
          drain numlen react
            (foldl (invoke numlen react) (s\<lparr>src_publications := ps\<rparr>, log, errors) (publication_calls s p))))"

definition throw_errors :: "'e list \<Rightarrow> ('e source_error, unit) result" where
  "throw_errors errors = (case errors of [] \<Rightarrow> Inr () | [e] \<Rightarrow> Inl (Listener e) | _ \<Rightarrow> Inl (Aggregate errors))"

definition commit :: "(jsnum \<Rightarrow> nat) \<Rightarrow> ('l, 'c, 'e) reactions \<Rightarrow> ('l, 'c) source \<Rightarrow> rjson \<Rightarrow> 'c \<Rightarrow>
    (('l, 'c) source \<times> ('l, 'c) call list \<times> ('e source_error, unit) result) option" where
  "commit numlen react s next context =
     (if diffRevisions numlen (src_value s) next = [] then Some (s, [], Inr ())
      else
        (let s' = enqueue numlen s (next, context) in
         if src_delivering s then Some (s', [], Inr ())
         else
           (case drain numlen react (s'\<lparr>src_delivering := True\<rparr>, [], []) of
              None \<Rightarrow> None
            | Some (s'', log, errors) \<Rightarrow> Some (s''\<lparr>src_delivering := False\<rparr>, log, throw_errors errors))))"

text \<open>
  \<^verbatim>\<open>replace\<close> and \<^verbatim>\<open>change\<close>. The value that the change callback produces, \<^verbatim>\<open>produceWithMetadata\<close> followed by the
  store's \<^verbatim>\<open>commit\<close>, is the parameter \<^term>\<open>produce\<close>; an unchanged value keeps its identity.
\<close>

definition replace :: "(jsnum \<Rightarrow> nat) \<Rightarrow> ('l, 'c, 'e) reactions \<Rightarrow> ('l, 'c) source \<Rightarrow> rjson \<Rightarrow> 'c \<Rightarrow>
    (('l, 'c) source \<times> ('l, 'c) call list \<times> ('e source_error, unit) result) option" where
  "replace numlen react s next context =
     (if src_changing s then Some (s, [], Inl Reentrant) else commit numlen react s next context)"

definition change :: "(jsnum \<Rightarrow> nat) \<Rightarrow> ('l, 'c, 'e) reactions \<Rightarrow> ('l, 'c) source \<Rightarrow> (rjson \<Rightarrow> ('e, rjson) result) \<Rightarrow> 'c \<Rightarrow>
    (('l, 'c) source \<times> ('l, 'c) call list \<times> ('e source_error, unit) result) option" where
  "change numlen react s produce context =
     (if src_changing s then Some (s, [], Inl Reentrant)
      else case produce (src_value s) of
        Inl e \<Rightarrow> Some (s, [], Inl (Produce e))
      | Inr next \<Rightarrow>
          if strict_eq next (src_value s) then Some (s, [], Inr ()) else commit numlen react s next context)"

text \<open>\<^verbatim>\<open>subscribe\<close>: a listener that throws on its hydration is not kept.\<close>

definition subscribe :: "('l, 'c, 'e) reactions \<Rightarrow> ('l, 'c) source \<Rightarrow> 'l \<Rightarrow> ('l, 'c) source \<times> ('e source_error, unit) result" where
  "subscribe react s l =
     (let s' = s\<lparr>src_listeners := map_set l (src_sequence s) (src_listeners s)\<rparr> in
      case snd (react (HydrateCall l (src_value s) (src_sequence s))) of
        None \<Rightarrow> (s', Inr ())
      | Some e \<Rightarrow> (s'\<lparr>src_listeners := map_delete l (src_listeners s')\<rparr>, Inl (Listener e)))"

definition unsubscribe :: "('l, 'c) source \<Rightarrow> 'l \<Rightarrow> ('l, 'c) source" where
  "unsubscribe s l = s\<lparr>src_listeners := map_delete l (src_listeners s)\<rparr>"

definition subscribe_source :: "('l, 'c) source \<Rightarrow> 'l \<Rightarrow> ('l, 'c) source" where
  "subscribe_source s l = s\<lparr>src_sourceListeners := set_add l (src_sourceListeners s)\<rparr>"

section \<open>The replica\<close>

record 'l replica =
  rep_listeners :: "'l list"
  rep_value :: "json option"
  rep_sequence :: "nat option"

datatype replica_error = NotBase | BeforeHydration | SequenceGap | Apply delta_error | NotStrictJson

definition new_replica :: "'l replica" where
  "new_replica = \<lparr>rep_listeners = [], rep_value = None, rep_sequence = None\<rparr>"

definition clear :: "'l replica \<Rightarrow> 'l replica" where
  "clear r = r\<lparr>rep_value := None, rep_sequence := None\<rparr>"

text \<open>\<^verbatim>\<open>JsonRevisionStore.adopt\<close> on a Json value: it refuses a number that is not finite.\<close>

fun strict_json :: "json \<Rightarrow> bool" where
  "strict_json (JNum n) = isFinite n"
| "strict_json (JArr xs) = list_all strict_json xs"
| "strict_json (JObj ps) = list_all (\<lambda>p. strict_json (snd p)) ps"
| "strict_json _ = True"

definition adopt :: "json option \<Rightarrow> (replica_error, json) result" where
  "adopt v = (case v of None \<Rightarrow> Inl NotStrictJson | Some w \<Rightarrow> if strict_json w then Inr w else Inl NotStrictJson)"

definition replica_apply :: "json option \<Rightarrow> delta_op list \<Rightarrow> (replica_error, json) result" where
  "replica_apply v ops = (case applyImmutable v ops of Inl e \<Rightarrow> Inl (Apply e) | Inr w \<Rightarrow> adopt w)"

text \<open>
  A delivery calls every listener; what a listener throws goes to \<^verbatim>\<open>reportError\<close> and changes nothing here.
  The result of an update is the list of the listeners called with the value and the sequence.
\<close>

definition deliverAll :: "'l replica \<Rightarrow> nat \<Rightarrow> ('l \<times> json \<times> nat) list" where
  "deliverAll r sequence = (case rep_value r of None \<Rightarrow> [] | Some v \<Rightarrow> map (\<lambda>l. (l, v, sequence)) (rep_listeners r))"

definition install :: "'l replica \<Rightarrow> nat \<Rightarrow> (replica_error, json) result \<Rightarrow> 'l replica \<times> (replica_error, ('l \<times> json \<times> nat) list) result" where
  "install r sequence next = (case next of
      Inl e \<Rightarrow> (clear r, Inl e)
    | Inr v \<Rightarrow> (let r' = r\<lparr>rep_sequence := Some sequence, rep_value := Some v\<rparr> in (r', Inr (deliverAll r' sequence))))"

definition hydrate :: "'l replica \<Rightarrow> nat \<Rightarrow> delta_op list \<Rightarrow> 'l replica \<times> (replica_error, ('l \<times> json \<times> nat) list) result" where
  "hydrate r sequence ops =
     install r sequence (if isBase ops then replica_apply None ops else Inl NotBase)"

definition update :: "'l replica \<Rightarrow> nat \<Rightarrow> delta_op list \<Rightarrow> 'l replica \<times> (replica_error, ('l \<times> json \<times> nat) list) result" where
  "update r sequence ops =
     (case (rep_sequence r, rep_value r) of
        (Some current, Some v) \<Rightarrow>
          if sequence \<noteq> current + 1 then (clear r, Inl SequenceGap)
          else install r sequence (replica_apply (Some v) ops)
      | _ \<Rightarrow> (r, Inl BeforeHydration))"

definition replica_subscribe :: "'l replica \<Rightarrow> 'l \<Rightarrow> 'l replica \<times> ('l \<times> json \<times> nat) list" where
  "replica_subscribe r l =
     (r\<lparr>rep_listeners := set_add l (rep_listeners r)\<rparr>,
      case (rep_value r, rep_sequence r) of (Some v, Some n) \<Rightarrow> [(l, v, n)] | _ \<Rightarrow> [])"

section \<open>Chains of publications\<close>

text \<open>
  The publications after sequence \<^term>\<open>n\<close> with value \<^term>\<open>v\<close>, up to sequence \<^term>\<open>m\<close> with value \<^term>\<open>w\<close>: numbered without
  a gap, each with the operations from its predecessor.
\<close>

fun chain :: "(jsnum \<Rightarrow> nat) \<Rightarrow> nat \<Rightarrow> rjson \<Rightarrow> 'c publication list \<Rightarrow> nat \<Rightarrow> rjson \<Rightarrow> bool" where
  "chain numlen n v [] m w \<longleftrightarrow> m = n \<and> w = v"
| "chain numlen n v (p # ps) m w \<longleftrightarrow> pub_sequence p = Suc n \<and> pub_ops p = diffRevisions numlen v (pub_value p) \<and>
     chain numlen (Suc n) (pub_value p) ps m w"

lemma chain_append: "chain numlen n v (ps @ qs) m w \<longleftrightarrow> (\<exists>k u. chain numlen n v ps k u \<and> chain numlen k u qs m w)"
  by (induction ps arbitrary: n v) auto

definition queued :: "(jsnum \<Rightarrow> nat) \<Rightarrow> (rjson \<Rightarrow> bool) \<Rightarrow> nat \<Rightarrow> rjson \<Rightarrow> ('l, 'c) source \<Rightarrow> bool" where
  "queued numlen Q n v s \<longleftrightarrow> chain numlen n v (src_publications s) (src_sequence s) (src_value s) \<and>
     list_all (Q \<circ> pub_value) (src_publications s)"

text \<open>What a delivery leaves alone.\<close>

definition same_listeners :: "('l, 'c) source \<Rightarrow> ('l, 'c) source \<Rightarrow> bool" where
  "same_listeners s t \<longleftrightarrow> src_listeners t = src_listeners s \<and> src_sourceListeners t = src_sourceListeners s \<and>
     src_delivering t = src_delivering s \<and> src_changing t = src_changing s"

lemma enqueue_queued: "queued numlen Q n v s \<Longrightarrow> Q (fst nc) \<Longrightarrow> queued numlen Q n v (enqueue numlen s nc) \<and> same_listeners s (enqueue numlen s nc)"
  by (auto simp: queued_def enqueue_def Let_def chain_append same_listeners_def)

lemma commits_queued:
  "queued numlen Q n v s \<Longrightarrow> list_all (Q \<circ> fst) cs \<Longrightarrow>
     queued numlen Q n v (foldl (enqueue numlen) s cs) \<and> same_listeners s (foldl (enqueue numlen) s cs)"
proof (induction cs arbitrary: s)
  case (Cons c cs)
  then have c: "queued numlen Q n v (enqueue numlen s c)" "same_listeners s (enqueue numlen s c)"
    using enqueue_queued [of numlen Q n v s c] by auto
  then show ?case using Cons.IH [OF c(1)] Cons.prems(2) by (auto simp: same_listeners_def)
qed (simp add: same_listeners_def)

definition reacts_in :: "(rjson \<Rightarrow> bool) \<Rightarrow> ('l, 'c, 'e) reactions \<Rightarrow> bool" where
  "reacts_in Q react \<longleftrightarrow> (\<forall>call. list_all (Q \<circ> fst) (fst (react call)))"

lemma calls_queued:
  assumes "foldl (invoke numlen react) (s, log, errors) calls = (s', log', errors')" "queued numlen Q n v s" "reacts_in Q react"
  shows "queued numlen Q n v s' \<and> same_listeners s s' \<and> log' = log @ calls"
  using assms(1,2)
proof (induction calls arbitrary: s log errors)
  case Nil
  then show ?case by (simp add: same_listeners_def)
next
  case (Cons call calls)
  let ?s = "foldl (enqueue numlen) s (fst (react call))"
  have q: "queued numlen Q n v ?s" "same_listeners s ?s"
    using commits_queued [OF Cons.prems(2)] assms(3) by (auto simp: reacts_in_def)
  have "foldl (invoke numlen react) (?s, log @ [call], errors @ (case snd (react call) of None \<Rightarrow> [] | Some e \<Rightarrow> [e])) calls = (s', log', errors')"
    using Cons.prems(1) by (simp add: invoke_def [of _ _ "(s, log, errors)"] split_def Let_def)
  from Cons.IH [OF this q(1)] show ?case using q(2) by (auto simp: same_listeners_def)
qed

lemma publication_calls_same: "same_listeners s t \<Longrightarrow> publication_calls t = publication_calls s"
  by (rule ext) (simp add: publication_calls_def same_listeners_def)

lemma drain_queued:
  assumes "drain numlen react st = Some st'" "reacts_in Q react"
  shows "case st of (s, log, errors) \<Rightarrow> case st' of (s', log', errors') \<Rightarrow> queued numlen Q n v s \<longrightarrow>
    (\<exists>ps. chain numlen n v ps (src_sequence s') (src_value s') \<and> list_all (Q \<circ> pub_value) ps \<and> src_publications s' = [] \<and>
       same_listeners s s' \<and> log' = log @ concat (map (publication_calls s) ps))"
  using assms
proof (induction arbitrary: n v rule: drain.raw_induct [rotated, consumes 1, case_names step])
  case (step f numlen react st st' n v)
  obtain s log errors where st: "st = (s, log, errors)" by (cases st)
  show ?case
  proof (cases "src_publications s")
    case Nil
    then show ?thesis using step(2) st by (auto simp: queued_def same_listeners_def intro!: exI [of _ "[]"])
  next
    case (Cons p ps)
    obtain s1 log1 errors1 where 1: "foldl (invoke numlen react) (s\<lparr>src_publications := ps\<rparr>, log, errors) (publication_calls s p) = (s1, log1, errors1)"
      by (cases "foldl (invoke numlen react) (s\<lparr>src_publications := ps\<rparr>, log, errors) (publication_calls s p)")
    have rec: "f numlen react (s1, log1, errors1) = Some st'" using step(2) st Cons 1 by simp
    obtain s' log' errors' where st': "st' = (s', log', errors')" by (cases st')
    have "\<exists>ps. chain numlen n v ps (src_sequence s') (src_value s') \<and> list_all (Q \<circ> pub_value) ps \<and> src_publications s' = [] \<and>
       same_listeners s s' \<and> log' = log @ concat (map (publication_calls s) ps)" if q: "queued numlen Q n v s"
    proof -
      have "queued numlen Q (Suc n) (pub_value p) (s\<lparr>src_publications := ps\<rparr>)" "pub_sequence p = Suc n"
        "pub_ops p = diffRevisions numlen v (pub_value p)" "Q (pub_value p)"
        using q Cons by (auto simp: queued_def)
      note calls = calls_queued [OF 1 this(1) step(3)] and p = this(2-4)
      from step(1) [OF rec step(3), of "Suc n" "pub_value p"] obtain qs where
        "chain numlen (Suc n) (pub_value p) qs (src_sequence s') (src_value s')" "list_all (Q \<circ> pub_value) qs" "src_publications s' = []"
        "same_listeners s1 s'" "log' = log1 @ concat (map (publication_calls s1) qs)"
        using calls by (simp only: st' prod.case) blast
      moreover have same: "same_listeners s s1" using calls by (simp add: same_listeners_def)
      ultimately show ?thesis using p calls publication_calls_same [OF same]
        by (intro exI [of _ "p # qs"]) (auto simp: same_listeners_def)
    qed
    then show ?thesis by (simp only: st st' prod.case) blast
  qed
qed

text \<open>What one listener of the operations is told.\<close>

fun told :: "'l \<Rightarrow> ('l, 'c) call \<Rightarrow> (delta_op list \<times> nat) list" where
  "told l (SourceCall k ops n c) = (if k = l then [(ops, n)] else [])"
| "told l _ = []"

definition source_calls :: "'l \<Rightarrow> ('l, 'c) call list \<Rightarrow> (delta_op list \<times> nat) list" where
  "source_calls l log = concat (map (told l) log)"

abbreviation message :: "'c publication \<Rightarrow> delta_op list \<times> nat" where
  "message p \<equiv> (pub_ops p, pub_sequence p)"

lemma source_calls_publication:
  assumes "distinct (src_sourceListeners s)" "l \<in> set (src_sourceListeners s)"
  shows "source_calls l (publication_calls s p) = [message p]"
proof -
  have "distinct ls \<Longrightarrow> concat (map (\<lambda>k. told l (SourceCall k (pub_ops p) (pub_sequence p) (pub_context p))) ls) = (if l \<in> set ls then [message p] else [])" for ls
    by (induction ls) auto
  moreover have "concat (map (\<lambda>x. told l (case x of (k, h) \<Rightarrow> UpdateCall k (pub_value p) (pub_sequence p) (pub_context p))) xs) = []" for xs
    by (auto simp: concat_eq_Nil_conv)
  ultimately show ?thesis using assms by (simp add: source_calls_def publication_calls_def comp_def)
qed

lemma source_calls_publications:
  assumes "distinct (src_sourceListeners s)" "l \<in> set (src_sourceListeners s)"
  shows "source_calls l (concat (map (publication_calls s) ps)) = map message ps"
  using source_calls_publication [OF assms] by (induction ps) (auto simp: source_calls_def)

lemma commit_chain:
  assumes "commit numlen react s next context = Some (s', log, outcome)"
    and "src_publications s = []" "\<not> src_delivering s" "reacts_in Q react" "Q next" "Q (src_value s)"
  shows "\<exists>ps. chain numlen (src_sequence s) (src_value s) ps (src_sequence s') (src_value s') \<and> list_all (Q \<circ> pub_value) ps \<and>
    src_publications s' = [] \<and> same_listeners s s' \<and> log = concat (map (publication_calls s) ps)"
proof (cases "diffRevisions numlen (src_value s) next = []")
  case True
  then show ?thesis using assms by (auto simp: commit_def same_listeners_def intro!: exI [of _ "[]"])
next
  case False
  let ?s = "(enqueue numlen s (next, context))\<lparr>src_delivering := True\<rparr>"
  obtain t errors where t: "drain numlen react (?s, [], []) = Some (t, log, errors)" "s' = t\<lparr>src_delivering := False\<rparr>"
    using assms(1,3) False by (auto simp: commit_def Let_def split: option.splits)
  have "queued numlen Q (src_sequence s) (src_value s) s" using assms(2) by (simp add: queued_def)
  then have q: "queued numlen Q (src_sequence s) (src_value s) ?s" and same: "same_listeners s (enqueue numlen s (next, context))"
    using enqueue_queued [of numlen Q _ _ s "(next, context)"] assms(5) by (auto simp: queued_def)
  have calls: "publication_calls ?s = publication_calls s"
    using same by (intro ext) (simp add: publication_calls_def same_listeners_def)
  from drain_queued [OF t(1) assms(4), of "src_sequence s" "src_value s"] q obtain ps where
    "chain numlen (src_sequence s) (src_value s) ps (src_sequence t) (src_value t)" "list_all (Q \<circ> pub_value) ps" "src_publications t = []"
    "same_listeners ?s t" "log = concat (map (publication_calls s) ps)"
    by (auto simp: calls)
  then show ?thesis using t(2) same assms(3) by (auto simp: same_listeners_def)
qed

section \<open>Following a source\<close>

fun deltas :: "('v \<Rightarrow> 'v \<Rightarrow> 'o) \<Rightarrow> 'v \<Rightarrow> 'v list \<Rightarrow> 'o list" where
  "deltas diff a [] = []"
| "deltas diff a (b # bs) = diff a b # deltas diff b bs"

text \<open>A diff whose result, applied to anything that simulates the old value, simulates the new one.\<close>

locale replication =
  fixes diff :: "'v \<Rightarrow> 'v \<Rightarrow> 'o" and apply_delta :: "'w \<Rightarrow> 'o \<Rightarrow> ('e, 'w) result"
    and sim :: "'w \<Rightarrow> 'v \<Rightarrow> bool" and rev :: "'v \<Rightarrow> 'v \<Rightarrow> bool"
  assumes follow: "sim w a \<Longrightarrow> rev a b \<Longrightarrow> \<exists>w'. apply_delta w (diff a b) = Inr w' \<and> sim w' b"
begin

lemma follow_all:
  "sim w a \<Longrightarrow> \<forall>x \<in> set (a # bs). \<forall>y \<in> set bs. rev x y \<Longrightarrow>
     \<exists>w'. rfold apply_delta w (deltas diff a bs) = Inr w' \<and> sim w' (last (a # bs))"
proof (induction bs arbitrary: w a)
  case (Cons b bs)
  obtain w1 where w1: "apply_delta w (diff a b) = Inr w1" "sim w1 b" using follow Cons.prems by force
  then show ?case using Cons.IH [OF w1(2)] Cons.prems(2) by auto
qed simp

end

lemma wf_strict: "wf_json v \<Longrightarrow> strict_json v"
  by (induction v) (auto simp: list_all_iff snds.simps)

lemma replica_apply_ok:
  assumes "applyOps v ops = Inr (Some w)" "holds_if_defined wf_json v" "list_all (op_payload wf_json) ops"
  shows "replica_apply v ops = Inr w"
proof -
  have "wf_json w" using wf.applyOps_ok [OF assms] by simp
  moreover have "applyImmutable v ops = Inr (Some w)" using applyImmutable_iff [OF assms(2,3)] assms(1) by blast
  ultimately show ?thesis by (simp add: replica_apply_def adopt_def wf_strict)
qed

lemma diffRevisions_payload:
  "wf_json (plain after) \<Longrightarrow> list_all (op_payload wf_json) (diffRevisions numlen before after)"
  using diff_payload(1) [of after "[]"] by (simp add: diffRevisions_def Let_def)

lemma diffRevisions_valid_ops:
  assumes "revisions before after"
  shows "list_all valid_op (diffRevisions numlen before after)"
proof -
  obtain w where "applyOps (Some (plain before)) (diffRevisions numlen before after) = Inr (Some w)"
    using diffRevisions_valid [OF assms] by blast
  then show ?thesis using applyOps_valid by (auto simp: list_all_iff)
qed

abbreviation mirrors :: "json \<Rightarrow> rjson \<Rightarrow> bool" where
  "mirrors w v \<equiv> same_json w (plain v)"

interpretation state: replication "diffRevisions numlen" "\<lambda>w ops. replica_apply (Some w) ops" mirrors revisions for numlen
proof
  fix w a b
  assume w: "mirrors w a" and rev: "revisions a b"
  have wf: "wf_json (plain b)" "wf_json w" using rev w by (simp_all add: revisions_def same_json_def)
  note payload = diffRevisions_payload [OF wf(1), of numlen a]
  obtain x where x: "applyOps (Some (plain a)) (diffRevisions numlen a b) = Inr (Some x)" "json_eqv x (plain b)"
    using diffRevisions_valid [OF rev] by blast
  have "wf_json x" using wf.applyOps_ok [OF x(1) _ payload] rev by (simp add: revisions_def)
  then have xb: "same_json x (plain b)" using x(2) wf by (simp add: same_json_def)
  obtain w' where w': "applyOps (Some w) (diffRevisions numlen a b) = Inr (Some w')" "same_json x w'"
    using same_json_applyOps [OF x(1) same_json_sym [OF w] payload] by blast
  have "replica_apply (Some w) (diffRevisions numlen a b) = Inr w'"
    using replica_apply_ok [OF w'(1) _ payload] wf(2) by simp
  moreover have "mirrors w' b" using same_json_trans [OF same_json_sym [OF w'(2)] xb] .
  ultimately show "\<exists>w'. replica_apply (Some w) (diffRevisions numlen a b) = Inr w' \<and> mirrors w' b" by blast
qed

text \<open>The replica holds the value and the sequence of the source.\<close>

definition in_sync :: "'l replica \<Rightarrow> nat \<Rightarrow> rjson \<Rightarrow> bool" where
  "in_sync r n v \<longleftrightarrow> rep_sequence r = Some n \<and> (case rep_value r of None \<Rightarrow> False | Some w \<Rightarrow> mirrors w v)"

lemma update_in_sync:
  assumes "in_sync r n a" "revisions a b"
  shows "\<exists>r' d. update r (Suc n) (diffRevisions numlen a b) = (r', Inr d) \<and> in_sync r' (Suc n) b"
proof -
  obtain w where w: "rep_value r = Some w" "mirrors w a" "rep_sequence r = Some n"
    using assms(1) by (auto simp: in_sync_def split: option.splits)
  then obtain w' where "replica_apply (Some w) (diffRevisions numlen a b) = Inr w'" "mirrors w' b"
    using state.follow [OF w(2) assms(2)] by blast
  then show ?thesis using w by (auto simp: update_def install_def in_sync_def Let_def)
qed

lemma hydrate_in_sync: "wf_json (plain v) \<Longrightarrow> in_sync (fst (hydrate r n [OpR (plain v)])) n v"
proof -
  assume wf: "wf_json (plain v)"
  have "applyOps None [OpR (plain v)] = Inr (Some (plain v))" by (simp add: applyOps_def apply_op_def assertValidOp_def)
  then have "replica_apply None [OpR (plain v)] = Inr (plain v)" by (rule replica_apply_ok) (simp_all add: wf)
  then show ?thesis using wf by (simp add: hydrate_def isBase_def isReplace_def install_def in_sync_def same_json_refl Let_def)
qed

section \<open>Through the codec\<close>

datatype relay_error = Decode delta_error | Replica replica_error

text \<open>Each batch is encoded, decoded and given to the replica.\<close>

fun relay :: "delta_encoder \<Rightarrow> delta_decoder \<Rightarrow> 'l replica \<Rightarrow> (delta_op list \<times> nat) list \<Rightarrow>
    (relay_error, delta_encoder \<times> delta_decoder \<times> 'l replica) result" where
  "relay e d r [] = Inr (e, d, r)"
| "relay e d r ((ops, n) # ms) =
     (let (wire, e') = encode_json e ops; (d', decoded) = decode d wire in
      case decoded of
        Inl x \<Rightarrow> Inl (Decode x)
      | Inr ops' \<Rightarrow>
          (case update r n ops' of
             (r', Inl x) \<Rightarrow> Inl (Replica x)
           | (r', Inr _) \<Rightarrow> relay e' d' r' ms))"

lemma relay_chain:
  assumes "chain numlen n v ps m w" "\<forall>x \<in> set (v # map pub_value ps). \<forall>y \<in> set (map pub_value ps). revisions x y"
    and "in_sync r n v" "codec_rel e d"
  shows "\<exists>e' d' r'. relay e d r (map message ps) = Inr (e', d', r') \<and> codec_rel e' d' \<and> in_sync r' m w"
  using assms
proof (induction ps arbitrary: n v r e d)
  case (Cons p ps)
  have p: "pub_sequence p = Suc n" "pub_ops p = diffRevisions numlen v (pub_value p)" "chain numlen (Suc n) (pub_value p) ps m w"
    and rev: "revisions v (pub_value p)" using Cons.prems(1,2) by auto
  obtain d' where d': "decode d (fst (encode_json e (pub_ops p))) = (d', Inr (pub_ops p))" "codec_rel (snd (encode_json e (pub_ops p))) d'"
    using delta.step [OF _ Cons.prems(4)] diffRevisions_valid_ops [OF rev] p(2) by metis
  obtain r' ds where r': "update r (Suc n) (pub_ops p) = (r', Inr ds)" "in_sync r' (Suc n) (pub_value p)"
    using update_in_sync [OF Cons.prems(3) rev, of numlen] p(2) by auto
  show ?case using Cons.IH [OF p(3) _ r'(2) d'(2)] Cons.prems(2) d'(1) r'(1) p(1) by (simp add: split_def Let_def)
qed auto

section \<open>Lost, repeated and reordered updates\<close>

fun updates_all :: "'l replica \<Rightarrow> (delta_op list \<times> nat) list \<Rightarrow> 'l replica" where
  "updates_all r [] = r"
| "updates_all r ((ops, n) # ms) = updates_all (fst (update r n ops)) ms"

text \<open>The value that sequence \<^term>\<open>n + i\<close> stands for.\<close>

definition value_at :: "rjson \<Rightarrow> 'c publication list \<Rightarrow> nat \<Rightarrow> rjson" where
  "value_at v ps i = (v # map pub_value ps) ! i"

lemma chain_nth:
  "chain numlen n v ps m w \<Longrightarrow> i < length ps \<Longrightarrow>
     pub_sequence (ps ! i) = Suc (n + i) \<and> pub_ops (ps ! i) = diffRevisions numlen (value_at v ps i) (value_at v ps (Suc i))"
proof (induction ps arbitrary: n v i)
  case (Cons p ps)
  then show ?case by (cases i) (auto simp: value_at_def)
qed simp

text \<open>Empty, or the value of the source at the sequence of the replica.\<close>

definition consistent :: "nat \<Rightarrow> rjson \<Rightarrow> 'c publication list \<Rightarrow> 'l replica \<Rightarrow> bool" where
  "consistent n v ps r \<longleftrightarrow> (rep_value r = None \<and> rep_sequence r = None) \<or>
     (\<exists>i \<le> length ps. in_sync r (n + i) (value_at v ps i))"

lemma clear_consistent: "consistent n v ps (clear r)"
  by (simp add: consistent_def clear_def)

lemma update_consistent:
  assumes "chain numlen n v ps m w" "\<forall>x \<in> set (v # map pub_value ps). \<forall>y \<in> set (map pub_value ps). revisions x y"
    and "consistent n v ps r" "(ops, k) \<in> set (map message ps)"
  shows "consistent n v ps (fst (update r k ops))"
proof (cases "rep_value r = None \<and> rep_sequence r = None")
  case True
  then show ?thesis by (simp add: update_def consistent_def)
next
  case False
  then obtain i where i: "i \<le> length ps" "in_sync r (n + i) (value_at v ps i)" using assms(3) by (auto simp: consistent_def)
  then obtain u where u: "rep_sequence r = Some (n + i)" "rep_value r = Some u" by (auto simp: in_sync_def split: option.splits)
  obtain j where j: "j < length ps" "ops = pub_ops (ps ! j)" "k = pub_sequence (ps ! j)"
    using assms(4) by (auto simp: in_set_conv_nth)
  note p = chain_nth [OF assms(1) j(1)]
  show ?thesis
  proof (cases "k = n + i + 1")
    case False
    then show ?thesis using u clear_consistent by (simp add: update_def)
  next
    case True
    then have "j = i" using p j(3) by simp
    moreover have "revisions (value_at v ps i) (value_at v ps (Suc i))"
    proof -
      have "value_at v ps i \<in> set (v # map pub_value ps)" "value_at v ps (Suc i) \<in> set (map pub_value ps)"
        using j(1) \<open>j = i\<close> by (auto simp: value_at_def nth_Cons split: nat.split)
      then show ?thesis using assms(2) by blast
    qed
    ultimately obtain r' d where "update r k ops = (r', Inr d)" "in_sync r' (Suc (n + i)) (value_at v ps (Suc i))"
      using update_in_sync [OF i(2), of "value_at v ps (Suc i)" numlen] p j True by auto
    then show ?thesis using j(1) \<open>j = i\<close> by (auto simp: consistent_def intro!: exI [of _ "Suc i"])
  qed
qed

lemma updates_consistent:
  assumes "chain numlen n v ps m w" "\<forall>x \<in> set (v # map pub_value ps). \<forall>y \<in> set (map pub_value ps). revisions x y"
  shows "consistent n v ps r \<Longrightarrow> set ms \<subseteq> set (map message ps) \<Longrightarrow> consistent n v ps (updates_all r ms)"
proof (induction ms arbitrary: r)
  case (Cons a ms)
  obtain ops k where a: "a = (ops, k)" by (cases a)
  then have "consistent n v ps (fst (update r k ops))" using update_consistent [OF assms Cons.prems(1)] Cons.prems(2) by auto
  then show ?case using Cons a by simp
qed simp

section \<open>The delivery ends\<close>

definition call_sequence :: "('l, 'c) call \<Rightarrow> nat" where
  "call_sequence c = (case c of SourceCall _ _ n _ \<Rightarrow> n | UpdateCall _ _ n _ \<Rightarrow> n | HydrateCall _ _ n \<Rightarrow> n)"

definition quiet_from :: "nat \<Rightarrow> ('l, 'c, 'e) reactions \<Rightarrow> bool" where
  "quiet_from N react \<longleftrightarrow> (\<forall>c. N \<le> call_sequence c \<longrightarrow> fst (react c) = [])"

lemma publication_calls_sequence: "c \<in> set (publication_calls s p) \<Longrightarrow> call_sequence c = pub_sequence p"
  by (auto simp: publication_calls_def call_sequence_def)

lemma quiet_calls:
  assumes "\<forall>c \<in> set calls. fst (react c) = []"
  shows "\<exists>errors'. foldl (invoke numlen react) (s, log, errors) calls = (s, log @ calls, errors')"
  using assms
proof (induction calls arbitrary: log errors)
  case (Cons c calls)
  then show ?case using Cons.IH [of "log @ [c]"] by (fastforce simp: invoke_def [of _ _ "(s, log, errors)"] split_def Let_def)
qed simp

lemma drain_ends:
  assumes "reacts_in (\<lambda>_. True) react" "quiet_from N react"
  shows "queued numlen (\<lambda>_. True) n v s \<Longrightarrow> \<exists>st'. drain numlen react (s, log, errors) = Some st'"
proof (induction "(N - n, length (src_publications s))" arbitrary: n v s log errors rule: wf_induct_rule [OF wf_lex_prod [OF wf_less_than wf_less_than]])
  case 1
  show ?case
  proof (cases "src_publications s")
    case Nil
    then show ?thesis by (subst drain.simps) simp
  next
    case (Cons p ps)
    let ?s = "s\<lparr>src_publications := ps\<rparr>"
    obtain s1 log1 errors1 where step: "foldl (invoke numlen react) (?s, log, errors) (publication_calls s p) = (s1, log1, errors1)"
      by (cases "foldl (invoke numlen react) (?s, log, errors) (publication_calls s p)")
    have p: "pub_sequence p = Suc n" "queued numlen (\<lambda>_. True) (Suc n) (pub_value p) ?s" using 1(2) Cons by (auto simp: queued_def)
    have q: "queued numlen (\<lambda>_. True) (Suc n) (pub_value p) s1" using calls_queued [OF step p(2) assms(1)] by blast
    have "N - Suc n < N - n \<or> (N - Suc n = N - n \<and> length (src_publications s1) < length (src_publications s))"
    proof (cases "n < N")
      case False
      then have "\<forall>c \<in> set (publication_calls s p). fst (react c) = []" using assms(2) p(1) publication_calls_sequence by (fastforce simp: quiet_from_def)
      then have "s1 = ?s" using quiet_calls [of "publication_calls s p" react numlen ?s log errors] step by auto
      then show ?thesis using False Cons by simp
    next
      case True
      then have "N - Suc n < N - n" by linarith
      then show ?thesis by blast
    qed
    then have "\<exists>st'. drain numlen react (s1, log1, errors1) = Some st'" using 1(1) [OF _ q] by (auto simp: in_lex_prod)
    then show ?thesis using Cons step by (subst drain.simps) simp
  qed
qed

lemma reacts_any: "reacts_in (\<lambda>_. True) react"
  by (simp add: reacts_in_def list_all_iff)

lemma commit_ends:
  assumes "src_publications s = []" "quiet_from N react"
  shows "\<exists>res. commit numlen react s next context = Some res"
proof -
  have "queued numlen (\<lambda>_. True) (src_sequence s) (src_value s) s" using assms(1) by (simp add: queued_def)
  then have "queued numlen (\<lambda>_. True) (src_sequence s) (src_value s) ((enqueue numlen s (next, context))\<lparr>src_delivering := True\<rparr>)"
    using enqueue_queued [of numlen "\<lambda>_. True" _ _ s "(next, context)"] by (auto simp: queued_def list_all_iff)
  then have "\<exists>st'. drain numlen react ((enqueue numlen s (next, context))\<lparr>src_delivering := True\<rparr>, [], []) = Some st'"
    using drain_ends [OF reacts_any assms(2)] by blast
  then show ?thesis
    by (auto simp: commit_def Let_def split: option.split)
qed

lemma chain_sequences: "chain numlen n v ps m w \<Longrightarrow> map pub_sequence ps = [Suc n..<Suc m]"
proof -
  have "chain numlen n v ps m w \<Longrightarrow> m = n + length ps" by (induction ps arbitrary: n v) fastforce+
  then show "chain numlen n v ps m w \<Longrightarrow> ?thesis"
    using chain_nth [of numlen n v ps m w] by (auto intro!: nth_equalityI simp del: upt_Suc)
qed

definition family :: "(rjson \<Rightarrow> bool) \<Rightarrow> bool" where
  "family Q \<longleftrightarrow> (\<forall>a b. Q a \<longrightarrow> Q b \<longrightarrow> revisions a b)"

lemma family_chain: "family Q \<Longrightarrow> Q v \<Longrightarrow> list_all (Q \<circ> pub_value) ps \<Longrightarrow>
    \<forall>x \<in> set (v # map pub_value ps). \<forall>y \<in> set (map pub_value ps). revisions x y"
  by (auto simp: family_def list_all_iff)

section \<open>Properties\<close>

text \<open>
  C1. End to end: when an idle source commits a revision, and its listeners react by committing more,
  a replica in sync with the source that receives the batches through the wire codec, in the
  order they are published, accepts all of them and ends in sync: same sequence, equal value.
\<close>

theorem replica_follows:
  assumes "commit numlen react s next context = Some (s', log, outcome)"
    and "src_publications s = []" "\<not> src_delivering s" "distinct (src_sourceListeners s)" "l \<in> set (src_sourceListeners s)"
    and "family Q" "reacts_in Q react" "Q next" "Q (src_value s)"
    and "in_sync r (src_sequence s) (src_value s)" "codec_rel e d"
  shows "\<exists>e' d' r'. relay e d r (source_calls l log) = Inr (e', d', r') \<and> codec_rel e' d' \<and> in_sync r' (src_sequence s') (src_value s')"
proof -
  obtain ps where ps: "chain numlen (src_sequence s) (src_value s) ps (src_sequence s') (src_value s')"
    "list_all (Q \<circ> pub_value) ps" "log = concat (map (publication_calls s) ps)"
    using commit_chain [OF assms(1-3,7-9)] by blast
  have "source_calls l log = map message ps" using source_calls_publications [OF assms(4,5)] ps(3) by simp
  then show ?thesis using relay_chain [OF ps(1) family_chain [OF assms(6,9) ps(2)] assms(10,11)] by simp
qed

text \<open>
  C2. Updates may be lost, repeated or reordered: a replica that starts in sync and is given any
  selection of the published batches in any order is either empty or holds the value the
  source had at the replica's sequence. It never diverges.
\<close>

theorem replica_never_diverges:
  assumes "chain numlen n v ps m w" "family Q" "Q v" "list_all (Q \<circ> pub_value) ps"
    and "in_sync r n v" "set received \<subseteq> set (map message ps)"
  shows "consistent n v ps (updates_all r received)"
proof -
  have "consistent n v ps r"
    unfolding consistent_def by (intro disjI2 exI [of _ 0]) (use assms(5) in \<open>simp add: value_at_def\<close>)
  then show ?thesis using updates_consistent [OF assms(1) family_chain [OF assms(2-4)]] assms(6) by blast
qed

text \<open>
  C22. Order under reentrancy: whatever the listeners commit or throw while a commit is delivered, every
  listener of the operations is told each publication once, in order and without a gap, and the queue is empty at the end.
\<close>

theorem commit_in_order:
  assumes "commit numlen react s next context = Some (s', log, outcome)"
    and "src_publications s = []" "\<not> src_delivering s" "distinct (src_sourceListeners s)" "l \<in> set (src_sourceListeners s)"
  shows "map snd (source_calls l log) = [Suc (src_sequence s)..<Suc (src_sequence s')] \<and> src_publications s' = [] \<and> \<not> src_delivering s'"
proof -
  obtain ps where ps: "chain numlen (src_sequence s) (src_value s) ps (src_sequence s') (src_value s')"
    "src_publications s' = []" "same_listeners s s'" "log = concat (map (publication_calls s) ps)"
    using commit_chain [OF assms(1-3) reacts_any] by blast
  have "map snd (source_calls l log) = map pub_sequence ps"
    using source_calls_publications [OF assms(4,5)] ps(4) by simp
  then show ?thesis using chain_sequences [OF ps(1)] ps(2,3) assms(3) by (simp add: same_listeners_def)
qed

text \<open>
  C23. A commit returns as soon as the listeners stop committing: if none of them reacts to a
  publication numbered \<^term>\<open>N\<close> or later, the delivery loop ends.
\<close>

theorem commit_terminates:
  assumes "src_publications s = []" "quiet_from N react"
  shows "\<exists>res. commit numlen react s next context = Some res"
  using assms by (rule commit_ends)

text \<open>
  A snapshot brings a replica in sync from any state, also from one whose last update failed.
\<close>

theorem hydrate_syncs:
  assumes "wf_json (plain v)"
  shows "in_sync (fst (hydrate r n [OpR (plain v)])) n v"
  using assms by (rule hydrate_in_sync)

section \<open>Witnesses\<close>

definition sample_third :: rjson where
  "sample_third = RObj 5 [(js ''log'', RArr 6 [RStr (js ''w'')]), (js ''same'', RObj 2 [])]"

definition sample_family :: "rjson \<Rightarrow> bool" where
  "sample_family v \<longleftrightarrow> v \<in> {sample_before, sample_after, sample_third}"

lemma sample_family: "family sample_family"
proof -
  have wf: "wf_json (plain sample_before)" "wf_json (plain sample_after)" "wf_json (plain sample_third)" by code_simp+
  have agree: "refs_agree sample_before sample_before" "refs_agree sample_before sample_after" "refs_agree sample_before sample_third"
    "refs_agree sample_after sample_after" "refs_agree sample_after sample_third" "refs_agree sample_third sample_third"
    by code_simp+
  show ?thesis using wf agree refs_agree_sym by (auto simp: family_def revisions_def sample_family_def)
qed

text \<open>Listener 0 answers the first publication with another commit; listener 1 throws.\<close>

definition sample_react :: "(nat, unit, unit) reactions" where
  "sample_react c = (case c of
      SourceCall l ops n context \<Rightarrow> if l = 0 \<and> n = 1 then ([(sample_third, ())], None) else ([], if l = 1 then Some () else None)
    | _ \<Rightarrow> ([], None))"

definition sample_source :: "(nat, unit) source" where
  "sample_source = subscribe_source (subscribe_source (new_source sample_before) 0) 1"

lemma sample_react_quiet: "quiet_from 2 sample_react"
  by (auto simp: quiet_from_def sample_react_def call_sequence_def split: call.splits)

lemma sample_react_family: "reacts_in sample_family sample_react"
  by (auto simp: reacts_in_def sample_react_def sample_family_def split: call.splits)

lemma sample_source_idle:
  "src_publications sample_source = []" "\<not> src_delivering sample_source" "distinct (src_sourceListeners sample_source)"
  "0 \<in> set (src_sourceListeners sample_source)" "src_value sample_source = sample_before" "src_sequence sample_source = 0"
  by (simp_all add: sample_source_def subscribe_source_def new_source_def)

lemma sample_commit: "\<exists>s' log outcome. commit (\<lambda>_. 1) sample_react sample_source sample_after () = Some (s', log, outcome)"
proof -
  obtain res where "commit (\<lambda>_. 1) sample_react sample_source sample_after () = Some res"
    using commit_ends [OF sample_source_idle(1) sample_react_quiet] by blast
  then show ?thesis by (cases res) auto
qed

lemma sample_wf: "wf_json (plain sample_before)"
  by code_simp

theorem replica_follows_witness:
  "\<exists>s' log outcome e' d' r'. commit (\<lambda>_. 1) sample_react sample_source sample_after () = Some (s', log, outcome) \<and>
     relay encoder decoder (fst (hydrate (new_replica :: nat replica) 0 [OpR (plain sample_before)])) (source_calls 0 log) = Inr (e', d', r') \<and>
     in_sync r' (src_sequence s') (src_value s')"
proof -
  obtain s' log outcome where c: "commit (\<lambda>_. 1) sample_react sample_source sample_after () = Some (s', log, outcome)"
    using sample_commit by blast
  have "sample_family sample_after" "sample_family (src_value sample_source)" by (simp_all add: sample_family_def sample_source_idle)
  moreover have "in_sync (fst (hydrate (new_replica :: nat replica) 0 [OpR (plain sample_before)])) (src_sequence sample_source) (src_value sample_source)"
    unfolding sample_source_idle by (rule hydrate_in_sync [OF sample_wf])
  ultimately show ?thesis
    using replica_follows [OF c sample_source_idle(1-4) sample_family sample_react_family _ _ _ codec_rel_fresh] c by blast
qed

definition sample_publications :: "unit publication list" where
  "sample_publications =
     [\<lparr>pub_value = sample_after, pub_ops = diffRevisions (\<lambda>_. 1) sample_before sample_after, pub_sequence = 1, pub_context = ()\<rparr>,
      \<lparr>pub_value = sample_third, pub_ops = diffRevisions (\<lambda>_. 1) sample_after sample_third, pub_sequence = 2, pub_context = ()\<rparr>]"

theorem replica_never_diverges_witness:
  "consistent 0 sample_before sample_publications
     (updates_all (fst (hydrate (new_replica :: nat replica) 0 [OpR (plain sample_before)]))
       [message (sample_publications ! 0), message (sample_publications ! 0)])"
proof (rule replica_never_diverges [OF _ sample_family])
  show "chain (\<lambda>_. 1) 0 sample_before sample_publications 2 sample_third" by (simp add: sample_publications_def)
qed (auto simp: sample_family_def sample_publications_def intro: hydrate_in_sync [OF sample_wf])

theorem commit_in_order_witness:
  "\<exists>s' log outcome. commit (\<lambda>_. 1) sample_react sample_source sample_after () = Some (s', log, outcome) \<and>
     map snd (source_calls 0 log) = [Suc 0..<Suc (src_sequence s')]"
proof -
  obtain s' log outcome where c: "commit (\<lambda>_. 1) sample_react sample_source sample_after () = Some (s', log, outcome)"
    using sample_commit by blast
  show ?thesis using commit_in_order [OF c sample_source_idle(1-4)] c by (auto simp: sample_source_idle)
qed

theorem commit_terminates_witness: "\<exists>res. commit (\<lambda>_. 1) sample_react sample_source sample_after () = Some res"
  using commit_terminates [OF sample_source_idle(1) sample_react_quiet] .

end
