(* ===== verification/DurableTypes.thy ===== *)
theory DurableTypes
  imports DeltaOps KeyText
begin

text \<open>
  The durable records of \<^verbatim>\<open>packages/durable/src/types.ts\<close>: conversations, entries, submissions, tasks and
  documents, the writes of a commit and the queries of the scans. An identifier or a sequence number is a natural
  number; a model message and every payload is a Json value. Alternatives that the source separates by a literal
  field are the constructors of a datatype, so that a field absent in an alternative is no argument of it.
\<close>

definition ROOT_CONVERSATION_ID :: nat where
  "ROOT_CONVERSATION_ID = 1"

section \<open>Conversations and entries\<close>

record fork_point =
  fp_conversationId :: nat
  fp_at :: nat

record owner_edge =
  oe_conversationId :: nat
  oe_taskId :: nat

record conversation_record =
  cv_id :: nat
  cv_parent :: "fork_point option"
  cv_owner :: "owner_edge option"

datatype edit_action = Omit | Replace "json list"

record context_edit =
  ce_target :: nat
  ce_action :: edit_action

record entry_record =
  en_id :: nat
  en_conversationId :: nat
  en_kind :: jsstring
  en_model :: "json list option"
  en_data :: "json option"
  en_head :: "nat option"
  en_edits :: "context_edit list option"
  en_byTaskId :: "nat option"

section \<open>Submissions\<close>

datatype submission_body =
    InputQueued
  | InputPlaced nat
  | InputDone nat nat
  | InputUnanswered "nat option" jsstring "json option"
  | WriteQueued
  | WriteDone nat
  | WriteUnanswered jsstring "json option"

record submission_record =
  sb_id :: nat
  sb_conversationId :: nat
  sb_requestId :: "jsstring option"
  sb_body :: submission_body

section \<open>Tasks\<close>

record task_outcome_error =
  te_message :: jsstring
  te_detail :: "json option"

datatype task_outcome =
    Completed json
  | TaskFailed task_outcome_error "json option"
  | Aborted "jsstring option" "json option"
  | Orphaned jsstring
  | Faulted task_outcome_error

text \<open>The memos exist only while a task is live.\<close>

datatype task_state =
    Pending json "json obj option"
  | Running json "json obj option"
  | Terminal task_outcome

datatype task_status = PendingStatus | RunningStatus | TerminalStatus

fun task_status_of :: "task_state \<Rightarrow> task_status" where
  "task_status_of (Pending _ _) = PendingStatus"
| "task_status_of (Running _ _) = RunningStatus"
| "task_status_of (Terminal _) = TerminalStatus"

record task_record =
  tk_id :: nat
  tk_conversationId :: nat
  tk_kind :: jsstring
  tk_version :: nat
  tk_input :: json
  tk_after :: "nat list"
  tk_background :: bool
  tk_abortRequested :: bool
  tk_state :: task_state

section \<open>Documents\<close>

datatype latest_fork = LatestCurrent | LatestInitial

datatype rewindable_fork = RewindAsOf | RewindCurrent | RewindInitial

datatype history_mode = Latest latest_fork | Rewindable rewindable_fork

datatype document_scope =
    SessionScope
  | ConversationScope nat history_mode
  | TaskScope nat

text \<open>The scope of an address or a query names only what contains the document.\<close>

datatype scope_name = SessionName | ConversationName nat | TaskName nat

fun scope_of :: "document_scope \<Rightarrow> scope_name" where
  "scope_of SessionScope = SessionName"
| "scope_of (ConversationScope c _) = ConversationName c"
| "scope_of (TaskScope t) = TaskName t"

record document_create =
  dc_id :: nat
  dc_kind :: jsstring
  dc_key :: "jsstring option"
  dc_scope :: document_scope

record document_record = document_create +
  createdAt :: nat
  retiredAt :: "nat option"

datatype document_point = Current | At nat

record document_address =
  ad_kind :: jsstring
  ad_scope :: scope_name
  ad_key :: "jsstring option"

record document_query =
  dq_scope :: scope_name
  dq_at :: document_point
  dq_kind :: "jsstring option"

text \<open>The value of a base is a Json object.\<close>

datatype document_content = Base (content_version: nat) (base_value: "json obj") | Delta (content_version: nat) (delta_ops: "delta_op list")

definition is_base :: "document_content \<Rightarrow> bool" where
  "is_base c = (case c of Base _ _ \<Rightarrow> True | Delta _ _ \<Rightarrow> False)"

record stored_document =
  sd_record :: document_record
  sd_version :: nat
  sd_value :: json

section \<open>Writes and queries\<close>

datatype storage_write =
    WriteConversation conversation_record
  | WriteEntry entry_record
  | WriteTask task_record
  | WriteSubmission submission_record
  | DocumentCreate document_create nat "json obj"
  | DocumentChange nat document_content
  | DocumentRetire nat

record entry_query =
  eq_conversationId :: nat
  eq_minEntryId :: "nat option"
  eq_maxEntryId :: "nat option"

record task_query =
  tq_conversationId :: "nat option"
  tq_kind :: "jsstring option"
  tq_status :: "task_status option"
  tq_abortRequested :: "bool option"
  tq_background :: "bool option"

end
