(* ===== verification/SortedIds.thy ===== *)
theory SortedIds
  imports Prelude
begin

text \<open>
  The sorted id lists that \<^verbatim>\<open>packages/durable/src/storage/memory.ts\<close> keeps as indexes: the two binary searches,
  insertion and removal, and the pages its scans return. The interface of a paged scan is the locale
  \<^verbatim>\<open>paged_scan\<close>: whoever answers a query with pages of a fixed ordered list lets a client that follows the cursors
  collect the whole list.
\<close>

section \<open>Binary search\<close>

text \<open>The loop of both searches: the first position of the range whose element is not \<^term>\<open>before\<close>.\<close>

function search_loop :: "(nat \<Rightarrow> bool) \<Rightarrow> nat list \<Rightarrow> nat \<Rightarrow> nat \<Rightarrow> nat" where
  "search_loop before ids low high =
     (if low < high then
        (let middle = (low + high) div 2 in
         if before (ids ! middle) then search_loop before ids (middle + 1) high
         else search_loop before ids low middle)
      else low)"
  by pat_completeness auto
termination
  by (relation "measure (\<lambda>(before, ids, low, high). high - low)") auto

declare search_loop.simps [simp del]

definition lowerBound :: "nat list \<Rightarrow> nat \<Rightarrow> nat" where
  "lowerBound ids target = search_loop (\<lambda>x. x < target) ids 0 (length ids)"

definition upperBound :: "nat list \<Rightarrow> nat \<Rightarrow> nat" where
  "upperBound ids target = search_loop (\<lambda>x. x \<le> target) ids 0 (length ids)"

definition insertSorted :: "nat list \<Rightarrow> nat \<Rightarrow> nat list" where
  "insertSorted ids x =
     (if ids = [] \<or> last ids < x then ids @ [x]
      else (let i = lowerBound ids x in take i ids @ [x] @ drop i ids))"

definition removeSorted :: "nat list \<Rightarrow> nat \<Rightarrow> nat list" where
  "removeSorted ids x =
     (let i = lowerBound ids x in
      if i < length ids \<and> ids ! i = x then take i ids @ drop (i + 1) ids else ids)"

section \<open>What the searches find\<close>

abbreviation ascending :: "nat list \<Rightarrow> bool" where
  "ascending \<equiv> sorted_wrt (<)"

text \<open>A predicate that holds on a prefix: the loop finds where the prefix ends.\<close>

lemma search_loop_prefix:
  assumes "low \<le> n" "n \<le> high" "high \<le> length ids"
    and "\<And>i. i < length ids \<Longrightarrow> before (ids ! i) \<longleftrightarrow> i < n"
  shows "search_loop before ids low high = n"
  using assms
proof (induction before ids low high rule: search_loop.induct)
  case (1 before ids low high)
  show ?case
  proof (cases "low < high")
    case True
    let ?m = "(low + high) div 2"
    have m: "low \<le> ?m" "?m < high" using True by auto
    then have "?m < length ids" using "1.prems"(3) by linarith
    then have b: "before (ids ! ?m) \<longleftrightarrow> ?m < n" using "1.prems"(4) by blast
    show ?thesis
    proof (cases "?m < n")
      case lt: True
      have "search_loop before ids (?m + 1) high = n"
        by (rule "1.IH"(1) [OF True refl]) (use lt b "1.prems" in auto)
      then show ?thesis using True lt b by (subst search_loop.simps) (simp add: Let_def)
    next
      case False
      have "search_loop before ids low ?m = n"
        by (rule "1.IH"(2) [OF True refl]) (use False b m "1.prems" in auto)
      then show ?thesis using True False b by (subst search_loop.simps) (simp add: Let_def)
    qed
  next
    case False
    then show ?thesis using "1.prems"(1,2) by (subst search_loop.simps) simp
  qed
qed

lemma search_takeWhile:
  assumes "\<And>i j. i < j \<Longrightarrow> j < length ids \<Longrightarrow> before (ids ! j) \<Longrightarrow> before (ids ! i)"
  shows "search_loop before ids 0 (length ids) = length (takeWhile before ids)"
proof (rule search_loop_prefix)
  let ?n = "length (takeWhile before ids)"
  fix i assume i: "i < length ids"
  show "before (ids ! i) \<longleftrightarrow> i < ?n"
  proof
    assume "i < ?n"
    then show "before (ids ! i)" by (metis nth_mem set_takeWhileD takeWhile_nth)
  next
    assume b: "before (ids ! i)"
    show "i < ?n"
    proof (rule ccontr)
      assume "\<not> i < ?n"
      then have n: "?n \<le> i" by simp
      then have "before (ids ! ?n)" using assms [of ?n i] b i by (cases "?n = i") auto
      moreover have "\<not> before (ids ! ?n)" using nth_length_takeWhile [of before ids] n i by linarith
      ultimately show False by simp
    qed
  qed
qed (simp_all add: length_takeWhile_le)

lemma ascending_nth: "ascending ids \<Longrightarrow> i < j \<Longrightarrow> j < length ids \<Longrightarrow> ids ! i < ids ! j"
  by (simp add: sorted_wrt_nth_less)

lemma lowerBound_takeWhile: "ascending ids \<Longrightarrow> lowerBound ids t = length (takeWhile (\<lambda>i. i < t) ids)"
  unfolding lowerBound_def by (rule search_takeWhile) (use ascending_nth in fastforce)

lemma upperBound_takeWhile: "ascending ids \<Longrightarrow> upperBound ids t = length (takeWhile (\<lambda>i. i \<le> t) ids)"
  unfolding upperBound_def by (rule search_takeWhile) (use ascending_nth in fastforce)

lemma ascending_takeWhile:
  assumes "ascending ids"
  shows "takeWhile (\<lambda>i. i < t) ids = filter (\<lambda>i. i < t) ids" "takeWhile (\<lambda>i. i \<le> t) ids = filter (\<lambda>i. i \<le> t) ids"
    "dropWhile (\<lambda>i. i < t) ids = filter (\<lambda>i. t \<le> i) ids" "dropWhile (\<lambda>i. i \<le> t) ids = filter (\<lambda>i. t < i) ids"
  using assms by (induction ids) (auto intro!: filter_False [symmetric] filter_True [symmetric])

lemma take_lowerBound: "ascending ids \<Longrightarrow> take (lowerBound ids t) ids = filter (\<lambda>i. i < t) ids"
  by (metis ascending_takeWhile(1) lowerBound_takeWhile takeWhile_eq_take)

lemma drop_lowerBound: "ascending ids \<Longrightarrow> drop (lowerBound ids t) ids = filter (\<lambda>i. t \<le> i) ids"
  by (metis ascending_takeWhile(3) lowerBound_takeWhile dropWhile_eq_drop)

lemma take_upperBound: "ascending ids \<Longrightarrow> take (upperBound ids t) ids = filter (\<lambda>i. i \<le> t) ids"
  by (metis ascending_takeWhile(2) upperBound_takeWhile takeWhile_eq_take)

lemma drop_upperBound: "ascending ids \<Longrightarrow> drop (upperBound ids t) ids = filter (\<lambda>i. t < i) ids"
  by (metis ascending_takeWhile(4) upperBound_takeWhile dropWhile_eq_drop)

section \<open>Insertion and removal\<close>

lemma insertSorted_eq: "ascending ids \<Longrightarrow> insertSorted ids x = filter (\<lambda>i. i < x) ids @ [x] @ filter (\<lambda>i. x \<le> i) ids"
proof -
  assume a: "ascending ids"
  have "filter (\<lambda>i. i < x) ids = ids \<and> filter (\<lambda>i. x \<le> i) ids = []" if "ids = [] \<or> last ids < x"
  proof -
    have "i < x" if "i \<in> set ids" for i
    proof -
      obtain k where "k < length ids" "ids ! k = i" using \<open>i \<in> set ids\<close> by (metis in_set_conv_nth)
      moreover from this have "ids \<noteq> []" "k < length ids - 1 \<or> k = length ids - 1" by auto
      moreover from this have "ids ! k \<le> last ids"
        using ascending_nth [OF a, of k "length ids - 1"] by (auto simp: last_conv_nth)
      ultimately show ?thesis using \<open>ids = [] \<or> last ids < x\<close> by auto
    qed
    then have "\<forall>i \<in> set ids. i < x" by blast
    then show ?thesis by (simp add: filter_id_conv filter_empty_conv not_le)
  qed
  then show ?thesis using a by (auto simp: insertSorted_def Let_def take_lowerBound drop_lowerBound)
qed

lemma set_insertSorted [simp]: "ascending ids \<Longrightarrow> set (insertSorted ids x) = insert x (set ids)"
  by (auto simp: insertSorted_eq)

lemma ascending_insertSorted: "ascending ids \<Longrightarrow> x \<notin> set ids \<Longrightarrow> ascending (insertSorted ids x)"
  by (auto simp: insertSorted_eq sorted_wrt_append sorted_wrt_filter) (metis order_le_less)

lemma removeSorted_eq: "ascending ids \<Longrightarrow> removeSorted ids x = filter (\<lambda>i. i \<noteq> x) ids"
proof -
  assume a: "ascending ids"
  let ?i = "lowerBound ids x"
  have split: "ids = filter (\<lambda>i. i < x) ids @ filter (\<lambda>i. x \<le> i) ids"
    using append_take_drop_id [of ?i ids] by (simp add: take_lowerBound [OF a] drop_lowerBound [OF a])
  have ge: "ascending (filter (\<lambda>i. x \<le> i) ids)" using a by (rule sorted_wrt_filter)
  have less: "filter (\<lambda>i. i \<noteq> x) (filter (\<lambda>i. i < x) ids) = filter (\<lambda>i. i < x) ids" by (auto intro: filter_cong)
  have found: "?i < length ids \<and> ids ! ?i = x \<longleftrightarrow> (\<exists>ys. filter (\<lambda>i. x \<le> i) ids = x # ys)"
    unfolding drop_lowerBound [OF a, symmetric] by (cases "?i < length ids") (auto simp: Cons_nth_drop_Suc [symmetric])
  show ?thesis
  proof (cases "?i < length ids \<and> ids ! ?i = x")
    case True
    then obtain ys where ys: "filter (\<lambda>i. x \<le> i) ids = x # ys" using found by blast
    then have "filter (\<lambda>i. i \<noteq> x) ys = ys" using ge by (auto simp: filter_id_conv)
    moreover have "drop (?i + 1) ids = ys" using drop_lowerBound [OF a, of x] ys by (metis add.commute drop_drop drop_Suc_Cons drop0 One_nat_def plus_1_eq_Suc)
    ultimately show ?thesis using True less ys
      by (subst split) (simp add: removeSorted_def Let_def take_lowerBound [OF a])
  next
    case False
    have "x \<notin> set ids"
    proof
      assume "x \<in> set ids"
      then obtain y ys where f: "filter (\<lambda>i. x \<le> i) ids = y # ys" by (metis (no_types, lifting) filter_empty_conv list.exhaust order_refl)
      have "x \<in> set (y # ys)" unfolding f [symmetric] using \<open>x \<in> set ids\<close> by simp
      moreover have "x \<le> y" using f by (metis filter_eq_ConsD)
      ultimately have "y = x" using ge f by auto
      then show False using False found f by blast
    qed
    then have "filter (\<lambda>i. i \<noteq> x) ids = ids" by (auto simp: filter_id_conv)
    then show ?thesis using False by (auto simp: removeSorted_def Let_def)
  qed
qed

lemma set_removeSorted [simp]: "ascending ids \<Longrightarrow> set (removeSorted ids x) = set ids - {x}"
  by (auto simp: removeSorted_eq)

lemma ascending_removeSorted: "ascending ids \<Longrightarrow> ascending (removeSorted ids x)"
  by (simp add: removeSorted_eq sorted_wrt_filter)

section \<open>Pages\<close>

record 'a page =
  page_items :: "'a list"
  page_next :: "nat option"

text \<open>A client that follows the cursors until there is none; the fuel bounds the number of pages.\<close>

fun collect :: "(nat option \<Rightarrow> nat \<Rightarrow> ('e, 'a page) result) \<Rightarrow> nat \<Rightarrow> nat \<Rightarrow> nat option \<Rightarrow> ('e, 'a list) result option" where
  "collect scan 0 limit cursor = None"
| "collect scan (Suc fuel) limit cursor =
     (case scan cursor limit of
        Inl e \<Rightarrow> Some (Inl e)
      | Inr p \<Rightarrow>
          (case page_next p of
             None \<Rightarrow> Some (Inr (page_items p))
           | Some c \<Rightarrow> map_option (\<lambda>r. rbind r (\<lambda>xs. Inr (page_items p @ xs))) (collect scan fuel limit (Some c))))"

text \<open>
  What a scan promises: it pages the list \<^term>\<open>rest\<close> of what is still to come after a cursor, and the cursor of a page
  continues right after its last item.
\<close>

locale paged_scan =
  fixes scan :: "nat option \<Rightarrow> nat \<Rightarrow> ('e, 'a page) result" and ident :: "'a \<Rightarrow> nat" and rest :: "nat option \<Rightarrow> 'a list"
  assumes scan_page: "0 < limit \<Longrightarrow> scan cursor limit = Inr \<lparr>page_items = take limit (rest cursor),
      page_next = (if length (rest cursor) \<le> limit then None else Some (ident (last (take limit (rest cursor)))))\<rparr>"
    and rest_after: "xs \<noteq> [] \<Longrightarrow> rest cursor = xs @ ys \<Longrightarrow> rest (Some (ident (last xs))) = ys"
begin

lemma collect_all: "0 < limit \<Longrightarrow> length (rest cursor) < fuel \<Longrightarrow> collect scan fuel limit cursor = Some (Inr (rest cursor))"
proof (induction fuel arbitrary: cursor)
  case (Suc fuel)
  show ?case
  proof (cases "length (rest cursor) \<le> limit")
    case True
    then show ?thesis using Suc.prems(1) by (simp add: scan_page)
  next
    case False
    let ?xs = "take limit (rest cursor)"
    have "?xs \<noteq> []" using False Suc.prems(1) by (cases "rest cursor") (auto simp: take_Cons')
    then have after: "rest (Some (ident (last ?xs))) = drop limit (rest cursor)"
      by (rule rest_after) simp
    have "length (drop limit (rest cursor)) < fuel" using Suc.prems False by simp
    then have "collect scan fuel limit (Some (ident (last ?xs))) = Some (Inr (drop limit (rest cursor)))"
      using Suc.IH [of "Some (ident (last ?xs))"] Suc.prems(1) after by simp
    then show ?thesis using Suc.prems(1) False by (simp add: scan_page)
  qed
qed simp

end

text \<open>Lists that ascend or descend by their ids continue after the last item of a page.\<close>

lemma after_ascending:
  assumes "sorted_wrt (\<lambda>x y. ident x < ident y) (xs @ ys)" "xs \<noteq> []"
  shows "filter (\<lambda>x. (ident (last xs) :: nat) < ident x) (xs @ ys) = ys"
proof -
  have split: "xs = butlast xs @ [last xs]" using assms(2) by simp
  have "sorted_wrt (\<lambda>x y. ident x < ident y) (butlast xs @ [last xs] @ ys)" using assms(1) split by (metis append.assoc)
  then have "\<forall>x \<in> set (butlast xs). ident x < ident (last xs)" "\<forall>y \<in> set ys. ident (last xs) < ident y"
    by (auto simp: sorted_wrt_append)
  moreover from this have "\<forall>x \<in> set xs. \<not> ident (last xs) < ident x" using split by (metis Un_iff empty_iff insert_iff less_asym list.set(1) list.set(2) nat_neq_iff set_append)
  ultimately show ?thesis by (simp add: filter_id_conv)
qed

lemma after_descending:
  assumes "sorted_wrt (\<lambda>x y. ident y < ident x) (xs @ ys)" "xs \<noteq> []"
  shows "filter (\<lambda>x. ident x < (ident (last xs) :: nat)) (xs @ ys) = ys"
proof -
  have split: "xs = butlast xs @ [last xs]" using assms(2) by simp
  have "sorted_wrt (\<lambda>x y. ident y < ident x) (butlast xs @ [last xs] @ ys)" using assms(1) split by (metis append.assoc)
  then have "\<forall>x \<in> set (butlast xs). ident (last xs) < ident x" "\<forall>y \<in> set ys. ident y < ident (last xs)"
    by (auto simp: sorted_wrt_append)
  moreover from this have "\<forall>x \<in> set xs. \<not> ident x < ident (last xs)" using split by (metis Un_iff empty_iff insert_iff less_asym list.set(1) list.set(2) nat_neq_iff set_append)
  ultimately show ?thesis by (simp add: filter_id_conv)
qed

end
