(* ===== verification/MemoryStorage.thy ===== *)
theory MemoryStorage
  imports DurableTypes SortedIds
begin

text \<open>
  The reference storage of \<^verbatim>\<open>packages/durable/src/storage/memory.ts\<close>: five tables of records with their indexes, the
  atomic commit with its checks, the minting of identifiers, the lookups and the paged scans. A \<^verbatim>\<open>Map\<close> that the code
  only reads by key is a partial function, one that it enumerates is an association list in insertion order.
\<close>

section \<open>State\<close>

datatype table_name = ConversationTable | EntryTable | TaskTable | SubmissionTable | DocumentTable

datatype storage_error =
    StorageClosed
  | AlreadyBelongs nat table_name
  | WrittenTwice nat
  | TwoRecordTypes nat
  | ManyContents nat
  | RetiredTwice nat
  | UnknownDocument nat
  | DocumentExists nat
  | DocumentRetired nat
  | CreationNeedsBase nat
  | DeltaWithoutBase nat
  | TransitionNeedsBase nat
  | AddressOccupied
  | IdSpaceExhausted
  | UnknownConversation nat
  | NoHistoricalContent nat
  | MissingBase nat
  | CrossesVersion nat
  | PatchFailed delta_error
  | UndefinedAccess

record document_revision =
  rv_content :: document_content
  rv_seq :: nat

record stored_document_state =
  ss_record :: document_record
  ss_revisions :: "document_revision list"

record document_action =
  da_create :: "document_create option"
  da_content :: "document_content option"
  da_retire :: bool

record document_address_index =
  ix_ids :: "nat list"
  ix_currentId :: "nat option"

record storage =
  conversations :: "nat \<rightharpoonup> conversation_record"
  conversationIds :: "nat list"
  entries :: "nat \<rightharpoonup> entry_record"
  entryIds :: "nat \<rightharpoonup> nat list"
  headEntryIds :: "nat \<rightharpoonup> nat list"
  entryCommitSeqs :: "nat \<rightharpoonup> nat"
  tasks :: "nat \<rightharpoonup> task_record"
  taskIds :: "nat list"
  taskIdsByStatus :: "task_status \<Rightarrow> nat list"
  submissions :: "nat \<rightharpoonup> submission_record"
  submissionIdsByRequest :: "nat \<rightharpoonup> (jsstring \<times> nat) list"
  documents :: "nat \<rightharpoonup> stored_document_state"
  documentAddresses :: "jsstring \<rightharpoonup> document_address_index"
  documentIdsByScope :: "jsstring \<rightharpoonup> nat list"
  nextId :: nat
  nextSeq :: nat
  closed :: bool

definition new_storage :: storage where
  "new_storage = \<lparr>conversations = Map.empty, conversationIds = [], entries = Map.empty, entryIds = Map.empty,
     headEntryIds = Map.empty, entryCommitSeqs = Map.empty, tasks = Map.empty, taskIds = [], taskIdsByStatus = (\<lambda>_. []),
     submissions = Map.empty, submissionIdsByRequest = Map.empty, documents = Map.empty, documentAddresses = Map.empty,
     documentIdsByScope = Map.empty, nextId = 2, nextSeq = 1, closed = False\<rparr>"

section \<open>Keys and points\<close>

text \<open>The deep copy of a Json value: a new object that receives the copied properties one by one.\<close>

fun clone :: "json \<Rightarrow> json" where
  "clone (JArr vs) = JArr (map clone vs)"
| "clone (JObj ps) = JObj (foldl (\<lambda>result p. obj_set (fst p) (snd p) result) [] (map (\<lambda>p. (fst p, clone (snd p))) ps))"
| "clone v = v"

definition scopeKey :: "scope_name \<Rightarrow> jsstring" where
  "scopeKey scope = stringify (case scope of
      SessionName \<Rightarrow> KArr [KStr (js ''session'')]
    | ConversationName c \<Rightarrow> KArr [KStr (js ''conversation''), KNum c]
    | TaskName t \<Rightarrow> KArr [KStr (js ''task''), KNum t])"

definition addressKey :: "document_address \<Rightarrow> jsstring" where
  "addressKey address = stringify (KArr [KStr (ad_kind address), KStr (scopeKey (ad_scope address)),
     (case ad_key address of None \<Rightarrow> KArr [KStr (js ''singleton'')] | Some k \<Rightarrow> KArr [KStr (js ''family''), KStr k])])"

definition recordAddress :: "'a document_create_scheme \<Rightarrow> document_address" where
  "recordAddress r = \<lparr>ad_kind = dc_kind r, ad_scope = scope_of (dc_scope r), ad_key = dc_key r\<rparr>"

definition recordAddressKey :: "'a document_create_scheme \<Rightarrow> jsstring" where
  "recordAddressKey r = addressKey (recordAddress r)"

definition isAliveAt :: "document_record \<Rightarrow> document_point \<Rightarrow> bool" where
  "isAliveAt r at = (case at of
      Current \<Rightarrow> retiredAt r = None
    | At n \<Rightarrow> createdAt r \<le> n \<and> (case retiredAt r of None \<Rightarrow> True | Some m \<Rightarrow> n < m))"

definition isCurrentOnly :: "'a document_create_scheme \<Rightarrow> bool" where
  "isCurrentOnly r = (case dc_scope r of ConversationScope _ (Rewindable _) \<Rightarrow> False | _ \<Rightarrow> True)"

definition tableContaining :: "storage \<Rightarrow> nat \<Rightarrow> table_name option" where
  "tableContaining s i =
     (if conversations s i \<noteq> None then Some ConversationTable
      else if entries s i \<noteq> None then Some EntryTable
      else if tasks s i \<noteq> None then Some TaskTable
      else if submissions s i \<noteq> None then Some SubmissionTable
      else if documents s i \<noteq> None then Some DocumentTable
      else None)"

text \<open>With a limit of zero there is no last item to continue after, and reading its id throws.\<close>

definition page :: "('a \<Rightarrow> nat) \<Rightarrow> 'a list \<Rightarrow> nat \<Rightarrow> (storage_error, 'a page) result" where
  "page ident values limit =
     (let items = take limit values in
      if length values \<le> limit then Inr \<lparr>page_items = items, page_next = None\<rparr>
      else if items = [] then Inl UndefinedAccess
      else Inr \<lparr>page_items = items, page_next = Some (ident (last items))\<rparr>)"

definition assertOpen :: "storage \<Rightarrow> (storage_error, unit) result" where
  "assertOpen s = (if closed s then Inl StorageClosed else Inr ())"

section \<open>The checks of a commit\<close>

fun write_target :: "storage_write \<Rightarrow> (nat \<times> table_name) option" where
  "write_target (WriteConversation c) = Some (cv_id c, ConversationTable)"
| "write_target (WriteEntry e) = Some (en_id e, EntryTable)"
| "write_target (WriteTask t) = Some (tk_id t, TaskTable)"
| "write_target (WriteSubmission b) = Some (sb_id b, SubmissionTable)"
| "write_target (DocumentCreate r _ _) = Some (dc_id r, DocumentTable)"
| "write_target (DocumentChange _ _) = None"
| "write_target (DocumentRetire _) = None"

definition claim_id :: "storage \<Rightarrow> (nat \<times> table_name) list \<Rightarrow> storage_write \<Rightarrow> (storage_error, (nat \<times> table_name) list) result" where
  "claim_id s claimed w = (case write_target w of
      None \<Rightarrow> Inr claimed
    | Some (i, table) \<Rightarrow>
        (let existing = tableContaining s i; earlier = map_of claimed i in
         if table = ConversationTable \<or> table = EntryTable \<or> table = DocumentTable then
           (case existing of
              Some t \<Rightarrow> Inl (AlreadyBelongs i t)
            | None \<Rightarrow> if earlier \<noteq> None then Inl (WrittenTwice i) else Inr (map_set i table claimed))
         else
           (case existing of
              Some t \<Rightarrow> if t \<noteq> table then Inl (AlreadyBelongs i t)
                else if earlier \<noteq> None \<and> earlier \<noteq> Some table then Inl (TwoRecordTypes i) else Inr (map_set i table claimed)
            | None \<Rightarrow> if earlier \<noteq> None \<and> earlier \<noteq> Some table then Inl (TwoRecordTypes i) else Inr (map_set i table claimed))))"

definition checkGlobalIds :: "storage \<Rightarrow> storage_write list \<Rightarrow> (storage_error, (nat \<times> table_name) list) result" where
  "checkGlobalIds s writes = rfold (claim_id s) [] writes"

definition no_action :: document_action where
  "no_action = \<lparr>da_create = None, da_content = None, da_retire = False\<rparr>"

definition action_of :: "(nat \<times> document_action) list \<Rightarrow> nat \<Rightarrow> document_action" where
  "action_of actions i = (case map_of actions i of None \<Rightarrow> no_action | Some a \<Rightarrow> a)"

definition prepare_write :: "(nat \<times> document_action) list \<Rightarrow> storage_write \<Rightarrow> (storage_error, (nat \<times> document_action) list) result" where
  "prepare_write actions w = (case w of
      DocumentCreate r version v \<Rightarrow>
        (let i = dc_id r; a = action_of actions i in
         if da_create a \<noteq> None \<or> da_content a \<noteq> None then Inl (ManyContents i)
         else Inr (map_set i (a\<lparr>da_create := Some r, da_content := Some (Base version v)\<rparr>) actions))
    | DocumentChange i c \<Rightarrow>
        (let a = action_of actions i in
         if da_content a \<noteq> None then Inl (ManyContents i) else Inr (map_set i (a\<lparr>da_content := Some c\<rparr>) actions))
    | DocumentRetire i \<Rightarrow>
        (let a = action_of actions i in
         if da_retire a then Inl (RetiredTwice i) else Inr (map_set i (a\<lparr>da_retire := True\<rparr>) actions))
    | _ \<Rightarrow> Inr actions)"

definition prepareDocumentActions :: "storage_write list \<Rightarrow> (storage_error, (nat \<times> document_action) list) result" where
  "prepareDocumentActions writes = rfold prepare_write [] writes"

text \<open>The checks of one action: existence, a base where one is needed, and the versions of a delta.\<close>

definition check_action :: "storage \<Rightarrow> nat \<Rightarrow> document_action \<Rightarrow> (storage_error, jsstring) result" where
  "check_action s i a =
     (let existing = documents s i in
      if da_create a = None \<and> existing = None then Inl (UnknownDocument i)
      else if da_create a \<noteq> None \<and> existing \<noteq> None then Inl (DocumentExists i)
      else if (case existing of None \<Rightarrow> False | Some d \<Rightarrow> retiredAt (ss_record d) \<noteq> None) then Inl (DocumentRetired i)
      else if da_create a \<noteq> None \<and> \<not> (case da_content a of None \<Rightarrow> False | Some c \<Rightarrow> is_base c) then Inl (CreationNeedsBase i)
      else
        rbind (case da_content a of
            Some (Delta version ops) \<Rightarrow>
              (case existing of
                 None \<Rightarrow> Inl (DeltaWithoutBase i)
               | Some d \<Rightarrow>
                   if ss_revisions d = [] then Inl (DeltaWithoutBase i)
                   else if content_version (rv_content (last (ss_revisions d))) \<noteq> version then Inl (TransitionNeedsBase i)
                   else Inr ())
          | _ \<Rightarrow> Inr ())
          (\<lambda>_. case da_create a of
             Some r \<Rightarrow> Inr (recordAddressKey r)
           | None \<Rightarrow> (case existing of Some d \<Rightarrow> Inr (recordAddressKey (ss_record d)) | None \<Rightarrow> Inl UndefinedAccess)))"

definition current_of :: "storage \<Rightarrow> jsstring \<Rightarrow> nat option" where
  "current_of s key = (case documentAddresses s key of None \<Rightarrow> None | Some ix \<Rightarrow> ix_currentId ix)"

definition count_live :: "storage \<Rightarrow> (jsstring \<times> int) list \<Rightarrow> nat \<times> document_action \<Rightarrow> (storage_error, (jsstring \<times> int) list) result" where
  "count_live s liveCounts p = (case p of (i, a) \<Rightarrow>
     rbind (check_action s i a) (\<lambda>key.
       let currentId = current_of s key;
           live = (case map_of liveCounts key of None \<Rightarrow> (if currentId = None then 0 else 1) | Some n \<Rightarrow> n);
           live1 = (if da_retire a \<and> currentId = Some i then live - 1 else live);
           live2 = (if da_create a \<noteq> None \<and> \<not> da_retire a then live1 + 1 else live1)
       in Inr (map_set key live2 liveCounts)))"

definition checkDocumentActions :: "storage \<Rightarrow> (nat \<times> document_action) list \<Rightarrow> (storage_error, unit) result" where
  "checkDocumentActions s actions =
     rbind (rfold (count_live s) [] actions) (\<lambda>liveCounts.
       if list_ex (\<lambda>p. snd p > 1) liveCounts then Inl AddressOccupied else Inr ())"

section \<open>Applying a commit\<close>

definition ids_at :: "('k \<rightharpoonup> nat list) \<Rightarrow> 'k \<Rightarrow> nat list" where
  "ids_at m k = (case m k of None \<Rightarrow> [] | Some ids \<Rightarrow> ids)"

definition insert_at :: "('k \<rightharpoonup> nat list) \<Rightarrow> 'k \<Rightarrow> nat \<Rightarrow> ('k \<rightharpoonup> nat list)" where
  "insert_at m k i = m(k \<mapsto> insertSorted (ids_at m k) i)"

definition write_conversation :: "storage \<Rightarrow> conversation_record \<Rightarrow> storage" where
  "write_conversation s c = s\<lparr>conversations := (conversations s)(cv_id c \<mapsto> c),
     conversationIds := insertSorted (conversationIds s) (cv_id c), nextId := max (nextId s) (cv_id c + 1)\<rparr>"

definition write_entry :: "nat \<Rightarrow> storage \<Rightarrow> entry_record \<Rightarrow> storage" where
  "write_entry seq s e = s\<lparr>entries := (entries s)(en_id e \<mapsto> e), entryCommitSeqs := (entryCommitSeqs s)(en_id e \<mapsto> seq),
     entryIds := insert_at (entryIds s) (en_conversationId e) (en_id e),
     headEntryIds := (if en_head e = None then headEntryIds s else insert_at (headEntryIds s) (en_conversationId e) (en_id e)),
     nextId := max (nextId s) (en_id e + 1)\<rparr>"

definition index_task :: "storage \<Rightarrow> task_record \<Rightarrow> storage" where
  "index_task s t =
     (let i = tk_id t; status = task_status_of (tk_state t); byStatus = taskIdsByStatus s in
      case tasks s i of
        None \<Rightarrow> s\<lparr>taskIds := insertSorted (taskIds s) i, taskIdsByStatus := byStatus(status := insertSorted (byStatus status) i)\<rparr>
      | Some previous \<Rightarrow>
          (let old = task_status_of (tk_state previous) in
           if old \<noteq> status then
             (let removed = byStatus(old := removeSorted (byStatus old) i) in
              s\<lparr>taskIdsByStatus := removed(status := insertSorted (removed status) i)\<rparr>)
           else s))"

definition write_task :: "storage \<Rightarrow> task_record \<Rightarrow> storage" where
  "write_task s t = (let s1 = index_task s t in
     s1\<lparr>tasks := (tasks s1)(tk_id t \<mapsto> t), nextId := max (nextId s1) (tk_id t + 1)\<rparr>)"

text \<open>Forgetting the request of the previous version of a submission, when the index still points to it.\<close>

definition forget_request :: "storage \<Rightarrow> nat \<Rightarrow> storage" where
  "forget_request s i = (case submissions s i of
      None \<Rightarrow> s
    | Some previous \<Rightarrow>
        (case sb_requestId previous of
           None \<Rightarrow> s
         | Some r \<Rightarrow>
             (case submissionIdsByRequest s (sb_conversationId previous) of
                None \<Rightarrow> s
              | Some requests \<Rightarrow>
                  if map_of requests r = Some i then
                    (let left = map_delete r requests in
                     s\<lparr>submissionIdsByRequest :=
                         (if left = [] then (submissionIdsByRequest s)(sb_conversationId previous := None)
                          else (submissionIdsByRequest s)(sb_conversationId previous \<mapsto> left))\<rparr>)
                  else s)))"

definition write_submission :: "storage \<Rightarrow> submission_record \<Rightarrow> storage" where
  "write_submission s b =
     (let s1 = forget_request s (sb_id b); s2 = s1\<lparr>submissions := (submissions s1)(sb_id b \<mapsto> b)\<rparr>;
          s3 = (case sb_requestId b of
             None \<Rightarrow> s2
           | Some r \<Rightarrow>
               (let requests = (case submissionIdsByRequest s2 (sb_conversationId b) of None \<Rightarrow> [] | Some m \<Rightarrow> m) in
                s2\<lparr>submissionIdsByRequest := (submissionIdsByRequest s2)(sb_conversationId b \<mapsto> map_set r (sb_id b) requests)\<rparr>))
      in s3\<lparr>nextId := max (nextId s3) (sb_id b + 1)\<rparr>)"

fun apply_write :: "nat \<Rightarrow> storage \<Rightarrow> storage_write \<Rightarrow> storage" where
  "apply_write seq s (WriteConversation c) = write_conversation s c"
| "apply_write seq s (WriteEntry e) = write_entry seq s e"
| "apply_write seq s (WriteTask t) = write_task s t"
| "apply_write seq s (WriteSubmission b) = write_submission s b"
| "apply_write seq s (DocumentCreate _ _ _) = s"
| "apply_write seq s (DocumentChange _ _) = s"
| "apply_write seq s (DocumentRetire _) = s"

text \<open>
  One document action in three steps; each may read a document or an address that is not there, which throws before
  the step changes anything.
\<close>

definition stamp :: "document_create \<Rightarrow> nat \<Rightarrow> bool \<Rightarrow> document_record" where
  "stamp c seq retire = \<lparr>dc_id = dc_id c, dc_kind = dc_kind c, dc_key = dc_key c, dc_scope = dc_scope c,
     createdAt = seq, retiredAt = (if retire then Some seq else None)\<rparr>"

definition create_document :: "nat \<Rightarrow> storage \<Rightarrow> nat \<Rightarrow> document_record \<Rightarrow> document_content \<Rightarrow> storage" where
  "create_document seq s i record content =
     (let key = recordAddressKey record;
          address = (case documentAddresses s key of None \<Rightarrow> \<lparr>ix_ids = [], ix_currentId = None\<rparr> | Some ix \<Rightarrow> ix)
      in s\<lparr>documents := (documents s)(i \<mapsto> \<lparr>ss_record = record, ss_revisions = [\<lparr>rv_content = content, rv_seq = seq\<rparr>]\<rparr>),
           documentAddresses := (documentAddresses s)(key \<mapsto> address\<lparr>ix_ids := insertSorted (ix_ids address) i\<rparr>),
           documentIdsByScope := insert_at (documentIdsByScope s) (scopeKey (scope_of (dc_scope record))) i,
           nextId := max (nextId s) (i + 1)\<rparr>)"

definition apply_content :: "nat \<Rightarrow> storage \<Rightarrow> nat \<Rightarrow> document_action \<Rightarrow> storage option" where
  "apply_content seq s i a = (case da_create a of
      Some c \<Rightarrow>
        (case da_content a of None \<Rightarrow> None | Some content \<Rightarrow> Some (create_document seq s i (stamp c seq (da_retire a)) content))
    | None \<Rightarrow>
        (case da_content a of
           None \<Rightarrow> Some s
         | Some content \<Rightarrow>
             (case documents s i of
                None \<Rightarrow> None
              | Some stored \<Rightarrow>
                  (let revision = \<lparr>rv_content = content, rv_seq = seq\<rparr>;
                       revisions = (if is_base content \<and> isCurrentOnly (ss_record stored) then [revision]
                                    else ss_revisions stored @ [revision])
                   in Some (s\<lparr>documents := (documents s)(i \<mapsto> stored\<lparr>ss_revisions := revisions\<rparr>)\<rparr>)))))"

definition apply_retire :: "nat \<Rightarrow> storage \<Rightarrow> nat \<Rightarrow> document_action \<Rightarrow> storage option" where
  "apply_retire seq s i a =
     (if \<not> da_retire a then Some s
      else case documents s i of
        None \<Rightarrow> None
      | Some stored \<Rightarrow>
          (let stored1 = (if da_create a = None then stored\<lparr>ss_record := (ss_record stored)\<lparr>retiredAt := Some seq\<rparr>\<rparr> else stored);
               stored2 = (if isCurrentOnly (ss_record stored1) then stored1\<lparr>ss_revisions := []\<rparr> else stored1)
           in Some (s\<lparr>documents := (documents s)(i \<mapsto> stored2)\<rparr>)))"

definition apply_address :: "storage \<Rightarrow> nat \<Rightarrow> document_action \<Rightarrow> storage option" where
  "apply_address s i a =
     (if da_create a = None \<and> \<not> da_retire a then Some s
      else case documents s i of
        None \<Rightarrow> None
      | Some stored \<Rightarrow>
          (let key = recordAddressKey (ss_record stored) in
           case documentAddresses s key of
             None \<Rightarrow> None
           | Some address \<Rightarrow>
               (let address1 = (if da_retire a \<and> ix_currentId address = Some i then address\<lparr>ix_currentId := None\<rparr> else address);
                    address2 = (if da_create a \<noteq> None \<and> \<not> da_retire a then address1\<lparr>ix_currentId := Some i\<rparr> else address1)
                in Some (s\<lparr>documentAddresses := (documentAddresses s)(key \<mapsto> address2)\<rparr>))))"

definition apply_action :: "nat \<Rightarrow> storage \<Rightarrow> nat \<times> document_action \<Rightarrow> storage \<times> (storage_error, unit) result" where
  "apply_action seq s p = (case p of (i, a) \<Rightarrow>
     (case apply_content seq s i a of
        None \<Rightarrow> (s, Inl UndefinedAccess)
      | Some s1 \<Rightarrow>
          (case apply_retire seq s1 i a of
             None \<Rightarrow> (s1, Inl UndefinedAccess)
           | Some s2 \<Rightarrow>
               (case apply_address s2 i a of
                  None \<Rightarrow> (s2, Inl UndefinedAccess)
                | Some s3 \<Rightarrow> (s3, Inr ())))))"

fun applyDocumentActions :: "nat \<Rightarrow> storage \<Rightarrow> (nat \<times> document_action) list \<Rightarrow> storage \<times> (storage_error, unit) result" where
  "applyDocumentActions seq s [] = (s, Inr ())"
| "applyDocumentActions seq s (p # ps) = (case apply_action seq s p of
      (s', Inl e) \<Rightarrow> (s', Inl e)
    | (s', Inr _) \<Rightarrow> applyDocumentActions seq s' ps)"

definition check_commit :: "storage \<Rightarrow> storage_write list \<Rightarrow> (storage_error, (nat \<times> document_action) list) result" where
  "check_commit s writes =
     rbind (checkGlobalIds s writes) (\<lambda>_.
     rbind (prepareDocumentActions writes) (\<lambda>actions.
     rbind (checkDocumentActions s actions) (\<lambda>_. Inr actions)))"

definition storage_commit :: "storage \<Rightarrow> storage_write list \<Rightarrow> storage \<times> (storage_error, nat) result" where
  "storage_commit s writes =
     (case assertOpen s of
        Inl e \<Rightarrow> (s, Inl e)
      | Inr _ \<Rightarrow>
          (let seq = nextSeq s in
           case check_commit s writes of
             Inl e \<Rightarrow> (s, Inl e)
           | Inr actions \<Rightarrow>
               (case applyDocumentActions seq (foldl (apply_write seq) s writes) actions of
                  (s', Inl e) \<Rightarrow> (s', Inl e)
                | (s', Inr _) \<Rightarrow> (s'\<lparr>nextSeq := nextSeq s' + 1\<rparr>, Inr seq))))"

definition mintId :: "storage \<Rightarrow> storage \<times> (storage_error, nat) result" where
  "mintId s =
     (case assertOpen s of
        Inl e \<Rightarrow> (s, Inl e)
      | Inr _ \<Rightarrow>
          if int (nextId s) > MAX_SAFE_INTEGER then (s, Inl IdSpaceExhausted)
          else (s\<lparr>nextId := nextId s + 1\<rparr>, Inr (nextId s)))"

definition storage_close :: "storage \<Rightarrow> storage" where
  "storage_close s = s\<lparr>closed := True\<rparr>"

section \<open>Lookups\<close>

definition storage_conversation :: "storage \<Rightarrow> nat \<Rightarrow> (storage_error, conversation_record option) result" where
  "storage_conversation s i = rbind (assertOpen s) (\<lambda>_. Inr (conversations s i))"

definition storage_entry :: "storage \<Rightarrow> nat \<Rightarrow> (storage_error, (entry_record \<times> nat option) option) result" where
  "storage_entry s i = rbind (assertOpen s) (\<lambda>_. Inr (map_option (\<lambda>e. (e, entryCommitSeqs s i)) (entries s i)))"

definition storage_task :: "storage \<Rightarrow> nat \<Rightarrow> (storage_error, task_record option) result" where
  "storage_task s i = rbind (assertOpen s) (\<lambda>_. Inr (tasks s i))"

definition storage_submission :: "storage \<Rightarrow> nat \<Rightarrow> (storage_error, submission_record option) result" where
  "storage_submission s i = rbind (assertOpen s) (\<lambda>_. Inr (submissions s i))"

text \<open>
  Where the code asserts that a record an index names is in its table: a missing one is an error of the model, which the
  invariant below excludes.
\<close>

definition present :: "'a option \<Rightarrow> (storage_error, 'a) result" where
  "present v = (case v of None \<Rightarrow> Inl UndefinedAccess | Some x \<Rightarrow> Inr x)"

definition submissionByRequest :: "storage \<Rightarrow> nat \<Rightarrow> jsstring \<Rightarrow> (storage_error, submission_record option) result" where
  "submissionByRequest s conversationId requestId = rbind (assertOpen s) (\<lambda>_.
     case Option.bind (submissionIdsByRequest s conversationId) (\<lambda>m. map_of m requestId) of
       None \<Rightarrow> Inr None
     | Some i \<Rightarrow> Inr (submissions s i))"

section \<open>Documents\<close>

fun first_alive :: "storage \<Rightarrow> nat \<Rightarrow> nat list \<Rightarrow> (storage_error, document_record option) result" where
  "first_alive s at [] = Inr None"
| "first_alive s at (i # is) = rbind (present (documents s i)) (\<lambda>d.
     if isAliveAt (ss_record d) (At at) then Inr (Some (ss_record d)) else first_alive s at is)"

definition findDocument :: "storage \<Rightarrow> document_address \<Rightarrow> document_point \<Rightarrow> (storage_error, document_record option) result" where
  "findDocument s address at = rbind (assertOpen s) (\<lambda>_.
     let index = documentAddresses s (addressKey address) in
     case at of
       Current \<Rightarrow>
         (case Option.bind index ix_currentId of
            None \<Rightarrow> Inr None
          | Some i \<Rightarrow> rbind (present (documents s i)) (\<lambda>d. Inr (Some (ss_record d))))
     | At n \<Rightarrow> first_alive s n (case index of None \<Rightarrow> [] | Some ix \<Rightarrow> ix_ids ix))"

text \<open>The walk back to the last base; the revisions are given newest first.\<close>

fun since_base :: "document_revision list \<Rightarrow> document_revision list \<Rightarrow> (nat \<times> json obj \<times> document_revision list) option" where
  "since_base [] deltas = None"
| "since_base (r # rs) deltas = (case rv_content r of
      Base version v \<Rightarrow> Some (version, v, deltas)
    | Delta _ _ \<Rightarrow> since_base rs (r # deltas))"

definition apply_revision :: "nat \<Rightarrow> nat \<Rightarrow> json \<Rightarrow> document_revision \<Rightarrow> (storage_error, json) result" where
  "apply_revision i version v r = (case rv_content r of
      Base _ _ \<Rightarrow> Inl (CrossesVersion i)
    | Delta w ops \<Rightarrow>
        if w \<noteq> version then Inl (CrossesVersion i)
        else (case applyImmutable (Some v) ops of
            Inl e \<Rightarrow> Inl (PatchFailed e)
          | Inr None \<Rightarrow> Inl UndefinedAccess
          | Inr (Some x) \<Rightarrow> Inr x))"

definition materialize :: "nat \<Rightarrow> document_revision list \<Rightarrow> (storage_error, nat \<times> json) result" where
  "materialize i revisions = (case since_base (rev revisions) [] of
      None \<Rightarrow> Inl (MissingBase i)
    | Some (version, v, deltas) \<Rightarrow> rbind (rfold (apply_revision i version) (JObj v) deltas) (\<lambda>x. Inr (version, clone x)))"

definition storage_document :: "storage \<Rightarrow> nat \<Rightarrow> document_point \<Rightarrow> (storage_error, stored_document option) result" where
  "storage_document s i at = rbind (assertOpen s) (\<lambda>_.
     case documents s i of
       None \<Rightarrow> Inr None
     | Some stored \<Rightarrow>
         if at \<noteq> Current \<and> isCurrentOnly (ss_record stored) then Inl (NoHistoricalContent i)
         else if \<not> isAliveAt (ss_record stored) at then Inr None
         else
           (let revisions = (case at of Current \<Rightarrow> ss_revisions stored | At n \<Rightarrow> filter (\<lambda>r. rv_seq r \<le> n) (ss_revisions stored)) in
            rbind (materialize i revisions) (\<lambda>(version, v).
              Inr (Some \<lparr>sd_record = ss_record stored, sd_version = version, sd_value = v\<rparr>))))"

section \<open>Scans\<close>

definition start_after :: "nat list \<Rightarrow> nat option \<Rightarrow> nat" where
  "start_after ids cursor = (case cursor of None \<Rightarrow> 0 | Some after \<Rightarrow> upperBound ids after)"

definition scanConversations :: "storage \<Rightarrow> nat option \<Rightarrow> nat \<Rightarrow> (storage_error, conversation_record page) result" where
  "scanConversations s cursor limit = rbind (assertOpen s) (\<lambda>_.
     rbind (rmap (\<lambda>i. present (conversations s i)) (take (limit + 1) (drop (start_after (conversationIds s) cursor) (conversationIds s))))
       (\<lambda>values. page cv_id values limit))"

text \<open>The loop of a filtering scan: it stops once one value more than the limit is collected.\<close>

fun scan_loop :: "(nat \<Rightarrow> (storage_error, 'a) result) \<Rightarrow> ('a \<Rightarrow> bool) \<Rightarrow> nat \<Rightarrow> 'a list \<Rightarrow> nat list \<Rightarrow> (storage_error, 'a list) result" where
  "scan_loop get wanted limit values [] = Inr values"
| "scan_loop get wanted limit values (i # is) =
     (if limit < length values then Inr values
      else rbind (get i) (\<lambda>v. scan_loop get wanted limit (if wanted v then values @ [v] else values) is))"

definition given :: "'a option \<Rightarrow> 'a \<Rightarrow> bool" where
  "given q v = (case q of None \<Rightarrow> True | Some w \<Rightarrow> v = w)"

definition task_matches :: "task_query \<Rightarrow> task_record \<Rightarrow> bool" where
  "task_matches q t \<longleftrightarrow> given (tq_conversationId q) (tk_conversationId t) \<and> given (tq_kind q) (tk_kind t) \<and>
     given (tq_abortRequested q) (tk_abortRequested t) \<and> given (tq_background q) (tk_background t)"

definition scanTasks :: "storage \<Rightarrow> task_query \<Rightarrow> nat option \<Rightarrow> nat \<Rightarrow> (storage_error, task_record page) result" where
  "scanTasks s q cursor limit = rbind (assertOpen s) (\<lambda>_.
     let ids = (case tq_status q of None \<Rightarrow> taskIds s | Some status \<Rightarrow> taskIdsByStatus s status) in
     rbind (scan_loop (\<lambda>i. present (tasks s i)) (task_matches q) limit [] (drop (start_after ids cursor) ids))
       (\<lambda>values. page tk_id values limit))"

definition document_matches :: "document_query \<Rightarrow> document_record \<Rightarrow> bool" where
  "document_matches q r \<longleftrightarrow> given (dq_kind q) (dc_kind r) \<and> isAliveAt r (dq_at q)"

definition scanDocuments :: "storage \<Rightarrow> document_query \<Rightarrow> nat option \<Rightarrow> nat \<Rightarrow> (storage_error, document_record page) result" where
  "scanDocuments s q cursor limit = rbind (assertOpen s) (\<lambda>_.
     let ids = ids_at (documentIdsByScope s) (scopeKey (dq_scope q)) in
     rbind (scan_loop (\<lambda>i. rbind (present (documents s i)) (\<lambda>d. Inr (ss_record d))) (document_matches q) limit [] (drop (start_after ids cursor) ids))
       (\<lambda>values. page dc_id values limit))"

section \<open>The history of a conversation\<close>

text \<open>Bounds that may be absent: no upper bound is infinity, no lower bound minus infinity.\<close>

definition min_bound :: "int option \<Rightarrow> int \<Rightarrow> int option" where
  "min_bound upper n = Some (case upper of None \<Rightarrow> n | Some u \<Rightarrow> min u n)"

definition up_to :: "nat list \<Rightarrow> int option \<Rightarrow> nat list" where
  "up_to ids upper = (case upper of None \<Rightarrow> ids | Some u \<Rightarrow> if u < 0 then [] else take (upperBound ids (nat u)) ids)"

definition below :: "int option \<Rightarrow> nat option \<Rightarrow> bool" where
  "below upper lower = (case (upper, lower) of (Some u, Some l) \<Rightarrow> u < int l | _ \<Rightarrow> False)"

text \<open>
  The generator together with the loop that consumes it and leaves once \<^term>\<open>need\<close> entries have been yielded: the entries
  of the conversation downwards from the upper bound until one is below the lower bound, then those of the parent.
  The result None is a walk that never ends.
\<close>

partial_function (option) visible_from ::
    "storage \<Rightarrow> nat option \<Rightarrow> nat \<Rightarrow> nat \<Rightarrow> int option \<Rightarrow> (storage_error, entry_record list) result option" where
  "visible_from s minEntryId need currentId upper =
     (case rmap (\<lambda>i. present (entries s i))
        (take need (takeWhile (\<lambda>i. \<not> below (Some (int i)) minEntryId) (rev (up_to (ids_at (entryIds s) currentId) upper)))) of
        Inl e \<Rightarrow> Some (Inl e)
      | Inr own \<Rightarrow>
          if length own = need then Some (Inr own)
          else (case conversations s currentId of
             None \<Rightarrow> Some (Inl UndefinedAccess)
           | Some conversation \<Rightarrow>
               (case cv_parent conversation of
                  None \<Rightarrow> Some (Inr own)
                | Some parent \<Rightarrow>
                    (let upper' = min_bound upper (int (fp_at parent)) in
                     if below upper' minEntryId then Some (Inr own)
                     else Option.bind (visible_from s minEntryId (need - length own) (fp_conversationId parent) upper') (\<lambda>r.
                       Some (rbind r (\<lambda>inherited. Inr (own @ inherited))))))))"

definition visibleEntries :: "storage \<Rightarrow> nat \<Rightarrow> nat \<Rightarrow> nat option \<Rightarrow> int option \<Rightarrow> (storage_error, entry_record list) result option" where
  "visibleEntries s need conversationId minEntryId maxEntryId =
     (if conversations s conversationId = None then Some (Inl (UnknownConversation conversationId))
      else visible_from s minEntryId need conversationId maxEntryId)"

definition scan_upper :: "nat option \<Rightarrow> nat option \<Rightarrow> int option" where
  "scan_upper maxEntryId cursor =
     (case cursor of None \<Rightarrow> map_option int maxEntryId | Some after \<Rightarrow> min_bound (map_option int maxEntryId) (int after - 1))"

definition scanEntries :: "storage \<Rightarrow> entry_query \<Rightarrow> nat option \<Rightarrow> nat \<Rightarrow> (storage_error, entry_record page) result option" where
  "scanEntries s q cursor limit =
     (case assertOpen s of
        Inl e \<Rightarrow> Some (Inl e)
      | Inr _ \<Rightarrow>
          map_option (\<lambda>r. rbind r (\<lambda>visible. page en_id visible limit))
            (visibleEntries s (limit + 1) (eq_conversationId q) (eq_minEntryId q) (scan_upper (eq_maxEntryId q) cursor)))"

partial_function (option) marker_from :: "storage \<Rightarrow> nat \<Rightarrow> int option \<Rightarrow> (storage_error, entry_record option) result option" where
  "marker_from s currentId upper =
     (let ids = up_to (ids_at (headEntryIds s) currentId) upper in
      if ids \<noteq> [] then Some (rbind (present (entries s (last ids))) (\<lambda>e. Inr (Some e)))
      else case conversations s currentId of
        None \<Rightarrow> Some (Inl UndefinedAccess)
      | Some conversation \<Rightarrow>
          (case cv_parent conversation of
             None \<Rightarrow> Some (Inr None)
           | Some parent \<Rightarrow> marker_from s (fp_conversationId parent) (min_bound upper (int (fp_at parent)))))"

definition findLatestHeadMarker :: "storage \<Rightarrow> nat \<Rightarrow> nat option \<Rightarrow> (storage_error, entry_record option) result option" where
  "findLatestHeadMarker s conversationId atOrBefore =
     (case assertOpen s of
        Inl e \<Rightarrow> Some (Inl e)
      | Inr _ \<Rightarrow>
          if conversations s conversationId = None then Some (Inl (UnknownConversation conversationId))
          else marker_from s conversationId (map_option int atOrBefore))"

end
