(* ===== verification/StorageRecords.thy ===== *)
theory StorageRecords
  imports MemoryStorage
begin

text \<open>
  The invariant of the record tables of the memory storage and that the writes of a checked commit keep it: every index
  lists exactly the records it is meant to list, in ascending order, and no identifier is in two tables.
\<close>

section \<open>Indexes\<close>

text \<open>An index from keys to ids that lists, for every key, the ids of which \<^term>\<open>P\<close> holds.\<close>

definition indexes :: "('k \<rightharpoonup> nat list) \<Rightarrow> ('k \<Rightarrow> nat \<Rightarrow> bool) \<Rightarrow> bool" where
  "indexes m P \<longleftrightarrow> (\<forall>k. ascending (ids_at m k) \<and> (\<forall>i. i \<in> set (ids_at m k) \<longleftrightarrow> P k i))"

lemma indexesD: "indexes m P \<Longrightarrow> ascending (ids_at m k)" "indexes m P \<Longrightarrow> i \<in> set (ids_at m k) \<longleftrightarrow> P k i"
  by (auto simp: indexes_def)

lemma ids_at_insert_at: "ids_at (insert_at m k i) k' = (if k' = k then insertSorted (ids_at m k) i else ids_at m k')"
  by (simp add: ids_at_def insert_at_def)

lemma indexes_insert_at:
  assumes "indexes m P" "\<not> P k i" "\<And>k' j. Q k' j \<longleftrightarrow> P k' j \<or> k' = k \<and> j = i"
  shows "indexes (insert_at m k i) Q"
  using assms by (auto simp: indexes_def ids_at_insert_at intro: ascending_insertSorted)

lemma indexes_cong: "indexes m P \<Longrightarrow> (\<And>k i. Q k i \<longleftrightarrow> P k i) \<Longrightarrow> indexes m Q"
  by (simp add: indexes_def)

section \<open>Tables\<close>

fun holds :: "storage \<Rightarrow> table_name \<Rightarrow> nat \<Rightarrow> bool" where
  "holds s ConversationTable i = (conversations s i \<noteq> None)"
| "holds s EntryTable i = (entries s i \<noteq> None)"
| "holds s TaskTable i = (tasks s i \<noteq> None)"
| "holds s SubmissionTable i = (submissions s i \<noteq> None)"
| "holds s DocumentTable i = (documents s i \<noteq> None)"

lemma tableContaining_None: "tableContaining s i = None \<longleftrightarrow> (\<forall>t. \<not> holds s t i)"
proof
  assume none: "tableContaining s i = None"
  show "\<forall>t. \<not> holds s t i"
  proof
    fix t
    show "\<not> holds s t i" using none by (cases t) (auto simp: tableContaining_def split: if_splits)
  qed
next
  assume "\<forall>t. \<not> holds s t i"
  then have "\<not> holds s ConversationTable i" "\<not> holds s EntryTable i" "\<not> holds s TaskTable i" "\<not> holds s SubmissionTable i"
    "\<not> holds s DocumentTable i" by blast+
  then show "tableContaining s i = None" by (simp add: tableContaining_def)
qed

lemma tableContaining_Some: "tableContaining s i = Some t \<Longrightarrow> holds s t i"
  by (auto simp: tableContaining_def split: if_splits)

text \<open>No identifier is in two tables, and all of them are below the next one to be minted.\<close>

definition ids_inv :: "storage \<Rightarrow> bool" where
  "ids_inv s \<longleftrightarrow> (\<forall>i t t'. holds s t i \<longrightarrow> holds s t' i \<longrightarrow> t = t') \<and> (\<forall>i t. holds s t i \<longrightarrow> i < nextId s) \<and> 2 \<le> nextId s"

lemma holds_bound: "holds s t i \<Longrightarrow> ids_inv s \<Longrightarrow> i < nextId s"
  unfolding ids_inv_def by blast

definition conversations_inv :: "storage \<Rightarrow> bool" where
  "conversations_inv s \<longleftrightarrow> ascending (conversationIds s) \<and> set (conversationIds s) = dom (conversations s) \<and>
     (\<forall>i c. conversations s i = Some c \<longrightarrow> cv_id c = i)"

definition entries_inv :: "storage \<Rightarrow> nat \<Rightarrow> bool" where
  "entries_inv s seqs \<longleftrightarrow>
     indexes (entryIds s) (\<lambda>c i. \<exists>e. entries s i = Some e \<and> en_conversationId e = c) \<and>
     indexes (headEntryIds s) (\<lambda>c i. \<exists>e. entries s i = Some e \<and> en_conversationId e = c \<and> en_head e \<noteq> None) \<and>
     (\<forall>i e. entries s i = Some e \<longrightarrow> en_id e = i) \<and>
     dom (entryCommitSeqs s) = dom (entries s) \<and> (\<forall>i n. entryCommitSeqs s i = Some n \<longrightarrow> n < seqs)"

definition tasks_inv :: "storage \<Rightarrow> bool" where
  "tasks_inv s \<longleftrightarrow> ascending (taskIds s) \<and> set (taskIds s) = dom (tasks s) \<and>
     (\<forall>status. ascending (taskIdsByStatus s status) \<and>
       set (taskIdsByStatus s status) = {i. \<exists>t. tasks s i = Some t \<and> task_status_of (tk_state t) = status}) \<and>
     (\<forall>i t. tasks s i = Some t \<longrightarrow> tk_id t = i)"

text \<open>The index by request points to submissions of the conversation that carry the request.\<close>

definition request_index :: "storage \<Rightarrow> nat \<Rightarrow> jsstring \<Rightarrow> nat option" where
  "request_index s c r = Option.bind (submissionIdsByRequest s c) (\<lambda>m. map_of m r)"

definition submissions_inv :: "storage \<Rightarrow> bool" where
  "submissions_inv s \<longleftrightarrow>
     (\<forall>c r i. request_index s c r = Some i \<longrightarrow>
        (\<exists>b. submissions s i = Some b \<and> sb_conversationId b = c \<and> sb_requestId b = Some r)) \<and>
     (\<forall>i b. submissions s i = Some b \<longrightarrow> sb_id b = i)"

definition records_inv :: "storage \<Rightarrow> nat \<Rightarrow> bool" where
  "records_inv s seqs \<longleftrightarrow> conversations_inv s \<and> entries_inv s seqs \<and> tasks_inv s \<and> submissions_inv s"

lemma ids_at_empty [simp]: "ids_at Map.empty k = []"
  by (simp add: ids_at_def)

lemma new_storage_inv: "ids_inv new_storage" "records_inv new_storage 1"
proof -
  have "\<not> holds new_storage t i" for t i by (cases t) (simp_all add: new_storage_def)
  then show "ids_inv new_storage" by (simp add: ids_inv_def) (simp add: new_storage_def)
qed (simp add: records_inv_def conversations_inv_def entries_inv_def tasks_inv_def submissions_inv_def request_index_def
    indexes_def new_storage_def)

section \<open>One write\<close>

lemma write_conversation_keeps:
  assumes "conversations_inv s" "conversations s (cv_id c) = None"
  shows "conversations_inv (write_conversation s c)"
  using assms by (auto simp: conversations_inv_def write_conversation_def intro!: ascending_insertSorted)

lemma write_entry_keeps:
  assumes "entries_inv s seqs" "entries s (en_id e) = None" "seq < seqs"
  shows "entries_inv (write_entry seq s e) seqs"
proof -
  have all: "indexes (entryIds (write_entry seq s e)) (\<lambda>c i. \<exists>x. entries (write_entry seq s e) i = Some x \<and> en_conversationId x = c)"
    unfolding write_entry_def using assms(1,2) by (auto simp: entries_inv_def intro!: indexes_insert_at)
  have head: "indexes (headEntryIds (write_entry seq s e))
      (\<lambda>c i. \<exists>x. entries (write_entry seq s e) i = Some x \<and> en_conversationId x = c \<and> en_head x \<noteq> None)"
  proof (cases "en_head e")
    case None
    then show ?thesis using assms(1,2) unfolding write_entry_def by (auto simp: entries_inv_def elim!: indexes_cong)
  next
    case (Some h)
    then show ?thesis using assms(1,2) unfolding write_entry_def by (auto simp: entries_inv_def intro!: indexes_insert_at)
  qed
  have "\<forall>i x. entries (write_entry seq s e) i = Some x \<longrightarrow> en_id x = i"
    "dom (entryCommitSeqs (write_entry seq s e)) = dom (entries (write_entry seq s e))"
    "\<forall>i n. entryCommitSeqs (write_entry seq s e) i = Some n \<longrightarrow> n < seqs"
    using assms by (auto simp: entries_inv_def write_entry_def)
  then show ?thesis using all head by (simp add: entries_inv_def)
qed

lemma write_task_keeps:
  assumes "tasks_inv s"
  shows "tasks_inv (write_task s t)"
proof -
  let ?i = "tk_id t" and ?new = "task_status_of (tk_state t)"
  have inv: "ascending (taskIds s)" "set (taskIds s) = dom (tasks s)" "\<And>status. ascending (taskIdsByStatus s status)"
    "\<And>status. set (taskIdsByStatus s status) = {i. \<exists>t. tasks s i = Some t \<and> task_status_of (tk_state t) = status}"
    "\<And>i t. tasks s i = Some t \<Longrightarrow> tk_id t = i"
    using assms by (auto simp: tasks_inv_def)
  show ?thesis
  proof (cases "tasks s ?i")
    case None
    then have "?i \<notin> set (taskIds s)" "\<And>status. ?i \<notin> set (taskIdsByStatus s status)" using inv(2,4) by auto
    then show ?thesis using inv None
      by (auto simp: tasks_inv_def write_task_def index_task_def Let_def intro!: ascending_insertSorted)
  next
    case (Some old)
    let ?old = "task_status_of (tk_state old)"
    have "?i \<notin> set (taskIdsByStatus s status)" if "status \<noteq> ?old" for status using inv(4) Some that by auto
    then show ?thesis using inv Some
      by (auto simp: tasks_inv_def write_task_def index_task_def Let_def intro!: ascending_insertSorted ascending_removeSorted)
  qed
qed

lemma map_delete_Nil: "map_delete k m = [] \<Longrightarrow> r \<noteq> k \<Longrightarrow> map_of m r = None"
  by (metis fun_upd_apply map_of.simps(1) map_of_map_delete)

lemma forget_request_index:
  "request_index (forget_request s i) c r = (if (\<exists>b. submissions s i = Some b \<and> sb_conversationId b = c \<and> sb_requestId b = Some r) \<and>
     request_index s c r = Some i then None else request_index s c r)"
  by (auto simp: forget_request_def request_index_def Let_def map_delete_Nil split: option.splits)

lemma forget_request_fields:
  "submissions (forget_request s i) = submissions s" "conversations (forget_request s i) = conversations s"
  "entries (forget_request s i) = entries s" "tasks (forget_request s i) = tasks s" "documents (forget_request s i) = documents s"
  "nextId (forget_request s i) = nextId s"
  by (auto simp: forget_request_def Let_def split: option.splits)


lemma write_submission_index:
  "request_index (write_submission s b) c r =
     (if c = sb_conversationId b \<and> sb_requestId b = Some r then Some (sb_id b) else request_index (forget_request s (sb_id b)) c r)"
  by (auto simp: write_submission_def request_index_def Let_def split: option.splits)

lemma write_submission_fields:
  "submissions (write_submission s b) = (submissions s)(sb_id b \<mapsto> b)" "conversations (write_submission s b) = conversations s"
  "entries (write_submission s b) = entries s" "tasks (write_submission s b) = tasks s" "documents (write_submission s b) = documents s"
  "nextId (write_submission s b) = max (nextId s) (sb_id b + 1)"
  by (auto simp: write_submission_def Let_def forget_request_fields split: option.splits)

lemma write_submission_keeps:
  assumes "submissions_inv s"
  shows "submissions_inv (write_submission s b)"
proof -
  have "\<exists>x. ((submissions s)(sb_id b \<mapsto> b)) i = Some x \<and> sb_conversationId x = c \<and> sb_requestId x = Some r"
    if i: "request_index (write_submission s b) c r = Some i" for c r i
  proof (cases "c = sb_conversationId b \<and> sb_requestId b = Some r")
    case True
    then show ?thesis using i by (simp add: write_submission_index)
  next
    case False
    then have old: "request_index s c r = Some i"
      "\<not> ((\<exists>b'. submissions s (sb_id b) = Some b' \<and> sb_conversationId b' = c \<and> sb_requestId b' = Some r) \<and> i = sb_id b)"
      using i by (auto simp: write_submission_index forget_request_index split: if_splits)
    then obtain x where "submissions s i = Some x" "sb_conversationId x = c" "sb_requestId x = Some r"
      using assms unfolding submissions_inv_def by blast
    then show ?thesis using old(2) by auto
  qed
  then show ?thesis using assms by (auto simp: submissions_inv_def write_submission_fields)
qed

section \<open>The writes of a commit\<close>

text \<open>What a write does to the other components.\<close>

lemma write_fields:
  "entries (write_conversation s c) = entries s" "tasks (write_conversation s c) = tasks s"
  "submissions (write_conversation s c) = submissions s" "documents (write_conversation s c) = documents s"
  "conversations (write_entry seq s e) = conversations s" "tasks (write_entry seq s e) = tasks s"
  "submissions (write_entry seq s e) = submissions s" "documents (write_entry seq s e) = documents s"
  "conversations (write_task s t) = conversations s" "entries (write_task s t) = entries s"
  "submissions (write_task s t) = submissions s" "documents (write_task s t) = documents s"
  "tasks (write_task s t) = (tasks s)(tk_id t \<mapsto> t)" "nextId (write_task s t) = max (nextId s) (tk_id t + 1)"
  by (auto simp: write_conversation_def write_entry_def write_task_def index_task_def Let_def split: option.splits)

text \<open>A component of the invariant does not read what the writes to the other tables change.\<close>

lemma other_tables:
  "conversations_inv s \<Longrightarrow> conversations_inv (write_entry seq s e)" "conversations_inv s \<Longrightarrow> conversations_inv (write_task s t)"
  "conversations_inv s \<Longrightarrow> conversations_inv (write_submission s b)"
  "entries_inv s n \<Longrightarrow> entries_inv (write_conversation s c) n" "entries_inv s n \<Longrightarrow> entries_inv (write_task s t) n"
  "entries_inv s n \<Longrightarrow> entries_inv (write_submission s b) n"
  "tasks_inv s \<Longrightarrow> tasks_inv (write_conversation s c)" "tasks_inv s \<Longrightarrow> tasks_inv (write_entry seq s e)"
  "tasks_inv s \<Longrightarrow> tasks_inv (write_submission s b)"
  "submissions_inv s \<Longrightarrow> submissions_inv (write_conversation s c)" "submissions_inv s \<Longrightarrow> submissions_inv (write_entry seq s e)"
  "submissions_inv s \<Longrightarrow> submissions_inv (write_task s t)"
  by (auto simp: conversations_inv_def entries_inv_def tasks_inv_def submissions_inv_def request_index_def write_conversation_def
      write_entry_def write_task_def index_task_def write_submission_def forget_request_def Let_def split: option.splits)

text \<open>
  While the writes are applied: \<^term>\<open>s0\<close> is the storage the commit was checked against, \<^term>\<open>claimed\<close> the table of each
  id written so far, \<^term>\<open>s\<close> the storage reached.
\<close>

definition claims :: "storage \<Rightarrow> (nat \<times> table_name) list \<Rightarrow> storage \<Rightarrow> bool" where
  "claims s0 claimed s \<longleftrightarrow>
     (\<forall>i t. holds s t i \<longleftrightarrow> holds s0 t i \<or> map_of claimed i = Some t \<and> t \<noteq> DocumentTable) \<and>
     (\<forall>i t t'. map_of claimed i = Some t \<longrightarrow> holds s0 t' i \<longrightarrow> t' = t \<and> (t = TaskTable \<or> t = SubmissionTable)) \<and>
     (\<forall>i t. holds s t i \<longrightarrow> i < nextId s) \<and> 2 \<le> nextId s"

lemma holds_write:
  "holds (write_conversation s c) t i = (holds s t i \<or> t = ConversationTable \<and> i = cv_id c)"
  "holds (write_entry seq s e) t i = (holds s t i \<or> t = EntryTable \<and> i = en_id e)"
  "holds (write_task s k) t i = (holds s t i \<or> t = TaskTable \<and> i = tk_id k)"
  "holds (write_submission s b) t i = (holds s t i \<or> t = SubmissionTable \<and> i = sb_id b)"
  by (cases t; auto simp: write_fields write_submission_fields write_conversation_def write_entry_def)+

lemma holds_apply_write:
  "holds (apply_write seq s w) t i \<longleftrightarrow> holds s t i \<or> (write_target w = Some (i, t) \<and> t \<noteq> DocumentTable)"
  by (cases w) (auto simp: holds_write)

lemma nextId_apply_write:
  "nextId (apply_write seq s w) = (case write_target w of
     Some (i, t) \<Rightarrow> if t = DocumentTable then nextId s else max (nextId s) (i + 1) | None \<Rightarrow> nextId s)"
  by (cases w) (auto simp: write_fields write_submission_fields write_conversation_def write_entry_def)

lemma claim_id_cases:
  assumes "claim_id s claimed w = Inr claimed'" "ids_inv s"
  shows "(write_target w = None \<and> claimed' = claimed) \<or>
    (\<exists>i t. write_target w = Some (i, t) \<and> claimed' = map_set i t claimed \<and>
      (\<forall>t'. holds s t' i \<longrightarrow> t' = t \<and> (t = TaskTable \<or> t = SubmissionTable)) \<and>
      (map_of claimed i = None \<or> map_of claimed i = Some t \<and> (t = TaskTable \<or> t = SubmissionTable)))"
proof (cases "write_target w")
  case None
  then show ?thesis using assms(1) by (simp add: claim_id_def)
next
  case (Some p)
  then obtain i t where t: "write_target w = Some (i, t)" by (cases p) auto
  have unique: "holds s t' i \<Longrightarrow> tableContaining s i = Some t'" for t'
    using assms(2) tableContaining_None [of s i] tableContaining_Some [of s i] by (cases "tableContaining s i") (auto simp: ids_inv_def)
  show ?thesis using assms(1) t unique by (cases t) (auto simp: claim_id_def Let_def split: if_splits option.splits)
qed

lemma claims_step:
  assumes "claims s0 claimed s" "claim_id s0 claimed w = Inr claimed'" "ids_inv s0"
  shows "claims s0 claimed' (apply_write seq s w)"
proof -
  from claim_id_cases [OF assms(2,3)] show ?thesis
  proof
    assume "write_target w = None \<and> claimed' = claimed"
    moreover from this have "apply_write seq s w = s" by (cases w) auto
    ultimately show ?thesis using assms(1) by simp
  next
    assume "\<exists>i t. write_target w = Some (i, t) \<and> claimed' = map_set i t claimed \<and>
      (\<forall>t'. holds s0 t' i \<longrightarrow> t' = t \<and> (t = TaskTable \<or> t = SubmissionTable)) \<and>
      (map_of claimed i = None \<or> map_of claimed i = Some t \<and> (t = TaskTable \<or> t = SubmissionTable))"
    then obtain i t where t: "write_target w = Some (i, t)" "claimed' = map_set i t claimed"
      "\<And>t'. holds s0 t' i \<Longrightarrow> t' = t \<and> (t = TaskTable \<or> t = SubmissionTable)"
      "map_of claimed i = None \<or> map_of claimed i = Some t" by auto
    have next_id: "i < nextId (apply_write seq s w) \<or> t = DocumentTable" "nextId s \<le> nextId (apply_write seq s w)"
      using t(1) by (auto simp: nextId_apply_write)
    have c: "\<And>i t. holds s t i \<longleftrightarrow> holds s0 t i \<or> map_of claimed i = Some t \<and> t \<noteq> DocumentTable"
      "\<And>i t t'. map_of claimed i = Some t \<Longrightarrow> holds s0 t' i \<Longrightarrow> t' = t \<and> (t = TaskTable \<or> t = SubmissionTable)"
      "\<And>i t. holds s t i \<Longrightarrow> i < nextId s" "2 \<le> nextId s"
      using assms(1) unfolding claims_def by blast+
    have "holds (apply_write seq s w) t' j \<longleftrightarrow> holds s0 t' j \<or> map_of claimed' j = Some t' \<and> t' \<noteq> DocumentTable" for j t'
      using c(1) [of t' j] t by (auto simp: holds_apply_write)
    moreover have "t'' = t' \<and> (t' = TaskTable \<or> t' = SubmissionTable)" if "map_of claimed' j = Some t'" "holds s0 t'' j" for j t' t''
      using that c(2) [of j] t(2,3) by (auto split: if_splits)
    moreover have "j < nextId (apply_write seq s w)" if "holds (apply_write seq s w) t' j" for j t'
      using that c(3) [of t' j] t(1) next_id by (auto simp: holds_apply_write)
    ultimately show ?thesis using c(4) next_id(2) unfolding claims_def by (metis order_trans)
  qed
qed

lemma apply_write_keeps:
  assumes "claims s0 claimed s" "claim_id s0 claimed w = Inr claimed'" "ids_inv s0" "records_inv s seqs" "seq < seqs"
  shows "records_inv (apply_write seq s w) seqs"
proof -
  have free: "\<not> holds s t i" if "write_target w = Some (i, t)" "t = ConversationTable \<or> t = EntryTable" for i t
    using claim_id_cases [OF assms(2,3)] that assms(1) by (auto simp: claims_def)
  show ?thesis
  proof (cases w)
    case (WriteConversation c)
    then show ?thesis using assms(4) free [of "cv_id c" ConversationTable]
      by (simp add: records_inv_def other_tables write_conversation_keeps)
  next
    case (WriteEntry e)
    then show ?thesis using assms(4,5) free [of "en_id e" EntryTable]
      by (simp add: records_inv_def other_tables write_entry_keeps)
  qed (use assms(4) in \<open>simp_all add: records_inv_def other_tables write_task_keeps write_submission_keeps\<close>)
qed

lemma apply_writes_keeps:
  assumes "rfold (claim_id s0) claimed writes = Inr claimed'" "claims s0 claimed s" "ids_inv s0" "records_inv s seqs" "seq < seqs"
  shows "claims s0 claimed' (foldl (apply_write seq) s writes) \<and> records_inv (foldl (apply_write seq) s writes) seqs"
  using assms(1,2,4)
proof (induction writes arbitrary: claimed s)
  case (Cons w ws)
  from Cons.prems(1) obtain c where c: "claim_id s0 claimed w = Inr c" "rfold (claim_id s0) c ws = Inr claimed'" by (auto elim!: rbindE)
  show ?case
    using Cons.IH [OF c(2) claims_step [OF Cons.prems(2) c(1) assms(3)] apply_write_keeps [OF Cons.prems(2) c(1) assms(3) Cons.prems(3) assms(5)]]
    by simp
qed simp

end
