(* ===== verification/StorageDocuments.thy ===== *)
theory StorageDocuments
  imports StorageRecords
begin

text \<open>
  The documents of the memory storage: what a checked batch of document actions does to the table and to its indexes,
  that every address has at most one current incarnation, and that the revisions of a document always contain the base
  a read needs.
\<close>

section \<open>Prepared actions\<close>

definition actions_ok :: "(nat \<times> document_action) list \<Rightarrow> bool" where
  "actions_ok actions \<longleftrightarrow> distinct (map fst actions) \<and> (\<forall>(i, a) \<in> set actions. \<forall>r. da_create a = Some r \<longrightarrow> dc_id r = i)"

lemma set_map_set: "set (map_set k v xs) \<subseteq> insert (k, v) (set xs)"
  by (induction k v xs rule: map_set.induct) auto

lemma actions_ok_set:
  assumes "actions_ok actions" "\<And>r. da_create a = Some r \<Longrightarrow> dc_id r = i"
  shows "actions_ok (map_set i a actions)"
  using assms set_map_set [of i a actions] by (fastforce simp: actions_ok_def distinct_map_set)

lemma action_of_create: "actions_ok actions \<Longrightarrow> da_create (action_of actions i) = Some r \<Longrightarrow> dc_id r = i"
  by (auto simp: actions_ok_def action_of_def no_action_def split: option.splits dest!: map_of_SomeD)

lemma prepare_write_ok: "actions_ok actions \<Longrightarrow> prepare_write actions w = Inr actions' \<Longrightarrow> actions_ok actions'"
  by (auto simp: prepare_write_def Let_def action_of_create intro!: actions_ok_set split: storage_write.splits if_splits)

lemma prepared_ok: "prepareDocumentActions writes = Inr actions \<Longrightarrow> actions_ok actions"
  unfolding prepareDocumentActions_def
  by (rule rfold_invariant [where I = actions_ok]) (auto simp: actions_ok_def [of "[]"] prepare_write_ok)

section \<open>Checked actions\<close>

text \<open>What the checks establish of one action; the result is the key of the address it concerns.\<close>

lemma check_action_create:
  assumes "check_action s i a = Inr k" "da_create a = Some r"
  shows "documents s i = None" "k = recordAddressKey r" "\<exists>v x. da_content a = Some (Base v x)"
  using assms by (auto simp: check_action_def Let_def is_base_def split: if_splits option.splits document_content.splits)

lemma check_action_change:
  assumes "check_action s i a = Inr k" "da_create a = None"
  obtains d where "documents s i = Some d" "retiredAt (ss_record d) = None" "k = recordAddressKey (ss_record d)"
    "\<And>v ops. da_content a = Some (Delta v ops) \<Longrightarrow>
       ss_revisions d \<noteq> [] \<and> content_version (rv_content (last (ss_revisions d))) = v"
proof -
  obtain d where d: "documents s i = Some d" using assms by (auto simp: check_action_def Let_def split: if_splits)
  show ?thesis
    by (rule that [OF d]) (use assms d in \<open>auto simp: check_action_def Let_def elim!: rbindE
        split: if_splits option.splits document_content.splits\<close>)
qed

definition action_key :: "storage \<Rightarrow> nat \<times> document_action \<Rightarrow> jsstring" where
  "action_key s p = (case da_create (snd p) of
      Some r \<Rightarrow> recordAddressKey r
    | None \<Rightarrow> (case documents s (fst p) of Some d \<Rightarrow> recordAddressKey (ss_record d) | None \<Rightarrow> []))"

lemma check_action_key: "check_action s i a = Inr k \<Longrightarrow> action_key s (i, a) = k"
  by (cases "da_create a") (auto simp: action_key_def dest: check_action_create(2) elim: check_action_change)

text \<open>Actions that bring an incarnation to an address and actions that take the current one away.\<close>

definition creates :: "storage \<Rightarrow> jsstring \<Rightarrow> nat \<times> document_action \<Rightarrow> bool" where
  "creates s k p \<longleftrightarrow> action_key s p = k \<and> da_create (snd p) \<noteq> None \<and> \<not> da_retire (snd p)"

definition retires :: "storage \<Rightarrow> jsstring \<Rightarrow> nat \<times> document_action \<Rightarrow> bool" where
  "retires s k p \<longleftrightarrow> action_key s p = k \<and> da_retire (snd p) \<and> current_of s k = Some (fst p)"

definition live_after :: "storage \<Rightarrow> jsstring \<Rightarrow> (nat \<times> document_action) list \<Rightarrow> int" where
  "live_after s k ps = (if current_of s k = None then 0 else 1) - int (length (filter (retires s k) ps)) + int (length (filter (creates s k) ps))"

lemma count_live_step:
  assumes "count_live s counts p = Inr counts'"
    and "\<And>k. map_of counts k = (if \<exists>q \<in> set ps. action_key s q = k then Some (live_after s k ps) else None)"
  shows "map_of counts' k = (if \<exists>q \<in> set (ps @ [p]). action_key s q = k then Some (live_after s k (ps @ [p])) else None)"
proof -
  obtain i a where p: "p = (i, a)" by (cases p)
  obtain key where key: "check_action s i a = Inr key" using assms(1) by (auto simp: count_live_def p elim!: rbindE)
  let ?old = "case map_of counts key of None \<Rightarrow> (if current_of s key = None then 0 else 1) | Some n \<Rightarrow> n"
  have k: "action_key s p = key" using check_action_key [OF key] p by simp
  have none: "\<not> (\<exists>q \<in> set ps. action_key s q = k') \<Longrightarrow> filter (retires s k') ps = [] \<and> filter (creates s k') ps = []" for k'
    by (auto simp: filter_empty_conv retires_def creates_def)
  have old: "?old = live_after s key ps"
    using assms(2) [of key] none [of key] by (auto simp: live_after_def split: if_splits)
  have counts': "counts' = map_set key (live_after s key (ps @ [p])) counts"
    using assms(1) old k by (auto simp: count_live_def p key Let_def live_after_def retires_def creates_def)
  have other: "live_after s k' (ps @ [p]) = live_after s k' ps" if "k' \<noteq> key" for k'
    using k that by (auto simp: live_after_def retires_def creates_def)
  show ?thesis using assms(2) [of k] other [of k] k by (auto simp: counts')
qed

lemma count_live_all:
  assumes "rfold (count_live s) counts qs = Inr counts'"
    and "\<And>k. map_of counts k = (if \<exists>q \<in> set ps. action_key s q = k then Some (live_after s k ps) else None)"
  shows "map_of counts' k = (if \<exists>q \<in> set (ps @ qs). action_key s q = k then Some (live_after s k (ps @ qs)) else None) \<and>
    (\<forall>(i, a) \<in> set qs. \<exists>k. check_action s i a = Inr k)"
  using assms
proof (induction qs arbitrary: counts ps)
  case (Cons q qs)
  from Cons.prems(1) obtain c where c: "count_live s counts q = Inr c" "rfold (count_live s) c qs = Inr counts'" by (auto elim!: rbindE)
  have "map_of c k = (if \<exists>p \<in> set (ps @ [q]). action_key s p = k then Some (live_after s k (ps @ [q])) else None)" for k
    by (rule count_live_step [OF c(1) Cons.prems(2)])
  from Cons.IH [OF c(2) this] have rest: "map_of counts' k = (if \<exists>p \<in> set (ps @ q # qs). action_key s p = k then Some (live_after s k (ps @ q # qs)) else None)"
    "\<forall>(i, a) \<in> set qs. \<exists>k. check_action s i a = Inr k" by auto
  moreover have "\<exists>k. check_action s (fst q) (snd q) = Inr k" using c(1) by (auto simp: count_live_def split: prod.splits elim!: rbindE)
  ultimately show ?case by auto
qed simp

text \<open>The checks leave room: two creations never share an address, and the current incarnation makes way.\<close>

lemma length_filter_two: "x \<in> set xs \<Longrightarrow> y \<in> set xs \<Longrightarrow> x \<noteq> y \<Longrightarrow> P x \<Longrightarrow> P y \<Longrightarrow> 2 \<le> length (filter P xs)"
proof -
  assume "x \<in> set xs" "y \<in> set xs" "x \<noteq> y" "P x" "P y"
  then have "{x, y} \<subseteq> set (filter P xs)" by auto
  then have "card {x, y} \<le> card (set (filter P xs))" by (intro card_mono) auto
  also have "\<dots> \<le> length (filter P xs)" by (rule card_length)
  finally show ?thesis using \<open>x \<noteq> y\<close> by simp
qed

lemma checked_actions:
  assumes "checkDocumentActions s actions = Inr u" "(i, a) \<in> set actions"
  shows "\<exists>k. check_action s i a = Inr k"
proof -
  obtain counts where "rfold (count_live s) [] actions = Inr counts" using assms(1) by (auto simp: checkDocumentActions_def elim!: rbindE)
  from count_live_all [OF this, of "[]" "[]"] show ?thesis using assms(2) by auto
qed

lemma checked_live:
  assumes "checkDocumentActions s actions = Inr u" "actions_ok actions" "p \<in> set actions" "creates s k p"
  shows "\<And>q. q \<in> set actions \<Longrightarrow> creates s k q \<Longrightarrow> q = p"
    and "\<And>i. current_of s k = Some i \<Longrightarrow> \<exists>b. (i, b) \<in> set actions \<and> da_retire b \<and> action_key s (i, b) = k"
proof -
  obtain counts where c: "rfold (count_live s) [] actions = Inr counts" "\<not> list_ex (\<lambda>p. snd p > 1) counts"
    using assms(1) by (auto simp: checkDocumentActions_def elim!: rbindE split: if_splits)
  have "map_of counts k = Some (live_after s k actions)"
    using count_live_all [OF c(1), of "[]" k] assms(3,4) by (auto simp: creates_def)
  then have le: "live_after s k actions \<le> 1" using c(2) by (fastforce simp: list_ex_iff dest: map_of_SomeD)
  have one: "1 \<le> length (filter (creates s k) actions)" using assms(3,4) by (simp add: Suc_le_eq length_greater_0_conv [symmetric] del: length_greater_0_conv) (metis filter_empty_conv length_greater_0_conv)
  have retired: "length (filter (retires s k) actions) \<le> 1"
  proof (rule ccontr)
    assume "\<not> ?thesis"
    then obtain q q' xs where f: "filter (retires s k) actions = q # q' # xs"
      by (cases "filter (retires s k) actions" rule: remdups_adj.cases) auto
    have "distinct (map fst (q # q' # xs))" unfolding f [symmetric]
      using assms(2) by (simp add: actions_ok_def distinct_map_filter)
    moreover have "{q, q'} \<subseteq> set (filter (retires s k) actions)" unfolding f by auto
    then have "retires s k q" "retires s k q'" by auto
    ultimately show False by (auto simp: retires_def)
  qed
  show "q = p" if "q \<in> set actions" "creates s k q" for q
  proof (rule ccontr)
    assume "q \<noteq> p"
    then have two: "2 \<le> length (filter (creates s k) actions)" using length_filter_two [of q actions p] that assms(3,4) by blast
    have "filter (retires s k) actions = []" if "current_of s k = None" using that by (auto simp: filter_empty_conv retires_def)
    then show False using le retired two by (auto simp: live_after_def split: if_splits)
  qed
  show "\<exists>b. (i, b) \<in> set actions \<and> da_retire b \<and> action_key s (i, b) = k" if "current_of s k = Some i" for i
  proof -
    have "filter (retires s k) actions \<noteq> []" using le one that by (auto simp: live_after_def)
    then obtain q where "q \<in> set actions" "retires s k q" by (auto simp: filter_empty_conv)
    then show ?thesis using that by (intro exI [of _ "snd q"]) (simp add: retires_def)
  qed
qed


section \<open>One action\<close>

definition address_ids :: "storage \<Rightarrow> jsstring \<Rightarrow> nat list" where
  "address_ids s k = (case documentAddresses s k of None \<Rightarrow> [] | Some ix \<Rightarrow> ix_ids ix)"

text \<open>What an action makes of the document it names.\<close>

definition changed :: "nat \<Rightarrow> document_content \<Rightarrow> stored_document_state \<Rightarrow> stored_document_state" where
  "changed seq c d = d\<lparr>ss_revisions := (if is_base c \<and> isCurrentOnly (ss_record d) then [\<lparr>rv_content = c, rv_seq = seq\<rparr>]
     else ss_revisions d @ [\<lparr>rv_content = c, rv_seq = seq\<rparr>])\<rparr>"

definition retired :: "nat \<Rightarrow> stored_document_state \<Rightarrow> stored_document_state" where
  "retired seq d = d\<lparr>ss_record := (ss_record d)\<lparr>retiredAt := Some seq\<rparr>,
     ss_revisions := (if isCurrentOnly (ss_record d) then [] else ss_revisions d)\<rparr>"

definition born :: "nat \<Rightarrow> document_action \<Rightarrow> document_create \<Rightarrow> document_content \<Rightarrow> stored_document_state" where
  "born seq a r c = \<lparr>ss_record = stamp r seq (da_retire a),
     ss_revisions = (if da_retire a \<and> isCurrentOnly r then [] else [\<lparr>rv_content = c, rv_seq = seq\<rparr>])\<rparr>"

definition doc_after :: "nat \<Rightarrow> stored_document_state option \<Rightarrow> document_action \<Rightarrow> stored_document_state option" where
  "doc_after seq old a = (case da_create a of
      Some r \<Rightarrow> map_option (born seq a r) (da_content a)
    | None \<Rightarrow>
        map_option (\<lambda>d. (if da_retire a then retired seq else (\<lambda>x. x))
          ((case da_content a of None \<Rightarrow> d | Some c \<Rightarrow> changed seq c d))) old)"

lemma isCurrentOnly_simps [simp]:
  "isCurrentOnly (r\<lparr>retiredAt := x\<rparr>) = isCurrentOnly r" "isCurrentOnly (stamp c seq b) = isCurrentOnly c"
  by (simp_all add: isCurrentOnly_def stamp_def)

lemma recordAddressKey_simps [simp]:
  "recordAddressKey (r\<lparr>retiredAt := x\<rparr>) = recordAddressKey r" "recordAddressKey (stamp c seq b) = recordAddressKey c"
  by (simp_all add: recordAddressKey_def recordAddress_def stamp_def)

lemma doc_fields [simp]:
  "ss_record (changed seq c d) = ss_record d" "ss_record (retired seq d) = (ss_record d)\<lparr>retiredAt := Some seq\<rparr>"
  "ss_record (born seq a r c) = stamp r seq (da_retire a)"
  by (simp_all add: changed_def retired_def born_def)

lemma stamp_fields [simp]:
  "dc_id (stamp r seq b) = dc_id r" "dc_scope (stamp r seq b) = dc_scope r" "createdAt (stamp r seq b) = seq"
  "retiredAt (stamp r seq b) = (if b then Some seq else None)"
  by (simp_all add: stamp_def)

text \<open>The part of a storage that document actions change.\<close>

definition with_documents :: "storage \<Rightarrow> storage \<Rightarrow> storage" where
  "with_documents s s' = s\<lparr>documents := documents s', documentAddresses := documentAddresses s',
     documentIdsByScope := documentIdsByScope s', nextId := nextId s'\<rparr>"

definition action_done :: "nat \<Rightarrow> storage \<Rightarrow> nat \<times> document_action \<Rightarrow> storage \<Rightarrow> bool" where
  "action_done seq s p s' \<longleftrightarrow> (case p of (i, a) \<Rightarrow>
     s' = with_documents s s' \<and>
     documents s' = (documents s)(i := doc_after seq (documents s i) a) \<and>
     (\<forall>k. address_ids s' k = (if da_create a \<noteq> None \<and> k = action_key s p then insertSorted (address_ids s k) i else address_ids s k)) \<and>
     (\<forall>k. current_of s' k =
       (if k \<noteq> action_key s p then current_of s k
        else if da_create a \<noteq> None \<and> \<not> da_retire a then Some i
        else if da_retire a \<and> current_of s k = Some i then None
        else current_of s k)) \<and>
     documentIdsByScope s' = (case da_create a of
        None \<Rightarrow> documentIdsByScope s
      | Some r \<Rightarrow> insert_at (documentIdsByScope s) (scopeKey (scope_of (dc_scope r))) i) \<and>
     nextId s' = (if da_create a = None then nextId s else max (nextId s) (i + 1)))"

lemma apply_action_create:
  assumes "documents s i = None" "da_create a = Some r" "da_content a = Some c"
  shows "\<exists>s'. apply_action seq s (i, a) = (s', Inr ()) \<and> action_done seq s (i, a) s'"
proof -
  have key: "action_key s (i, a) = recordAddressKey r" using assms by (simp add: action_key_def)
  show ?thesis
    using assms key
    by (cases "da_retire a"; cases "documentAddresses s (recordAddressKey r)")
      (auto simp: apply_action_def apply_content_def apply_retire_def apply_address_def action_done_def create_document_def Let_def
        with_documents_def doc_after_def born_def address_ids_def current_of_def)
qed

lemma apply_action_change:
  assumes "documents s i = Some d" "da_create a = None" "i \<in> set (address_ids s (recordAddressKey (ss_record d)))"
  shows "\<exists>s'. apply_action seq s (i, a) = (s', Inr ()) \<and> action_done seq s (i, a) s'"
proof -
  have key: "action_key s (i, a) = recordAddressKey (ss_record d)" using assms by (simp add: action_key_def)
  obtain ix where ix: "documentAddresses s (recordAddressKey (ss_record d)) = Some ix"
    using assms(3) by (cases "documentAddresses s (recordAddressKey (ss_record d))") (auto simp: address_ids_def)
  show ?thesis
    using assms(1,2) key ix
    by (cases "da_retire a"; cases "da_content a")
      (auto simp: apply_action_def apply_content_def apply_retire_def apply_address_def action_done_def Let_def
        with_documents_def doc_after_def changed_def retired_def address_ids_def current_of_def)
qed

section \<open>The invariant of documents\<close>

definition same_version :: "document_revision \<Rightarrow> document_revision \<Rightarrow> bool" where
  "same_version r r' \<longleftrightarrow> is_base (rv_content r') \<or> content_version (rv_content r') = content_version (rv_content r)"

text \<open>
  The revisions of a document that can still be read start with a base and change their version only at a base, in the
  order of their commits; a document with history keeps the base it was created with.
\<close>

definition revisions_ok :: "document_record \<Rightarrow> document_revision list \<Rightarrow> bool" where
  "revisions_ok r revs \<longleftrightarrow>
     (if retiredAt r \<noteq> None \<and> isCurrentOnly r then revs = []
      else revs \<noteq> [] \<and> is_base (rv_content (hd revs)) \<and> successively same_version revs \<and> ascending (map rv_seq revs) \<and>
        (\<not> isCurrentOnly r \<longrightarrow> rv_seq (hd revs) = createdAt r))"

definition document_ok :: "nat \<Rightarrow> nat \<Rightarrow> stored_document_state \<Rightarrow> bool" where
  "document_ok n i d \<longleftrightarrow> (let r = ss_record d in
     dc_id r = i \<and> createdAt r < n \<and> (\<forall>m. retiredAt r = Some m \<longrightarrow> createdAt r \<le> m \<and> m < n) \<and>
     revisions_ok r (ss_revisions d) \<and> (\<forall>v \<in> set (ss_revisions d). rv_seq v < n))"

text \<open>The indexes of the documents.\<close>

definition documents_indexed :: "storage \<Rightarrow> bool" where
  "documents_indexed s \<longleftrightarrow>
     (\<forall>k. ascending (address_ids s k) \<and>
       (\<forall>i. i \<in> set (address_ids s k) \<longleftrightarrow> (\<exists>d. documents s i = Some d \<and> recordAddressKey (ss_record d) = k))) \<and>
     indexes (documentIdsByScope s) (\<lambda>k i. \<exists>d. documents s i = Some d \<and> scopeKey (scope_of (dc_scope (ss_record d))) = k)"

definition is_live :: "storage \<Rightarrow> jsstring \<Rightarrow> nat \<Rightarrow> bool" where
  "is_live s k i \<longleftrightarrow> (\<exists>d. documents s i = Some d \<and> recordAddressKey (ss_record d) = k \<and> retiredAt (ss_record d) = None)"

definition currents_ok :: "storage \<Rightarrow> bool" where
  "currents_ok s \<longleftrightarrow> (\<forall>k i. current_of s k = Some i \<longleftrightarrow> is_live s k i)"

text \<open>At no point of the history are two incarnations alive at one address.\<close>

definition no_overlap :: "storage \<Rightarrow> bool" where
  "no_overlap s \<longleftrightarrow> (\<forall>i j d e at. documents s i = Some d \<longrightarrow> documents s j = Some e \<longrightarrow>
     recordAddressKey (ss_record d) = recordAddressKey (ss_record e) \<longrightarrow> isAliveAt (ss_record d) at \<longrightarrow> isAliveAt (ss_record e) at \<longrightarrow> i = j)"

definition documents_inv :: "storage \<Rightarrow> bool" where
  "documents_inv s \<longleftrightarrow> (\<forall>i d. documents s i = Some d \<longrightarrow> document_ok (nextSeq s) i d) \<and> documents_indexed s \<and> currents_ok s \<and> no_overlap s"

lemma document_ok_mono: "document_ok n i d \<Longrightarrow> n \<le> m \<Longrightarrow> document_ok m i d"
  by (auto simp: document_ok_def Let_def)

section \<open>An action keeps what is local to a document\<close>

lemma born_ok:
  assumes "dc_id r = i" "is_base c"
  shows "document_ok (Suc seq) i (born seq a r c)"
  using assms by (auto simp: document_ok_def born_def stamp_def revisions_ok_def isCurrentOnly_def Let_def split: document_scope.splits history_mode.splits)

lemma changed_ok:
  assumes "document_ok seq i d" "retiredAt (ss_record d) = None"
    and "\<And>v ops. c = Delta v ops \<Longrightarrow> content_version (rv_content (last (ss_revisions d))) = v"
  shows "document_ok (Suc seq) i (changed seq c d)"
proof -
  let ?new = "\<lparr>rv_content = c, rv_seq = seq\<rparr>"
  have d: "ss_revisions d \<noteq> []" "is_base (rv_content (hd (ss_revisions d)))" "successively same_version (ss_revisions d)"
    "ascending (map rv_seq (ss_revisions d))" "\<not> isCurrentOnly (ss_record d) \<Longrightarrow> rv_seq (hd (ss_revisions d)) = createdAt (ss_record d)"
    "\<forall>v \<in> set (ss_revisions d). rv_seq v < seq" "dc_id (ss_record d) = i" "createdAt (ss_record d) < seq"
    using assms(1,2) by (auto simp: document_ok_def revisions_ok_def Let_def)
  have "same_version (last (ss_revisions d)) ?new" using assms(3) by (cases c) (auto simp: same_version_def is_base_def)
  then have "successively same_version (ss_revisions d @ [?new])" using d(1,3) by (simp add: successively_append_iff)
  moreover have "ascending (map rv_seq (ss_revisions d @ [?new]))" using d(4,6) by (simp add: sorted_wrt_append)
  ultimately show ?thesis using d assms(2)
    by (auto simp: document_ok_def revisions_ok_def changed_def Let_def)
qed

lemma retired_ok:
  assumes "document_ok (Suc seq) i d" "retiredAt (ss_record d) = None"
  shows "document_ok (Suc seq) i (retired seq d)"
  using assms by (auto simp: document_ok_def revisions_ok_def retired_def Let_def)

lemma doc_after_ok:
  assumes "check_action s i a = Inr k" "\<And>r. da_create a = Some r \<Longrightarrow> dc_id r = i"
    and "\<And>d. documents s i = Some d \<Longrightarrow> document_ok seq i d"
  shows "\<exists>d. doc_after seq (documents s i) a = Some d \<and> document_ok (Suc seq) i d \<and> recordAddressKey (ss_record d) = k \<and>
    (case da_create a of
       Some r \<Rightarrow> dc_scope (ss_record d) = dc_scope r \<and> createdAt (ss_record d) = seq \<and> retiredAt (ss_record d) = (if da_retire a then Some seq else None)
     | None \<Rightarrow> \<exists>d0. documents s i = Some d0 \<and> retiredAt (ss_record d0) = None \<and>
         ss_record d = (if da_retire a then (ss_record d0)\<lparr>retiredAt := Some seq\<rparr> else ss_record d0))"
proof (cases "da_create a")
  case (Some r)
  obtain v x where c: "da_content a = Some (Base v x)" using check_action_create(3) [OF assms(1) Some] by blast
  show ?thesis
    using born_ok [of r i "Base v x" seq a] assms(2) [OF Some] check_action_create(2) [OF assms(1) Some] Some c
    by (simp add: doc_after_def is_base_def)
next
  case None
  obtain d where d: "documents s i = Some d" "retiredAt (ss_record d) = None" "k = recordAddressKey (ss_record d)"
    "\<And>v ops. da_content a = Some (Delta v ops) \<Longrightarrow> ss_revisions d \<noteq> [] \<and> content_version (rv_content (last (ss_revisions d))) = v"
    using check_action_change [OF assms(1) None] by blast
  let ?d1 = "case da_content a of None \<Rightarrow> d | Some c \<Rightarrow> changed seq c d"
  have d1: "document_ok (Suc seq) i ?d1" "ss_record ?d1 = ss_record d"
    using changed_ok [OF assms(3) [OF d(1)] d(2)] d(4) document_ok_mono [OF assms(3) [OF d(1)], of "Suc seq"]
    by (auto split: option.splits)
  show ?thesis using d1 retired_ok [OF d1(1)] d None by (simp add: doc_after_def)
qed


section \<open>All actions of a commit\<close>

text \<open>
  What is reached after some of the checked actions: \<^term>\<open>s\<close> is the storage they were checked against.
\<close>

definition applied :: "nat \<Rightarrow> storage \<Rightarrow> (nat \<times> document_action) list \<Rightarrow> storage \<Rightarrow> bool" where
  "applied seq s ps s' \<longleftrightarrow>
     s' = with_documents s s' \<and>
     (\<forall>i. documents s' i = (case map_of ps i of None \<Rightarrow> documents s i | Some a \<Rightarrow> doc_after seq (documents s i) a)) \<and>
     documents_indexed s' \<and>
     (\<forall>k. (\<forall>p \<in> set ps. creates s k p \<longrightarrow> current_of s' k = Some (fst p)) \<and>
       ((\<forall>p \<in> set ps. \<not> creates s k p) \<longrightarrow> current_of s' k = (if \<exists>p \<in> set ps. retires s k p then None else current_of s k))) \<and>
     (\<forall>i. documents s' i \<noteq> None \<longrightarrow> i < nextId s') \<and> nextId s \<le> nextId s'"

lemma indexed_after:
  assumes "documents_indexed s" "action_done seq s (i, a) s'" "doc_after seq (documents s i) a = Some d"
    and "recordAddressKey (ss_record d) = action_key s (i, a)"
    and "case da_create a of
       Some r \<Rightarrow> documents s i = None \<and> dc_scope (ss_record d) = dc_scope r
     | None \<Rightarrow> \<exists>d0. documents s i = Some d0 \<and> dc_scope (ss_record d) = dc_scope (ss_record d0) \<and>
         recordAddressKey (ss_record d) = recordAddressKey (ss_record d0)"
  shows "documents_indexed s'"
proof (cases "da_create a")
  case (Some r)
  have old: "documents s i = None" "dc_scope (ss_record d) = dc_scope r" using assms(5) Some by auto
  have docs: "documents s' = (documents s)(i \<mapsto> d)" using assms(2,3) by (simp add: action_done_def)
  have fresh: "i \<notin> set (address_ids s k)" for k using assms(1) old(1) by (auto simp: documents_indexed_def)
  have scopes: "indexes (documentIdsByScope s') (\<lambda>k j. \<exists>d. documents s' j = Some d \<and> scopeKey (scope_of (dc_scope (ss_record d))) = k)"
  proof -
    have "documentIdsByScope s' = insert_at (documentIdsByScope s) (scopeKey (scope_of (dc_scope r))) i"
      using assms(2) Some by (simp add: action_done_def)
    then show ?thesis unfolding docs using assms(1) old by (auto simp: documents_indexed_def intro!: indexes_insert_at)
  qed
  have ids: "address_ids s' k = (if k = action_key s (i, a) then insertSorted (address_ids s k) i else address_ids s k)" for k
    using assms(2) Some by (simp add: action_done_def)
  have "ascending (address_ids s' k) \<and> (j \<in> set (address_ids s' k) \<longleftrightarrow> (\<exists>x. documents s' j = Some x \<and> recordAddressKey (ss_record x) = k))" for k j
    using assms(1,4) fresh old(1) unfolding ids docs by (auto simp: documents_indexed_def ascending_insertSorted)
  then show ?thesis using scopes by (simp add: documents_indexed_def)
next
  case None
  then obtain d0 where old: "documents s i = Some d0" "dc_scope (ss_record d) = dc_scope (ss_record d0)"
    "recordAddressKey (ss_record d) = recordAddressKey (ss_record d0)" using assms(5) by auto
  have docs: "documents s' = (documents s)(i \<mapsto> d)" using assms(2,3) by (simp add: action_done_def)
  have same: "documentIdsByScope s' = documentIdsByScope s" "address_ids s' = address_ids s"
    using assms(2) None by (auto simp: action_done_def fun_eq_iff)
  have "(\<exists>x. documents s' j = Some x \<and> P (recordAddressKey (ss_record x)) (dc_scope (ss_record x))) \<longleftrightarrow>
      (\<exists>x. documents s j = Some x \<and> P (recordAddressKey (ss_record x)) (dc_scope (ss_record x)))" for P j
    using old by (auto simp: docs)
  from this [of _ "\<lambda>k _. k = x" for x] this [of _ "\<lambda>_ c. scopeKey (scope_of c) = x" for x] show ?thesis
    using assms(1) by (simp add: documents_indexed_def same)
qed

lemma with_documents_trans: "s' = with_documents s s' \<Longrightarrow> s'' = with_documents s' s'' \<Longrightarrow> s'' = with_documents s s''"
  by (cases s; cases s'; cases s'') (simp add: with_documents_def)

lemma current_step:
  assumes before: "\<forall>p \<in> set ps. creates s k p \<longrightarrow> current_of s' k = Some (fst p)"
      "(\<forall>p \<in> set ps. \<not> creates s k p) \<longrightarrow> current_of s' k = (if \<exists>p \<in> set ps. retires s k p then None else current_of s k)"
    and after: "current_of s'' k = (if k \<noteq> action_key s (i, a) then current_of s' k
        else if da_create a \<noteq> None \<and> \<not> da_retire a then Some i
        else if da_retire a \<and> current_of s' k = Some i then None else current_of s' k)"
    and new: "i \<notin> fst ` set ps"
    and unique: "\<And>p. p \<in> set ps \<Longrightarrow> creates s k p \<Longrightarrow> creates s k (i, a) \<Longrightarrow> p = (i, a)"
  shows "(\<forall>p \<in> set (ps @ [(i, a)]). creates s k p \<longrightarrow> current_of s'' k = Some (fst p)) \<and>
    ((\<forall>p \<in> set (ps @ [(i, a)]). \<not> creates s k p) \<longrightarrow>
       current_of s'' k = (if \<exists>p \<in> set (ps @ [(i, a)]). retires s k p then None else current_of s k))"
proof (cases "k = action_key s (i, a)")
  case False
  then have "\<not> creates s k (i, a)" "\<not> retires s k (i, a)" by (auto simp: creates_def retires_def)
  then show ?thesis using before after False by simp
next
  case True
  show ?thesis
  proof (cases "creates s k (i, a)")
    case c: True
    then have "current_of s'' k = Some i" using after True by (auto simp: creates_def)
    then show ?thesis using unique c by fastforce
  next
    case c: False
    then have after': "current_of s'' k = (if da_retire a \<and> current_of s' k = Some i then None else current_of s' k)"
      using after True by (auto simp: creates_def)
    have r: "retires s k (i, a) \<longleftrightarrow> da_retire a \<and> current_of s k = Some i" using True by (auto simp: retires_def)
    show ?thesis
    proof (cases "\<exists>p \<in> set ps. creates s k p")
      case True
      then obtain p where p: "p \<in> set ps" "creates s k p" by blast
      then have "current_of s' k = Some (fst p)" "fst p \<noteq> i" using before(1) new by auto
      then have cur: "current_of s'' k = current_of s' k" using after' by auto
      have "\<forall>q \<in> set (ps @ [(i, a)]). creates s k q \<longrightarrow> current_of s'' k = Some (fst q)" using before(1) cur c by simp
      moreover have "\<not> (\<forall>q \<in> set (ps @ [(i, a)]). \<not> creates s k q)" using p by auto
      ultimately show ?thesis by blast
    next
      case False
      then have "current_of s' k = (if \<exists>p \<in> set ps. retires s k p then None else current_of s k)" using before(2) by blast
      then show ?thesis using after' c r False by auto
    qed
  qed
qed

lemma applied_step:
  assumes "applied seq s ps s'" "check_action s i a = Inr k" "actions_ok (ps @ [(i, a)])"
    and "\<And>j d. documents s j = Some d \<Longrightarrow> document_ok seq j d"
    and "\<And>k p. p \<in> set ps \<Longrightarrow> creates s k p \<Longrightarrow> creates s k (i, a) \<Longrightarrow> p = (i, a)"
  shows "\<exists>s''. apply_action seq s' (i, a) = (s'', Inr ()) \<and> applied seq s (ps @ [(i, a)]) s''"
proof -
  have new: "i \<notin> fst ` set ps" using assms(3) by (auto simp: actions_ok_def)
  then have none: "map_of ps i = None" by (simp add: map_of_eq_None_iff)
  have same: "documents s' i = documents s i" using assms(1) none by (simp add: applied_def)
  have key: "action_key s (i, a) = k" "action_key s' (i, a) = k" using check_action_key [OF assms(2)] same by (auto simp: action_key_def split: option.splits)
  have indexed: "documents_indexed s'" using assms(1) by (simp add: applied_def)
  have create_id: "\<And>r. da_create a = Some r \<Longrightarrow> dc_id r = i" using assms(3) by (auto simp: actions_ok_def)
  obtain d where d: "doc_after seq (documents s i) a = Some d" "recordAddressKey (ss_record d) = k"
    and cases: "case da_create a of
       Some r \<Rightarrow> dc_scope (ss_record d) = dc_scope r \<and> createdAt (ss_record d) = seq \<and> retiredAt (ss_record d) = (if da_retire a then Some seq else None)
     | None \<Rightarrow> \<exists>d0. documents s i = Some d0 \<and> retiredAt (ss_record d0) = None \<and>
         ss_record d = (if da_retire a then (ss_record d0)\<lparr>retiredAt := Some seq\<rparr> else ss_record d0)"
    using doc_after_ok [OF assms(2) create_id assms(4)] by blast
  obtain s'' where s'': "apply_action seq s' (i, a) = (s'', Inr ())" "action_done seq s' (i, a) s''"
  proof (cases "da_create a")
    case (Some r)
    then show ?thesis using that apply_action_create [of s' i a r] check_action_create [OF assms(2) Some] same by metis
  next
    case None
    obtain d0 where d0: "documents s i = Some d0" "k = recordAddressKey (ss_record d0)" using check_action_change [OF assms(2) None] by blast
    then have "i \<in> set (address_ids s' (recordAddressKey (ss_record d0)))" using indexed same by (auto simp: documents_indexed_def)
    then show ?thesis using that apply_action_change [OF _ None] d0(1) same by metis
  qed
  have docs: "documents s'' = (documents s')(i \<mapsto> d)" using s''(2) d(1) same by (simp add: action_done_def)
  have "documents_indexed s''"
  proof (rule indexed_after [OF indexed s''(2)])
    show "doc_after seq (documents s' i) a = Some d" "recordAddressKey (ss_record d) = action_key s' (i, a)" using d key same by simp_all
    show "case da_create a of
       Some r \<Rightarrow> documents s' i = None \<and> dc_scope (ss_record d) = dc_scope r
     | None \<Rightarrow> \<exists>d0. documents s' i = Some d0 \<and> dc_scope (ss_record d) = dc_scope (ss_record d0) \<and>
         recordAddressKey (ss_record d) = recordAddressKey (ss_record d0)"
      using cases check_action_create(1) [OF assms(2)] same by (auto split: option.splits)
  qed
  moreover have "s'' = with_documents s s''"
  proof (rule with_documents_trans)
    show "s' = with_documents s s'" using assms(1) unfolding applied_def by blast
    show "s'' = with_documents s' s''" using s''(2) unfolding action_done_def prod.case by blast
  qed
  moreover have "documents s'' j = (case map_of (ps @ [(i, a)]) j of None \<Rightarrow> documents s j | Some b \<Rightarrow> doc_after seq (documents s j) b)" for j
    using assms(1) d(1) none by (auto simp: docs applied_def map_add_def split: option.splits)
  moreover have "(\<forall>p \<in> set (ps @ [(i, a)]). creates s k' p \<longrightarrow> current_of s'' k' = Some (fst p)) \<and>
    ((\<forall>p \<in> set (ps @ [(i, a)]). \<not> creates s k' p) \<longrightarrow>
       current_of s'' k' = (if \<exists>p \<in> set (ps @ [(i, a)]). retires s k' p then None else current_of s k'))" for k'
    by (rule current_step [where s' = s']) (use assms(1,5) s''(2) key new in \<open>auto simp: applied_def action_done_def\<close>)
  moreover have "j < nextId s''" if "documents s'' j \<noteq> None" for j
    using that assms(1) s''(2) same cases by (auto simp: docs applied_def action_done_def less_max_iff_disj split: if_splits option.splits)
  moreover have "nextId s \<le> nextId s''" using assms(1) s''(2) by (auto simp: applied_def action_done_def)
  ultimately show ?thesis using s''(1) by (auto simp: applied_def)
qed


lemma apply_all:
  assumes "applied seq s ps s'" "\<And>i a. (i, a) \<in> set qs \<Longrightarrow> \<exists>k. check_action s i a = Inr k" "actions_ok (ps @ qs)"
    and "\<And>j d. documents s j = Some d \<Longrightarrow> document_ok seq j d"
    and "\<And>k p q. p \<in> set (ps @ qs) \<Longrightarrow> q \<in> set (ps @ qs) \<Longrightarrow> creates s k p \<Longrightarrow> creates s k q \<Longrightarrow> p = q"
  shows "\<exists>s''. applyDocumentActions seq s' qs = (s'', Inr ()) \<and> applied seq s (ps @ qs) s''"
  using assms(1-3,5)
proof (induction qs arbitrary: ps s')
  case (Cons q qs)
  obtain i a where q: "q = (i, a)" by (cases q)
  obtain k where k: "check_action s i a = Inr k" using Cons.prems(2) [of i a] q by auto
  have ok: "actions_ok (ps @ [(i, a)])" using Cons.prems(3) by (auto simp: actions_ok_def q)
  have unique: "p = (i, a)" if "p \<in> set ps" "creates s k p" "creates s k (i, a)" for k p
    using Cons.prems(4) [of p "(i, a)" k] that q by simp
  have "\<exists>s1. apply_action seq s' (i, a) = (s1, Inr ()) \<and> applied seq s (ps @ [(i, a)]) s1"
    by (rule applied_step [OF Cons.prems(1) k ok assms(4) unique])
  then obtain s1 where s1: "apply_action seq s' (i, a) = (s1, Inr ())" "applied seq s (ps @ [(i, a)]) s1" by blast
  have "\<exists>s''. applyDocumentActions seq s1 qs = (s'', Inr ()) \<and> applied seq s ((ps @ [(i, a)]) @ qs) s''"
    by (rule Cons.IH [OF s1(2)]) (use Cons.prems(2-4) q in auto)
  then show ?case using s1(1) q by auto
qed simp

section \<open>The documents after a commit\<close>

text \<open>A document of the new storage is an old one, perhaps changed or retired, or one that this commit created.\<close>

definition descends :: "nat \<Rightarrow> storage \<Rightarrow> (nat \<times> document_action) list \<Rightarrow> nat \<Rightarrow> stored_document_state \<Rightarrow> bool" where
  "descends seq s actions i d \<longleftrightarrow>
     (\<exists>a. (i, a) \<in> set actions \<and> documents s i = None \<and> da_create a \<noteq> None \<and> createdAt (ss_record d) = seq \<and>
        retiredAt (ss_record d) = (if da_retire a then Some seq else None) \<and> action_key s (i, a) = recordAddressKey (ss_record d)) \<or>
     (\<exists>d0. documents s i = Some d0 \<and> recordAddressKey (ss_record d) = recordAddressKey (ss_record d0) \<and>
        createdAt (ss_record d) = createdAt (ss_record d0) \<and>
        (if \<exists>a. (i, a) \<in> set actions \<and> da_retire a then retiredAt (ss_record d0) = None \<and> retiredAt (ss_record d) = Some seq
         else retiredAt (ss_record d) = retiredAt (ss_record d0)))"

lemma applied_document:
  assumes "applied seq s actions s'" "actions_ok actions" "documents s' i = Some d"
    and "\<And>i a. (i, a) \<in> set actions \<Longrightarrow> \<exists>k. check_action s i a = Inr k"
    and "\<And>j d. documents s j = Some d \<Longrightarrow> document_ok seq j d"
  shows "document_ok (Suc seq) i d \<and> descends seq s actions i d"
proof (cases "map_of actions i")
  case None
  then have "documents s i = Some d" using assms(1,3) by (simp add: applied_def)
  moreover have "\<not> (\<exists>a. (i, a) \<in> set actions)" using None by (force simp: map_of_eq_None_iff)
  ultimately show ?thesis using document_ok_mono [OF assms(5), of i d "Suc seq"] by (auto simp: descends_def)
next
  case (Some a)
  then have a: "(i, a) \<in> set actions" by (rule map_of_SomeD)
  have only: "(i, b) \<in> set actions \<longleftrightarrow> b = a" for b
    using assms(2) a eq_key_imp_eq_value [of actions i] unfolding actions_ok_def by blast
  obtain k where k: "check_action s i a = Inr k" using assms(4) a by blast
  have "\<And>r. da_create a = Some r \<Longrightarrow> dc_id r = i" using assms(2) a by (auto simp: actions_ok_def)
  moreover have "doc_after seq (documents s i) a = Some d" using assms(1,3) Some by (simp add: applied_def)
  ultimately have d: "document_ok (Suc seq) i d" "recordAddressKey (ss_record d) = k"
    and cases: "case da_create a of
       Some r \<Rightarrow> dc_scope (ss_record d) = dc_scope r \<and> createdAt (ss_record d) = seq \<and> retiredAt (ss_record d) = (if da_retire a then Some seq else None)
     | None \<Rightarrow> \<exists>d0. documents s i = Some d0 \<and> retiredAt (ss_record d0) = None \<and>
         ss_record d = (if da_retire a then (ss_record d0)\<lparr>retiredAt := Some seq\<rparr> else ss_record d0)"
    using doc_after_ok [OF k, of seq] assms(5) by auto
  show ?thesis
  proof (cases "da_create a")
    case (Some r)
    then show ?thesis using d cases a check_action_create(1) [OF k Some] check_action_key [OF k] by (auto simp: descends_def)
  next
    case None
    then obtain d0 where "documents s i = Some d0" "retiredAt (ss_record d0) = None"
      "ss_record d = (if da_retire a then (ss_record d0)\<lparr>retiredAt := Some seq\<rparr> else ss_record d0)" using cases by auto
    then show ?thesis using d only by (auto simp: descends_def)
  qed
qed


lemma live_iff:
  assumes "applied seq s actions s'" "actions_ok actions"
    and "\<And>i a. (i, a) \<in> set actions \<Longrightarrow> \<exists>k. check_action s i a = Inr k"
    and "\<And>j d. documents s j = Some d \<Longrightarrow> document_ok seq j d"
  shows "is_live s' k i \<longleftrightarrow> (\<exists>a. (i, a) \<in> set actions \<and> creates s k (i, a)) \<or>
    is_live s k i \<and> \<not> (\<exists>a. (i, a) \<in> set actions \<and> da_retire a)"
proof
  assume "is_live s' k i"
  then obtain d where d: "documents s' i = Some d" "recordAddressKey (ss_record d) = k" "retiredAt (ss_record d) = None"
    by (auto simp: is_live_def)
  from applied_document [OF assms(1,2) d(1) assms(3,4)]
  show "(\<exists>a. (i, a) \<in> set actions \<and> creates s k (i, a)) \<or> is_live s k i \<and> \<not> (\<exists>a. (i, a) \<in> set actions \<and> da_retire a)"
    using d(2,3) by (auto simp: creates_def is_live_def descends_def split: if_splits)
next
  have only: "(i, b) \<in> set actions \<Longrightarrow> (i, a) \<in> set actions \<Longrightarrow> a = b" for a b
    using assms(2) eq_key_imp_eq_value [of actions i] unfolding actions_ok_def by blast
  have some: "\<exists>d. documents s' i = Some d" if "(\<exists>a. (i, a) \<in> set actions) \<or> documents s i \<noteq> None"
  proof (cases "map_of actions i")
    case None
    then have "\<not> (\<exists>a. (i, a) \<in> set actions)" by (force simp: map_of_eq_None_iff)
    then show ?thesis using that assms(1) None by (auto simp: applied_def)
  next
    case (Some a)
    then have a: "(i, a) \<in> set actions" by (rule map_of_SomeD)
    then obtain k where "check_action s i a = Inr k" using assms(3) by blast
    then have "\<exists>d. doc_after seq (documents s i) a = Some d"
      using doc_after_ok [of s i a k seq] assms(2,4) a by (fastforce simp: actions_ok_def)
    then show ?thesis using assms(1) Some by (simp add: applied_def)
  qed
  assume "(\<exists>a. (i, a) \<in> set actions \<and> creates s k (i, a)) \<or> is_live s k i \<and> \<not> (\<exists>a. (i, a) \<in> set actions \<and> da_retire a)"
  then show "is_live s' k i"
  proof
    assume "\<exists>a. (i, a) \<in> set actions \<and> creates s k (i, a)"
    then obtain a where a: "(i, a) \<in> set actions" "creates s k (i, a)" by blast
    then have none: "documents s i = None" using assms(3) check_action_create(1) by (fastforce simp: creates_def)
    obtain d where d: "documents s' i = Some d" using some a by blast
    from applied_document [OF assms(1,2) d assms(3,4)] show ?thesis
      using none a only d by (fastforce simp: creates_def is_live_def descends_def)
  next
    assume l: "is_live s k i \<and> \<not> (\<exists>a. (i, a) \<in> set actions \<and> da_retire a)"
    then obtain d where d: "documents s' i = Some d" using some by (auto simp: is_live_def)
    from applied_document [OF assms(1,2) d assms(3,4)] show ?thesis
      using l d by (auto simp: is_live_def descends_def)
  qed
qed

text \<open>A checked batch of actions that has been applied to a consistent storage.\<close>

definition committed :: "storage \<Rightarrow> (nat \<times> document_action) list \<Rightarrow> storage \<Rightarrow> bool" where
  "committed s actions s' \<longleftrightarrow>
     applied (nextSeq s) s actions s' \<and> actions_ok actions \<and> checkDocumentActions s actions = Inr () \<and> documents_inv s"

lemma committedD:
  assumes "committed s actions s'"
  shows "applied (nextSeq s) s actions s'" "actions_ok actions" "checkDocumentActions s actions = Inr ()"
    "\<And>i a. (i, a) \<in> set actions \<Longrightarrow> \<exists>k. check_action s i a = Inr k"
    "\<And>j d. documents s j = Some d \<Longrightarrow> document_ok (nextSeq s) j d"
    "\<And>k i. current_of s k = Some i \<longleftrightarrow> is_live s k i"
  using assms checked_actions by (auto simp: committed_def documents_inv_def currents_ok_def)

lemma committed_document:
  assumes "committed s actions s'" "documents s' i = Some d"
  shows "document_ok (Suc (nextSeq s)) i d \<and> descends (nextSeq s) s actions i d"
  by (rule applied_document [OF committedD(1,2) [OF assms(1)] assms(2) committedD(4,5) [OF assms(1)]])

lemma committed_live:
  assumes "committed s actions s'"
  shows "is_live s' k i \<longleftrightarrow> (\<exists>a. (i, a) \<in> set actions \<and> creates s k (i, a)) \<or>
    is_live s k i \<and> \<not> (\<exists>a. (i, a) \<in> set actions \<and> da_retire a)"
  by (rule live_iff [OF committedD(1,2,4,5) [OF assms]])

lemma committed_key:
  assumes "committed s actions s'" "is_live s k i" "(i, a) \<in> set actions"
  shows "action_key s (i, a) = k"
proof -
  obtain k' where "check_action s i a = Inr k'" using committedD(4) [OF assms(1,3)] by blast
  then have "da_create a = None" using assms(2) check_action_create(1) [of s i a k'] by (cases "da_create a") (auto simp: is_live_def)
  then show ?thesis using assms(2) by (auto simp: is_live_def action_key_def)
qed

lemma committed_retires:
  assumes "committed s actions s'" "is_live s k i"
  shows "(\<exists>p \<in> set actions. retires s k p) \<longleftrightarrow> (\<exists>a. (i, a) \<in> set actions \<and> da_retire a)"
proof
  have cur: "current_of s k = Some i" using committedD(6) [OF assms(1)] assms(2) by blast
  {
    assume "\<exists>p \<in> set actions. retires s k p"
    then obtain p where "p \<in> set actions" "retires s k p" by blast
    moreover from this have "p = (i, snd p)" using cur by (simp add: retires_def prod_eq_iff)
    ultimately show "\<exists>a. (i, a) \<in> set actions \<and> da_retire a" by (metis retires_def)
  }
  assume "\<exists>a. (i, a) \<in> set actions \<and> da_retire a"
  then obtain a where a: "(i, a) \<in> set actions" "da_retire a" by blast
  then have "retires s k (i, a)" using cur committed_key [OF assms a(1)] by (simp add: retires_def)
  then show "\<exists>p \<in> set actions. retires s k p" using a(1) by blast
qed

lemma committed_created:
  assumes "committed s actions s'" "p \<in> set actions" "creates s k p"
  shows "is_live s' k i \<longleftrightarrow> i = fst p"
proof
  note live = committed_live [OF assms(1)]
  {
    assume "is_live s' k i"
    then consider a where "(i, a) \<in> set actions" "creates s k (i, a)"
      | "is_live s k i" "\<not> (\<exists>a. (i, a) \<in> set actions \<and> da_retire a)" using live [of k i] by blast
    then show "i = fst p"
    proof cases
      case 1
      then show ?thesis using checked_live(1) [OF committedD(3,2) [OF assms(1)] assms(2,3), of "(i, a)"] by auto
    next
      case 2
      then show ?thesis
        using checked_live(2) [OF committedD(3,2) [OF assms(1)] assms(2,3), of i] committedD(6) [OF assms(1)] by blast
    qed
  }
  assume "i = fst p"
  then have "(i, snd p) \<in> set actions" "creates s k (i, snd p)" using assms(2,3) by simp_all
  then show "is_live s' k i" using live [of k i] by blast
qed

lemma committed_currents:
  assumes "committed s actions s'"
  shows "current_of s' k = Some i \<longleftrightarrow> is_live s' k i"
proof -
  have cur: "(\<forall>p \<in> set actions. creates s k p \<longrightarrow> current_of s' k = Some (fst p)) \<and>
    ((\<forall>p \<in> set actions. \<not> creates s k p) \<longrightarrow> current_of s' k = (if \<exists>p \<in> set actions. retires s k p then None else current_of s k))"
    using committedD(1) [OF assms] unfolding applied_def by blast
  show ?thesis
  proof (cases "\<exists>p \<in> set actions. creates s k p")
    case True
    then obtain p where p: "p \<in> set actions" "creates s k p" by blast
    then have "current_of s' k = Some (fst p)" using cur by blast
    then show ?thesis using committed_created [OF assms p, of i] by auto
  next
    case False
    then have "current_of s' k = (if \<exists>p \<in> set actions. retires s k p then None else current_of s k)" using cur by blast
    moreover have "is_live s' k i \<longleftrightarrow> is_live s k i \<and> \<not> (\<exists>a. (i, a) \<in> set actions \<and> da_retire a)"
      using committed_live [OF assms, of k i] False by blast
    ultimately show ?thesis using committed_retires [OF assms, of k i] committedD(6) [OF assms, of k i] by auto
  qed
qed

text \<open>An incarnation alive at the new point or later is live; one alive before was so in the old storage.\<close>

lemma committed_alive:
  assumes "committed s actions s'" "documents s' i = Some d" "isAliveAt (ss_record d) (At m)"
  shows "nextSeq s \<le> m \<Longrightarrow> is_live s' (recordAddressKey (ss_record d)) i"
    and "m < nextSeq s \<Longrightarrow> \<exists>d0. documents s i = Some d0 \<and> recordAddressKey (ss_record d) = recordAddressKey (ss_record d0) \<and>
      isAliveAt (ss_record d0) (At m)"
proof -
  note doc = committed_document [OF assms(1,2)]
  show "is_live s' (recordAddressKey (ss_record d)) i" if "nextSeq s \<le> m"
  proof -
    have "\<not> m < n" if "retiredAt (ss_record d) = Some n" for n
      using doc that \<open>nextSeq s \<le> m\<close> by (auto simp: document_ok_def Let_def)
    then have "retiredAt (ss_record d) = None" using assms(3) by (cases "retiredAt (ss_record d)") (auto simp: isAliveAt_def)
    then show ?thesis using assms(2) by (simp add: is_live_def)
  qed
  show "\<exists>d0. documents s i = Some d0 \<and> recordAddressKey (ss_record d) = recordAddressKey (ss_record d0) \<and> isAliveAt (ss_record d0) (At m)"
    if "m < nextSeq s"
    using that doc assms(3) by (auto simp: isAliveAt_def descends_def split: option.splits if_splits)
qed

lemma committed_no_overlap:
  assumes "committed s actions s'" "documents s' i = Some d" "documents s' j = Some e"
    "recordAddressKey (ss_record d) = recordAddressKey (ss_record e)" "isAliveAt (ss_record d) at" "isAliveAt (ss_record e) at"
  shows "i = j"
proof -
  have unique: "i = j" if "is_live s' (recordAddressKey (ss_record d)) i" "is_live s' (recordAddressKey (ss_record e)) j"
    using that assms(4) committed_currents [OF assms(1), of "recordAddressKey (ss_record d)"] by (metis option.inject)
  show ?thesis
  proof (cases at)
    case Current
    then show ?thesis using assms by (intro unique) (auto simp: is_live_def isAliveAt_def)
  next
    case (At m)
    have am: "isAliveAt (ss_record d) (At m)" "isAliveAt (ss_record e) (At m)" using assms(5,6) At by auto
    show ?thesis
    proof (cases "nextSeq s \<le> m")
      case True
      then show ?thesis using unique committed_alive(1) [OF assms(1,2) am(1)] committed_alive(1) [OF assms(1,3) am(2)] by blast
    next
      case False
      then obtain d0 e0 where "documents s i = Some d0" "recordAddressKey (ss_record d) = recordAddressKey (ss_record d0)" "isAliveAt (ss_record d0) (At m)"
        "documents s j = Some e0" "recordAddressKey (ss_record e) = recordAddressKey (ss_record e0)" "isAliveAt (ss_record e0) (At m)"
        using committed_alive(2) [OF assms(1,2) am(1)] committed_alive(2) [OF assms(1,3) am(2)] by auto
      moreover have "no_overlap s" using assms(1) by (simp add: committed_def documents_inv_def)
      ultimately show ?thesis using assms(4) unfolding no_overlap_def by fastforce
    qed
  qed
qed

lemma committed_inv:
  assumes "committed s actions s'"
  shows "documents_inv (s'\<lparr>nextSeq := Suc (nextSeq s)\<rparr>)"
proof -
  let ?t = "s'\<lparr>nextSeq := Suc (nextSeq s)\<rparr>"
  have "no_overlap ?t" unfolding no_overlap_def using committed_no_overlap [OF assms] by simp
  moreover have "documents_indexed s'" using committedD(1) [OF assms] unfolding applied_def by blast
  then have "documents_indexed ?t" by (simp add: documents_indexed_def address_ids_def)
  moreover have "currents_ok ?t" using committed_currents [OF assms] by (simp add: currents_ok_def current_of_def is_live_def)
  moreover have "\<forall>i d. documents ?t i = Some d \<longrightarrow> document_ok (nextSeq ?t) i d" using committed_document [OF assms] by simp
  ultimately show ?thesis by (simp add: documents_inv_def)
qed

end
