(* ===== verification/StorageCommit.thy ===== *)
theory StorageCommit
  imports StorageDocuments
begin

text \<open>
  A commit of the memory storage as a whole: it either fails and changes nothing or applies every write; the invariant of
  the storage; and the interface a session relies on, stated as the locale \<^verbatim>\<open>durable_store\<close> and interpreted on the model.
\<close>

section \<open>The invariant of a storage\<close>

definition storage_inv :: "storage \<Rightarrow> bool" where
  "storage_inv s \<longleftrightarrow> ids_inv s \<and> records_inv s (nextSeq s) \<and> documents_inv s"

lemma storage_inv_new: "storage_inv new_storage"
  using new_storage_inv
  by (simp add: storage_inv_def documents_inv_def documents_indexed_def currents_ok_def no_overlap_def is_live_def current_of_def
      address_ids_def indexes_def) (simp add: new_storage_def)

section \<open>The two phases of a commit\<close>

lemma writes_fields:
  "documents (foldl (apply_write seq) s ws) = documents s" "documentAddresses (foldl (apply_write seq) s ws) = documentAddresses s"
  "documentIdsByScope (foldl (apply_write seq) s ws) = documentIdsByScope s" "nextSeq (foldl (apply_write seq) s ws) = nextSeq s"
  "closed (foldl (apply_write seq) s ws) = closed s"
proof -
  have one: "documents (apply_write seq s w) = documents s \<and> documentAddresses (apply_write seq s w) = documentAddresses s \<and>
    documentIdsByScope (apply_write seq s w) = documentIdsByScope s \<and> nextSeq (apply_write seq s w) = nextSeq s \<and>
    closed (apply_write seq s w) = closed s" for s w
    by (cases w) (auto simp: write_conversation_def write_entry_def write_task_def index_task_def write_submission_def forget_request_def
        Let_def split: option.splits)
  have "documents (foldl (apply_write seq) s ws) = documents s \<and> documentAddresses (foldl (apply_write seq) s ws) = documentAddresses s \<and>
    documentIdsByScope (foldl (apply_write seq) s ws) = documentIdsByScope s \<and> nextSeq (foldl (apply_write seq) s ws) = nextSeq s \<and>
    closed (foldl (apply_write seq) s ws) = closed s"
    by (induction ws arbitrary: s) (simp_all add: one)
  then show "documents (foldl (apply_write seq) s ws) = documents s" "documentAddresses (foldl (apply_write seq) s ws) = documentAddresses s"
    "documentIdsByScope (foldl (apply_write seq) s ws) = documentIdsByScope s" "nextSeq (foldl (apply_write seq) s ws) = nextSeq s"
    "closed (foldl (apply_write seq) s ws) = closed s" by blast+
qed

text \<open>What the checks read is not changed by the writes of records.\<close>

lemma documents_only:
  assumes "documents t = documents s" "documentAddresses t = documentAddresses s" "documentIdsByScope t = documentIdsByScope s"
  shows "check_action t = check_action s" "current_of t = current_of s" "count_live t = count_live s"
    "checkDocumentActions t = checkDocumentActions s" "nextSeq t = nextSeq s \<Longrightarrow> documents_inv t = documents_inv s"
proof -
  show a: "check_action t = check_action s" "current_of t = current_of s"
    by (intro ext, simp add: check_action_def current_of_def assms)+
  show c: "count_live t = count_live s" by (intro ext) (simp add: count_live_def a)
  show "checkDocumentActions t = checkDocumentActions s" by (intro ext) (simp add: checkDocumentActions_def c)
  show "documents_inv t = documents_inv s" if "nextSeq t = nextSeq s"
    by (simp add: documents_inv_def documents_indexed_def currents_ok_def no_overlap_def is_live_def address_ids_def a assms that)
qed

lemma records_with_documents: "records_inv (with_documents s t) n = records_inv s n"
  by (simp add: records_inv_def conversations_inv_def entries_inv_def tasks_inv_def submissions_inv_def request_index_def with_documents_def)

lemma with_documents_fields:
  "nextSeq (with_documents s t) = nextSeq s" "closed (with_documents s t) = closed s"
  "conversations (with_documents s t) = conversations s" "entries (with_documents s t) = entries s"
  "tasks (with_documents s t) = tasks s" "submissions (with_documents s t) = submissions s"
  "entryCommitSeqs (with_documents s t) = entryCommitSeqs s"
  by (simp_all add: with_documents_def)

lemma holds_with_documents: "holds (with_documents s t) table i = (if table = DocumentTable then documents t i \<noteq> None else holds s table i)"
  by (cases table) (simp_all add: with_documents_def)

text \<open>The ids of the created documents are claimed, so they are in no other table.\<close>

lemma claims_keep:
  "ids_inv s \<Longrightarrow> rfold (claim_id s) claimed writes = Inr claimed' \<Longrightarrow> map_of claimed i = Some t \<Longrightarrow> map_of claimed' i = Some t"
proof (induction writes arbitrary: claimed)
  case (Cons w ws)
  from Cons.prems(2) obtain c where c: "claim_id s claimed w = Inr c" "rfold (claim_id s) c ws = Inr claimed'" by (auto elim!: rbindE)
  have "map_of c i = Some t" using claim_id_cases [OF c(1) Cons.prems(1)] Cons.prems(3) by (auto split: if_splits)
  then show ?case using Cons.IH [OF Cons.prems(1) c(2)] by blast
qed simp

lemma claims_made:
  "ids_inv s \<Longrightarrow> rfold (claim_id s) claimed writes = Inr claimed' \<Longrightarrow> w \<in> set writes \<Longrightarrow> write_target w = Some (i, t) \<Longrightarrow>
    map_of claimed' i = Some t"
proof (induction writes arbitrary: claimed)
  case (Cons v ws)
  from Cons.prems(2) obtain c where c: "claim_id s claimed v = Inr c" "rfold (claim_id s) c ws = Inr claimed'" by (auto elim!: rbindE)
  show ?case
  proof (cases "v = w")
    case True
    then have "map_of c i = Some t" using claim_id_cases [OF c(1) Cons.prems(1)] Cons.prems(4) by auto
    then show ?thesis using claims_keep [OF Cons.prems(1) c(2)] by blast
  next
    case False
    then show ?thesis using Cons.IH [OF Cons.prems(1) c(2) _ Cons.prems(4)] Cons.prems(3) by simp
  qed
qed simp

lemma prepared_creates:
  assumes "rfold prepare_write actions writes = Inr actions'" "(i, a) \<in> set actions'" "da_create a = Some r"
  shows "(\<exists>b. (i, b) \<in> set actions \<and> da_create b = Some r) \<or> (\<exists>v x. DocumentCreate r v x \<in> set writes)"
  using assms
proof (induction writes arbitrary: actions)
  case (Cons w ws)
  from Cons.prems(1) obtain c where c: "prepare_write actions w = Inr c" "rfold prepare_write c ws = Inr actions'" by (auto elim!: rbindE)
  have "(\<exists>b. (i, b) \<in> set actions \<and> da_create b = Some r) \<or> (\<exists>v x. w = DocumentCreate r v x)"
    if "(i, b) \<in> set c" "da_create b = Some r" for b
    using c(1) that set_map_set
    by (fastforce simp: prepare_write_def Let_def action_of_def no_action_def split: storage_write.splits if_splits option.splits dest: map_of_SomeD)
  then show ?case using Cons.IH [OF c(2) Cons.prems(2,3)] by fastforce
qed auto


lemma records_inv_mono: "records_inv s n \<Longrightarrow> n \<le> m \<Longrightarrow> records_inv s m"
  unfolding records_inv_def entries_inv_def by (meson less_le_trans)

lemma commit_phases:
  assumes "storage_inv s" "check_commit s writes = Inr actions"
  shows "\<exists>claimed s1 s2. s1 = foldl (apply_write (nextSeq s)) s writes \<and> checkGlobalIds s writes = Inr claimed \<and> claims s claimed s1 \<and>
    records_inv s1 (Suc (nextSeq s)) \<and> applyDocumentActions (nextSeq s) s1 actions = (s2, Inr ()) \<and> committed s1 actions s2"
proof -
  from assms(2) obtain claimed where c: "checkGlobalIds s writes = Inr claimed" "prepareDocumentActions writes = Inr actions"
    "checkDocumentActions s actions = Inr ()" by (auto simp: check_commit_def elim!: rbindE)
  let ?s1 = "foldl (apply_write (nextSeq s)) s writes"
  have ids: "ids_inv s" using assms(1) by (simp add: storage_inv_def)
  have "records_inv s (Suc (nextSeq s))" using assms(1) records_inv_mono [of s "nextSeq s"] by (simp add: storage_inv_def)
  moreover have "claims s [] s" using ids by (auto simp: claims_def ids_inv_def)
  ultimately have s1: "claims s claimed ?s1" "records_inv ?s1 (Suc (nextSeq s))"
    using apply_writes_keeps [of s "[]" writes claimed s "Suc (nextSeq s)" "nextSeq s"] c(1) ids by (auto simp: checkGlobalIds_def)
  note docs = documents_only [OF writes_fields(1-3) [of "nextSeq s" s writes]]
  have inv: "documents_inv ?s1" using docs(5) assms(1) by (simp add: writes_fields storage_inv_def)
  have check: "checkDocumentActions ?s1 actions = Inr ()" using docs(4) c(3) by simp
  have ok: "actions_ok actions" using prepared_ok [OF c(2)] .
  have start: "applied (nextSeq s) ?s1 [] ?s1"
    using inv s1(1) ids by (auto simp: applied_def with_documents_def documents_inv_def claims_def) (metis holds.simps(5) option.distinct(1))
  have "\<exists>s2. applyDocumentActions (nextSeq s) ?s1 actions = (s2, Inr ()) \<and> applied (nextSeq s) ?s1 ([] @ actions) s2"
  proof (rule apply_all [OF start])
    show "\<And>i a. (i, a) \<in> set actions \<Longrightarrow> \<exists>k. check_action ?s1 i a = Inr k" using check by (rule checked_actions)
    show "\<And>j d. documents ?s1 j = Some d \<Longrightarrow> document_ok (nextSeq s) j d" using inv by (simp add: documents_inv_def writes_fields)
    show "\<And>k p q. p \<in> set ([] @ actions) \<Longrightarrow> q \<in> set ([] @ actions) \<Longrightarrow> creates ?s1 k p \<Longrightarrow> creates ?s1 k q \<Longrightarrow> p = q"
      using checked_live(1) [OF check ok] by simp
  qed (use ok in simp)
  then show ?thesis using c(1) s1 inv check ok by (auto simp: committed_def writes_fields)
qed

section \<open>A commit succeeds as a whole or changes nothing\<close>

definition commit_done :: "storage \<Rightarrow> storage_write list \<Rightarrow> storage \<Rightarrow> bool" where
  "commit_done s writes s' \<longleftrightarrow> (\<exists>actions s2. check_commit s writes = Inr actions \<and>
     committed (foldl (apply_write (nextSeq s)) s writes) actions s2 \<and> s' = s2\<lparr>nextSeq := Suc (nextSeq s)\<rparr>)"

lemma commit_result:
  assumes "storage_inv s"
  shows "case storage_commit s writes of
      (s', Inl e) \<Rightarrow> s' = s
    | (s', Inr seq) \<Rightarrow> seq = nextSeq s \<and> \<not> closed s \<and> commit_done s writes s'"
proof (cases "check_commit s writes")
  case (Inl e)
  then show ?thesis by (auto simp: storage_commit_def assertOpen_def)
next
  case (Inr actions)
  from commit_phases [OF assms this] obtain s2 where
    s2: "applyDocumentActions (nextSeq s) (foldl (apply_write (nextSeq s)) s writes) actions = (s2, Inr ())"
      "committed (foldl (apply_write (nextSeq s)) s writes) actions s2" by blast
  have "applied (nextSeq s) (foldl (apply_write (nextSeq s)) s writes) actions s2"
    using committedD(1) [OF s2(2)] by (simp add: writes_fields)
  then have "s2 = with_documents (foldl (apply_write (nextSeq s)) s writes) s2" unfolding applied_def by blast
  then have "nextSeq s2 = nextSeq s" by (metis with_documents_fields(1) writes_fields(4))
  then show ?thesis using Inr s2 by (auto simp: storage_commit_def assertOpen_def commit_done_def Let_def)
qed


text \<open>After a commit an id is in a table because it was before or because the commit claimed it for that table.\<close>

lemma commit_done_inv:
  assumes "storage_inv s" "commit_done s writes s'"
  shows "storage_inv s'"
proof -
  let ?s1 = "foldl (apply_write (nextSeq s)) s writes"
  from assms(2) obtain actions s2 where a: "check_commit s writes = Inr actions" "committed ?s1 actions s2" "s' = s2\<lparr>nextSeq := Suc (nextSeq s)\<rparr>"
    by (auto simp: commit_done_def)
  from commit_phases [OF assms(1) a(1)] obtain claimed where c: "checkGlobalIds s writes = Inr claimed" "claims s claimed ?s1"
    "records_inv ?s1 (Suc (nextSeq s))" by blast
  have ids: "ids_inv s" using assms(1) by (simp add: storage_inv_def)
  have "applied (nextSeq s) ?s1 actions s2" using committedD(1) [OF a(2)] by (simp add: writes_fields)
  then have s2: "s2 = with_documents ?s1 s2" "\<And>i. documents s2 i \<noteq> None \<Longrightarrow> i < nextId s2" "nextId ?s1 \<le> nextId s2"
    unfolding applied_def by blast+
  have held: "holds s t i \<or> map_of claimed i = Some t" if h: "holds s2 t i" for t i
  proof (cases "t = DocumentTable")
    case False
    then have "holds ?s1 t i" using h s2(1) holds_with_documents [of ?s1 s2 t i] by simp
    then show ?thesis using c(2) by (auto simp: claims_def)
  next
    case True
    then obtain d where d: "documents s2 i = Some d" using h by auto
    show ?thesis
    proof (cases "documents s i")
      case None
      then obtain x r where x: "(i, x) \<in> set actions" "da_create x = Some r"
        using committed_document [OF a(2) d] by (auto simp: descends_def writes_fields)
      have prep: "prepareDocumentActions writes = Inr actions" using a(1) by (auto simp: check_commit_def elim!: rbindE)
      have "dc_id r = i" using prepared_ok [OF prep] x by (auto simp: actions_ok_def)
      moreover obtain v y where "DocumentCreate r v y \<in> set writes"
        using prepared_creates [of "[]" writes actions i x r] prep x by (auto simp: prepareDocumentActions_def)
      ultimately have "map_of claimed i = Some DocumentTable"
        using claims_made [OF ids c(1) [unfolded checkGlobalIds_def]] by fastforce
      then show ?thesis using True by blast
    next
      case (Some d0)
      then show ?thesis using True by simp
    qed
  qed
  have "t = t'" if "holds s2 t i" "holds s2 t' i" for t t' i
  proof -
    have "map_of claimed i = Some x \<Longrightarrow> holds s y i \<Longrightarrow> y = x" for x y using c(2) unfolding claims_def by blast
    then show ?thesis using held [OF that(1)] held [OF that(2)] ids unfolding ids_inv_def by (metis option.inject)
  qed
  moreover have "i < nextId s2" if "holds s2 t i" for t i
  proof (cases "t = DocumentTable")
    case False
    then have "holds ?s1 t i" using that s2(1) holds_with_documents [of ?s1 s2 t i] by simp
    then show ?thesis using c(2) s2(3) by (force simp: claims_def)
  qed (use that s2(2) in simp)
  moreover have "2 \<le> nextId s2" using c(2) s2(3) by (auto simp: claims_def)
  moreover have same: "holds s' t i = holds s2 t i" for t i by (cases t) (simp_all add: a(3))
  ultimately have "ids_inv s'" by (simp add: ids_inv_def a(3))
  moreover have "records_inv s2 (Suc (nextSeq s))" using c(3) records_with_documents [of ?s1 s2] s2(1) by simp
  then have "records_inv s' (nextSeq s')"
    by (simp add: a(3) records_inv_def conversations_inv_def entries_inv_def tasks_inv_def submissions_inv_def request_index_def)
  moreover have "documents_inv s'" using committed_inv [OF a(2)] a(3) by (simp add: writes_fields)
  ultimately show ?thesis by (simp add: storage_inv_def)
qed


section \<open>What is written can be read\<close>

definition conversation_writes :: "storage_write list \<Rightarrow> (nat \<times> conversation_record) list" where
  "conversation_writes = List.map_filter (\<lambda>w. case w of WriteConversation c \<Rightarrow> Some (cv_id c, c) | _ \<Rightarrow> None)"

definition entry_writes :: "storage_write list \<Rightarrow> (nat \<times> entry_record) list" where
  "entry_writes = List.map_filter (\<lambda>w. case w of WriteEntry e \<Rightarrow> Some (en_id e, e) | _ \<Rightarrow> None)"

definition task_writes :: "storage_write list \<Rightarrow> (nat \<times> task_record) list" where
  "task_writes = List.map_filter (\<lambda>w. case w of WriteTask t \<Rightarrow> Some (tk_id t, t) | _ \<Rightarrow> None)"

definition submission_writes :: "storage_write list \<Rightarrow> (nat \<times> submission_record) list" where
  "submission_writes = List.map_filter (\<lambda>w. case w of WriteSubmission b \<Rightarrow> Some (sb_id b, b) | _ \<Rightarrow> None)"

lemma write_commit_seqs:
  "entryCommitSeqs (write_conversation s c) = entryCommitSeqs s" "entryCommitSeqs (write_task s t) = entryCommitSeqs s"
  "entryCommitSeqs (write_submission s b) = entryCommitSeqs s" "entryCommitSeqs (write_entry seq s e) = (entryCommitSeqs s)(en_id e \<mapsto> seq)"
  by (simp add: write_conversation_def)
    (simp add: write_task_def index_task_def Let_def split: option.splits,
     simp add: write_submission_def forget_request_def Let_def split: option.splits, simp add: write_entry_def)

lemma write_effects:
  "conversations (apply_write seq s w) = conversations s ++ map_of (conversation_writes [w])"
  "entries (apply_write seq s w) = entries s ++ map_of (entry_writes [w])"
  "tasks (apply_write seq s w) = tasks s ++ map_of (task_writes [w])"
  "submissions (apply_write seq s w) = submissions s ++ map_of (submission_writes [w])"
  "entryCommitSeqs (apply_write seq s w) = entryCommitSeqs s ++ (\<lambda>i. map_option (\<lambda>_. seq) (map_of (entry_writes [w]) i))"
  by (cases w; simp add: conversation_writes_def entry_writes_def task_writes_def submission_writes_def map_filter_simps
      write_fields write_submission_fields write_commit_seqs write_conversation_def write_entry_def map_add_def fun_eq_iff)+

lemma writes_cons:
  "conversation_writes (w # ws) = conversation_writes [w] @ conversation_writes ws"
  "entry_writes (w # ws) = entry_writes [w] @ entry_writes ws" "task_writes (w # ws) = task_writes [w] @ task_writes ws"
  "submission_writes (w # ws) = submission_writes [w] @ submission_writes ws"
  by (auto simp: conversation_writes_def entry_writes_def task_writes_def submission_writes_def map_filter_simps split: option.splits)

lemma writes_one:
  "rev (conversation_writes [w]) = conversation_writes [w]" "rev (entry_writes [w]) = entry_writes [w]"
  "rev (task_writes [w]) = task_writes [w]" "rev (submission_writes [w]) = submission_writes [w]"
  by (cases w; simp add: conversation_writes_def entry_writes_def task_writes_def submission_writes_def map_filter_simps)+

lemma writes_tables:
  "conversations (foldl (apply_write seq) s ws) = conversations s ++ map_of (rev (conversation_writes ws))"
  "entries (foldl (apply_write seq) s ws) = entries s ++ map_of (rev (entry_writes ws))"
  "tasks (foldl (apply_write seq) s ws) = tasks s ++ map_of (rev (task_writes ws))"
  "submissions (foldl (apply_write seq) s ws) = submissions s ++ map_of (rev (submission_writes ws))"
  "entryCommitSeqs (foldl (apply_write seq) s ws) = entryCommitSeqs s ++ (map_option (\<lambda>_. seq) \<circ> map_of (rev (entry_writes ws)))"
proof -
  note nil = conversation_writes_def entry_writes_def task_writes_def submission_writes_def map_filter_simps
  show "conversations (foldl (apply_write seq) s ws) = conversations s ++ map_of (rev (conversation_writes ws))"
    by (induction ws arbitrary: s) (simp add: nil, simp add: write_effects writes_one, subst writes_cons, simp add: writes_one)
  have "map_option (\<lambda>_. seq) \<circ> map_of (xs @ ys) = (map_option (\<lambda>_. seq) \<circ> map_of ys) ++ (map_option (\<lambda>_. seq) \<circ> map_of xs)"
    for xs ys :: "(nat \<times> entry_record) list" by (auto simp: fun_eq_iff map_add_def split: option.splits)
  then show "entryCommitSeqs (foldl (apply_write seq) s ws) = entryCommitSeqs s ++ (map_option (\<lambda>_. seq) \<circ> map_of (rev (entry_writes ws)))"
    by (induction ws arbitrary: s) (simp add: nil comp_def, simp add: write_effects writes_one, subst (2) writes_cons, simp add: writes_one comp_def)
  show "entries (foldl (apply_write seq) s ws) = entries s ++ map_of (rev (entry_writes ws))"
    by (induction ws arbitrary: s) (simp add: nil, simp add: write_effects writes_one, subst writes_cons, simp add: writes_one)
  show "tasks (foldl (apply_write seq) s ws) = tasks s ++ map_of (rev (task_writes ws))"
    by (induction ws arbitrary: s) (simp add: nil, simp add: write_effects writes_one, subst writes_cons, simp add: writes_one)
  show "submissions (foldl (apply_write seq) s ws) = submissions s ++ map_of (rev (submission_writes ws))"
    by (induction ws arbitrary: s) (simp add: nil, simp add: write_effects writes_one, subst writes_cons, simp add: writes_one)
qed


lemma commit_done_tables:
  assumes "storage_inv s" "commit_done s writes s'"
  shows "conversations s' = conversations s ++ map_of (rev (conversation_writes writes))"
    "entries s' = entries s ++ map_of (rev (entry_writes writes))"
    "tasks s' = tasks s ++ map_of (rev (task_writes writes))"
    "submissions s' = submissions s ++ map_of (rev (submission_writes writes))"
    "entryCommitSeqs s' = entryCommitSeqs s ++ (map_option (\<lambda>_. nextSeq s) \<circ> map_of (rev (entry_writes writes)))"
    "nextSeq s' = Suc (nextSeq s)" "closed s' = closed s"
    "\<And>i. documents s i \<noteq> None \<Longrightarrow> documents s' i \<noteq> None" "nextId s \<le> nextId s'"
proof -
  let ?s1 = "foldl (apply_write (nextSeq s)) s writes"
  from assms(2) obtain actions s2 where a: "committed ?s1 actions s2" "s' = s2\<lparr>nextSeq := Suc (nextSeq s)\<rparr>"
    by (auto simp: commit_done_def)
  have ap: "applied (nextSeq s) ?s1 actions s2" using committedD(1) [OF a(1)] by (simp add: writes_fields)
  then have s2: "s2 = with_documents ?s1 s2" unfolding applied_def by blast
  note from_s1 = with_documents_fields [of ?s1 s2, folded s2]
  show "conversations s' = conversations s ++ map_of (rev (conversation_writes writes))"
    "entries s' = entries s ++ map_of (rev (entry_writes writes))"
    "tasks s' = tasks s ++ map_of (rev (task_writes writes))"
    "submissions s' = submissions s ++ map_of (rev (submission_writes writes))"
    "entryCommitSeqs s' = entryCommitSeqs s ++ (map_option (\<lambda>_. nextSeq s) \<circ> map_of (rev (entry_writes writes)))"
    "nextSeq s' = Suc (nextSeq s)" "closed s' = closed s"
    by (simp_all add: a(2) from_s1 writes_tables writes_fields)
  have one: "nextId s \<le> nextId (apply_write seq s w)" for seq s w by (auto simp: nextId_apply_write split: option.splits)
  have ids: "nextId s \<le> nextId (foldl (apply_write seq) s ws)" for seq ws
    by (induction ws arbitrary: s) (simp, simp, rule order_trans [OF one])
  have "nextId ?s1 \<le> nextId s2" using ap unfolding applied_def by blast
  then show "nextId s \<le> nextId s'" using ids [of "nextSeq s" writes] a(2) by simp
  show "documents s' i \<noteq> None" if "documents s i \<noteq> None" for i
  proof (cases "map_of actions i")
    case None
    then show ?thesis using ap that a(2) by (simp add: applied_def writes_fields)
  next
    case (Some x)
    then have x: "(i, x) \<in> set actions" by (rule map_of_SomeD)
    then obtain k where "check_action ?s1 i x = Inr k" using committedD(4) [OF a(1)] by blast
    then have "da_create x = None" using check_action_create(1) [of ?s1 i x k] that by (cases "da_create x") (auto simp: writes_fields)
    then show ?thesis using ap Some that a(2) by (auto simp: applied_def writes_fields doc_after_def)
  qed
qed

section \<open>The interface of a store\<close>

datatype 'w store_op = Commit "'w list" | Mint

text \<open>A client that commits and mints; it keeps the sequence numbers and the ids it is given and goes on after a refusal.\<close>

fun run_store :: "('s \<Rightarrow> 'w list \<Rightarrow> 's \<times> ('e, nat) result) \<Rightarrow> ('s \<Rightarrow> 's \<times> ('e, nat) result) \<Rightarrow> 's \<Rightarrow> 'w store_op list \<Rightarrow>
    's \<times> nat list \<times> nat list" where
  "run_store commit mint s [] = (s, [], [])"
| "run_store commit mint s (Commit ws # ops) =
     (case commit s ws of
        (s1, Inl e) \<Rightarrow> run_store commit mint s1 ops
      | (s1, Inr n) \<Rightarrow> (case run_store commit mint s1 ops of (s', seqs, ids) \<Rightarrow> (s', n # seqs, ids)))"
| "run_store commit mint s (Mint # ops) =
     (case mint s of
        (s1, Inl e) \<Rightarrow> run_store commit mint s1 ops
      | (s1, Inr i) \<Rightarrow> (case run_store commit mint s1 ops of (s', seqs, ids) \<Rightarrow> (s', seqs, i # ids)))"

locale durable_store =
  fixes commit :: "'s \<Rightarrow> 'w list \<Rightarrow> 's \<times> ('e, nat) result" and mint :: "'s \<Rightarrow> 's \<times> ('e, nat) result"
    and inv :: "'s \<Rightarrow> bool" and clock :: "'s \<Rightarrow> nat" and bound :: "'s \<Rightarrow> nat" and used :: "'s \<Rightarrow> nat \<Rightarrow> bool"
  assumes commit_refused: "inv s \<Longrightarrow> commit s ws = (s', Inl e) \<Longrightarrow> s' = s"
    and commit_accepted: "inv s \<Longrightarrow> commit s ws = (s', Inr n) \<Longrightarrow>
      inv s' \<and> n = clock s \<and> clock s' = Suc n \<and> bound s \<le> bound s' \<and> (\<forall>i. used s i \<longrightarrow> used s' i)"
    and mint_refused: "mint s = (s', Inl e) \<Longrightarrow> s' = s"
    and mint_accepted: "inv s \<Longrightarrow> mint s = (s', Inr i) \<Longrightarrow>
      inv s' \<and> i = bound s \<and> bound s' = Suc i \<and> clock s' = clock s \<and> used s' = used s"
    and used_below: "inv s \<Longrightarrow> used s i \<Longrightarrow> i < bound s"
begin

text \<open>The sequence numbers of a run have no gap, and a minted id is new each time.\<close>

lemma run:
  assumes "inv s" "run_store commit mint s ops = (s', seqs, ids)"
  shows "inv s' \<and> clock s \<le> clock s' \<and> bound s \<le> bound s' \<and> (\<forall>i. used s i \<longrightarrow> used s' i) \<and>
    seqs = [clock s..<clock s'] \<and> sorted_wrt (<) ids \<and> (\<forall>i \<in> set ids. bound s \<le> i \<and> i < bound s' \<and> \<not> used s i)"
  using assms
proof (induction ops arbitrary: s s' seqs ids)
  case (Cons op ops)
  show ?case
  proof (cases op)
    case (Commit ws)
    obtain s1 r where c: "commit s ws = (s1, r)" by fastforce
    show ?thesis
    proof (cases r)
      case (Inl e)
      then show ?thesis using Cons.IH [of s s' seqs ids] Cons.prems commit_refused [OF Cons.prems(1)] c Commit by auto
    next
      case (Inr n)
      obtain t ns js where rest: "run_store commit mint s1 ops = (t, ns, js)" by (metis prod_cases3)
      note s1 = commit_accepted [OF Cons.prems(1) c [unfolded Inr]]
      have "s' = t" "seqs = n # ns" "ids = js" using Cons.prems(2) Commit c Inr rest by auto
      then show ?thesis using Cons.IH [OF _ rest] s1 by (auto simp: upt_conv_Cons)
    qed
  next
    case Mint
    obtain s1 r where c: "mint s = (s1, r)" by fastforce
    show ?thesis
    proof (cases r)
      case (Inl e)
      then show ?thesis using Cons.IH [of s s' seqs ids] Cons.prems mint_refused c Mint by auto
    next
      case (Inr i)
      obtain t ns js where rest: "run_store commit mint s1 ops = (t, ns, js)" by (metis prod_cases3)
      note s1 = mint_accepted [OF Cons.prems(1) c [unfolded Inr]]
      have "s' = t" "seqs = ns" "ids = i # js" using Cons.prems(2) Mint c Inr rest by auto
      then show ?thesis using Cons.IH [OF _ rest] s1 used_below [OF Cons.prems(1)] by fastforce
    qed
  qed
qed simp

end

definition in_use :: "storage \<Rightarrow> nat \<Rightarrow> bool" where
  "in_use s i \<longleftrightarrow> tableContaining s i \<noteq> None"

lemma in_use_holds: "in_use s i \<longleftrightarrow> (\<exists>t. holds s t i)"
  using tableContaining_None [of s i] by (auto simp: in_use_def)

lemma holds_same: "conversations s' = conversations s \<Longrightarrow> entries s' = entries s \<Longrightarrow> tasks s' = tasks s \<Longrightarrow>
    submissions s' = submissions s \<Longrightarrow> documents s' = documents s \<Longrightarrow> holds s' t i = holds s t i"
  by (cases t) simp_all

lemma mint_inv: "storage_inv s \<Longrightarrow> nextId s \<le> n \<Longrightarrow> storage_inv (s\<lparr>nextId := n\<rparr>)"
proof -
  assume s: "storage_inv s" and n: "nextId s \<le> n"
  have same: "holds (s\<lparr>nextId := n\<rparr>) t i = holds s t i" for t i by (cases t) simp_all
  have "\<And>i t t'. holds s t i \<Longrightarrow> holds s t' i \<Longrightarrow> t = t'" "\<And>i t. holds s t i \<Longrightarrow> i < nextId s" "2 \<le> nextId s"
    using s unfolding storage_inv_def ids_inv_def by blast+
  then have "ids_inv (s\<lparr>nextId := n\<rparr>)" unfolding ids_inv_def same using n by simp (meson less_le_trans order_trans)
  then show ?thesis using s
    by (simp add: storage_inv_def records_inv_def conversations_inv_def entries_inv_def tasks_inv_def submissions_inv_def request_index_def
        documents_inv_def documents_indexed_def currents_ok_def no_overlap_def is_live_def current_of_def address_ids_def)
qed

interpretation memory: durable_store storage_commit mintId storage_inv nextSeq nextId in_use
proof
  fix s ws s' and e :: storage_error
  assume "storage_inv s" "storage_commit s ws = (s', Inl e)"
  then show "s' = s" using commit_result [of s ws] by simp
next
  fix s ws s' n
  assume s: "storage_inv s" and c: "storage_commit s ws = (s', Inr n)"
  then have d: "n = nextSeq s" "commit_done s ws s'" using commit_result [of s ws] by auto
  have "holds s' t i" if "holds s t i" for t i
    using that commit_done_tables [OF s d(2)] by (cases t) (auto simp: map_add_def split: option.splits)
  then show "storage_inv s' \<and> n = nextSeq s \<and> nextSeq s' = Suc n \<and> nextId s \<le> nextId s' \<and> (\<forall>i. in_use s i \<longrightarrow> in_use s' i)"
    using commit_done_inv [OF s d(2)] d(1) commit_done_tables [OF s d(2)] by (auto simp: in_use_holds)
next
  fix s s' and e :: storage_error
  assume "mintId s = (s', Inl e)"
  then show "s' = s" by (auto simp: mintId_def assertOpen_def split: if_splits)
next
  fix s s' i
  assume s: "storage_inv s" and m: "mintId s = (s', Inr i)"
  then have s': "s' = s\<lparr>nextId := Suc (nextId s)\<rparr>" "i = nextId s" by (auto simp: mintId_def assertOpen_def split: if_splits)
  have "in_use s' = in_use s" by (intro ext) (simp add: in_use_def tableContaining_def s'(1))
  then show "storage_inv s' \<and> i = nextId s \<and> nextId s' = Suc i \<and> nextSeq s' = nextSeq s \<and> in_use s' = in_use s"
    using s' mint_inv [OF s, of "Suc (nextId s)"] by simp
next
  fix s i
  assume "storage_inv s" "in_use s i"
  then show "i < nextId s" by (auto simp: storage_inv_def ids_inv_def in_use_holds)
qed

text \<open>The storages a session can meet: a new one after any sequence of commits and mints, some of them refused.\<close>

definition reached :: "storage_write store_op list \<Rightarrow> storage" where
  "reached ops = fst (run_store storage_commit mintId new_storage ops)"

lemma reached_inv: "storage_inv (reached ops)"
proof -
  obtain s seqs ids where r: "run_store storage_commit mintId new_storage ops = (s, seqs, ids)" by (metis prod_cases3)
  then show ?thesis using memory.run [OF storage_inv_new r] by (simp add: reached_def)
qed

section \<open>Properties\<close>

text \<open>
  C7. After any sequence of commits and mints, refused ones included: the invariant of the storage holds (every index lists
  exactly the records it is for, in ascending order; no id is in two tables; every address has at most one current document), the
  accepted commits are numbered from 1 without a gap, the minted ids ascend, and the next minted id is neither one of them nor
  the id of any record.
\<close>

theorem storage_run:
  "case run_store storage_commit mintId new_storage ops of (s, seqs, ids) \<Rightarrow>
     storage_inv s \<and> seqs = [1..<nextSeq s] \<and> ascending ids \<and>
     (case mintId s of
        (s', Inr i) \<Rightarrow> \<not> in_use s i \<and> i \<notin> set ids
      | (s', Inl e) \<Rightarrow> s' = s)"
proof -
  obtain s seqs ids where r: "run_store storage_commit mintId new_storage ops = (s, seqs, ids)" by (metis prod_cases3)
  note run = memory.run [OF storage_inv_new r]
  have "\<not> in_use s (nextId s)" "nextId s \<notin> set ids" using memory.used_below [of s "nextId s"] run by auto
  moreover have "nextSeq new_storage = 1" by (simp add: new_storage_def)
  ultimately show ?thesis using r run by (auto simp: mintId_def assertOpen_def)
qed


end
