(* ===== verification/StorageReads.thy ===== *)
theory StorageReads
  imports StorageCommit
begin

text \<open>
  Reading documents of the memory storage: a read finds the base it needs, the document at an address is the one
  incarnation alive at the asked point, and what a rewindable document held at a past point never changes.
\<close>

section \<open>Materializing a document\<close>

lemma apply_op_defined: "apply_op root op = Inr x \<Longrightarrow> x \<noteq> None"
  by (auto simp: apply_op_def elim!: rbindE split: option.splits delta_op.splits)

lemma applyImmutable_defined: "applyImmutable (Some v) ops \<noteq> Inr None"
proof
  assume "applyImmutable (Some v) ops = Inr None"
  then have "(None :: json option) \<noteq> None" unfolding applyImmutable_def
    by (rule rfold_invariant [where I = "\<lambda>r. r \<noteq> None"])
      (auto simp: apply_op_immutable_def elim!: rbindE split: if_splits dest!: apply_op_defined)
  then show False by simp
qed

text \<open>A run of revisions that starts with a base, seen from its end: the last base and the deltas of its version.\<close>

lemma since_base_chain:
  assumes "revs \<noteq> []" "is_base (rv_content (hd revs))" "successively same_version revs"
    and "list_all (\<lambda>r. \<exists>ops. rv_content r = Delta (content_version (rv_content (last revs))) ops) deltas"
  shows "\<exists>version v ds. since_base (rev revs) deltas = Some (version, v, ds) \<and> list_all (\<lambda>r. \<exists>ops. rv_content r = Delta version ops) ds"
  using assms
proof (induction revs arbitrary: deltas rule: rev_induct)
  case (snoc r revs)
  show ?case
  proof (cases "rv_content r")
    case (Base version v)
    then show ?thesis using snoc.prems(4) by simp
  next
    case (Delta version ops)
    have ne: "revs \<noteq> []" using snoc.prems(2) Delta by (auto simp: is_base_def)
    have "same_version (last revs) r" "successively same_version revs" using snoc.prems(3) ne by (auto simp: successively_append_iff)
    then have v: "content_version (rv_content (last revs)) = version" using Delta by (auto simp: same_version_def is_base_def)
    have "\<exists>version v ds. since_base (rev revs) (r # deltas) = Some (version, v, ds) \<and> list_all (\<lambda>r. \<exists>ops. rv_content r = Delta version ops) ds"
      by (rule snoc.IH [OF ne]) (use snoc.prems v Delta ne \<open>successively same_version revs\<close> in auto)
    then show ?thesis using Delta by simp
  qed
qed simp

lemma apply_revisions:
  assumes "list_all (\<lambda>r. \<exists>ops. rv_content r = Delta version ops) ds" "rfold (apply_revision i version) v ds = Inl e"
  shows "\<exists>d. e = PatchFailed d"
  using assms
proof (induction ds arbitrary: v)
  case (Cons r ds)
  then obtain ops where ops: "rv_content r = Delta version ops" by auto
  have some: "applyImmutable (Some v) ops \<noteq> Inr None" by (rule applyImmutable_defined)
  show ?case
  proof (cases "apply_revision i version v r")
    case (Inl d)
    then show ?thesis using Cons.prems(2) ops some by (auto simp: apply_revision_def split: sum.splits option.splits)
  next
    case (Inr w)
    then show ?thesis using Cons.IH [of w] Cons.prems by simp
  qed
qed simp


text \<open>The revisions up to a point are a prefix, which still starts with the base of the creation.\<close>

lemma ascending_prefix: "ascending (map rv_seq revs) \<Longrightarrow> \<exists>rest. revs = filter (\<lambda>r. rv_seq r \<le> m) revs @ rest"
proof (induction revs)
  case (Cons r revs)
  show ?case
  proof (cases "rv_seq r \<le> m")
    case True
    then show ?thesis using Cons by auto
  next
    case False
    then have "\<forall>x \<in> set revs. \<not> rv_seq x \<le> m" using Cons.prems by auto
    then show ?thesis using False by simp
  qed
qed simp

lemma materialize_ok:
  assumes "revs \<noteq> []" "is_base (rv_content (hd revs))" "successively same_version revs" "materialize i revs = Inl e"
  shows "\<exists>d. e = PatchFailed d"
proof -
  obtain version v ds where "since_base (rev revs) [] = Some (version, v, ds)" "list_all (\<lambda>r. \<exists>ops. rv_content r = Delta version ops) ds"
    using since_base_chain [OF assms(1-3), of "[]"] by auto
  then show ?thesis using assms(4) apply_revisions [of version ds i "JObj v"] by (auto simp: materialize_def rbind_Inl_iff)
qed

definition revisions_at :: "stored_document_state \<Rightarrow> document_point \<Rightarrow> document_revision list" where
  "revisions_at d at = (case at of Current \<Rightarrow> ss_revisions d | At n \<Rightarrow> filter (\<lambda>r. rv_seq r \<le> n) (ss_revisions d))"

lemma revisions_at_chain:
  assumes "document_ok n i d" "isAliveAt (ss_record d) at" "at = Current \<or> \<not> isCurrentOnly (ss_record d)"
  shows "revisions_at d at \<noteq> [] \<and> is_base (rv_content (hd (revisions_at d at))) \<and> successively same_version (revisions_at d at)"
proof -
  have ok: "revisions_ok (ss_record d) (ss_revisions d)" using assms(1) by (simp add: document_ok_def Let_def)
  have live: "\<not> (retiredAt (ss_record d) \<noteq> None \<and> isCurrentOnly (ss_record d))"
    using assms(2,3) by (auto simp: isAliveAt_def)
  then have r: "ss_revisions d \<noteq> []" "is_base (rv_content (hd (ss_revisions d)))" "successively same_version (ss_revisions d)"
    "ascending (map rv_seq (ss_revisions d))" "\<not> isCurrentOnly (ss_record d) \<Longrightarrow> rv_seq (hd (ss_revisions d)) = createdAt (ss_record d)"
    using ok by (auto simp: revisions_ok_def)
  show ?thesis
  proof (cases at)
    case Current
    then show ?thesis using r by (simp add: revisions_at_def)
  next
    case (At m)
    let ?xs = "filter (\<lambda>r. rv_seq r \<le> m) (ss_revisions d)"
    obtain rest where rest: "ss_revisions d = ?xs @ rest" using ascending_prefix [OF r(4), of m] by blast
    have "rv_seq (hd (ss_revisions d)) \<le> m" using assms(2,3) r(5) At by (auto simp: isAliveAt_def)
    then have "hd (ss_revisions d) \<in> set ?xs" using r(1) by simp
    then have ne: "?xs \<noteq> []" by (metis empty_iff empty_set)
    have "hd ?xs = hd (ss_revisions d)" using rest ne by (metis hd_append2)
    moreover have "successively same_version ?xs" using r(3) rest by (metis successively_append_iff)
    ultimately show ?thesis using ne r(2) At by (simp add: revisions_at_def)
  qed
qed

lemma storage_document_eq:
  "storage_document s i at = (if closed s then Inl StorageClosed else case documents s i of
      None \<Rightarrow> Inr None
    | Some d \<Rightarrow>
        if at \<noteq> Current \<and> isCurrentOnly (ss_record d) then Inl (NoHistoricalContent i)
        else if \<not> isAliveAt (ss_record d) at then Inr None
        else rbind (materialize i (revisions_at d at)) (\<lambda>(version, v).
          Inr (Some \<lparr>sd_record = ss_record d, sd_version = version, sd_value = v\<rparr>)))"
  by (auto simp: storage_document_def assertOpen_def revisions_at_def Let_def split: option.splits)

section \<open>Addresses\<close>

lemma scopeKey_inj: "scopeKey a = scopeKey b \<longleftrightarrow> a = b"
  by (auto simp: scopeKey_def stringify_inj simp del: stringify.simps split: scope_name.splits)

lemma addressKey_inj: "addressKey a = addressKey b \<longleftrightarrow> a = b"
  by (auto simp: addressKey_def stringify_inj scopeKey_inj simp del: stringify.simps intro: document_address.equality split: option.splits)

lemma recordAddressKey_eq: "recordAddressKey r = addressKey a \<longleftrightarrow> recordAddress r = a"
  by (simp add: recordAddressKey_def addressKey_inj)

lemma first_alive_found:
  assumes "\<And>i. i \<in> set ids \<Longrightarrow> \<exists>d. documents s i = Some d"
  shows "\<exists>found. first_alive s n ids = Inr found \<and>
    (case found of
       None \<Rightarrow> \<forall>i \<in> set ids. \<forall>d. documents s i = Some d \<longrightarrow> \<not> isAliveAt (ss_record d) (At n)
     | Some r \<Rightarrow> \<exists>i \<in> set ids. \<exists>d. documents s i = Some d \<and> r = ss_record d \<and> isAliveAt r (At n))"
  using assms
proof (induction ids)
  case (Cons i ids)
  obtain d where d: "documents s i = Some d" using Cons.prems by auto
  obtain found where "first_alive s n ids = Inr found" "case found of
       None \<Rightarrow> \<forall>i \<in> set ids. \<forall>d. documents s i = Some d \<longrightarrow> \<not> isAliveAt (ss_record d) (At n)
     | Some r \<Rightarrow> \<exists>i \<in> set ids. \<exists>d. documents s i = Some d \<and> r = ss_record d \<and> isAliveAt r (At n)" using Cons by auto
  then show ?case using d by (cases "isAliveAt (ss_record d) (At n)") (auto simp: present_def split: option.splits)
qed simp

lemma findDocument_iff:
  assumes "storage_inv s" "\<not> closed s"
  shows "\<exists>found. findDocument s address at = Inr found \<and>
    (\<forall>r. found = Some r \<longleftrightarrow> (\<exists>i d. documents s i = Some d \<and> r = ss_record d \<and> recordAddress r = address \<and> isAliveAt r at))"
proof -
  let ?k = "addressKey address"
  have docs: "documents_indexed s" "currents_ok s" "no_overlap s" using assms(1) by (auto simp: storage_inv_def documents_inv_def)
  have unique: "ss_record d = ss_record e" if "documents s i = Some d" "documents s j = Some e" "recordAddress (ss_record d) = address"
    "recordAddress (ss_record e) = address" "isAliveAt (ss_record d) at" "isAliveAt (ss_record e) at" for i j d e
  proof -
    have "i = j" using docs(3) that unfolding no_overlap_def recordAddressKey_def by metis
    then show ?thesis using that by simp
  qed
  have ids: "i \<in> set (address_ids s ?k) \<longleftrightarrow> (\<exists>d. documents s i = Some d \<and> recordAddress (ss_record d) = address)" for i
    using docs(1) by (simp add: documents_indexed_def recordAddressKey_eq)
  show ?thesis
  proof (cases at)
    case Current
    have live: "current_of s ?k = Some i \<longleftrightarrow> (\<exists>d. documents s i = Some d \<and> recordAddress (ss_record d) = address \<and> isAliveAt (ss_record d) at)" for i
      using docs(2) Current by (simp add: currents_ok_def is_live_def recordAddressKey_eq isAliveAt_def)
    have find: "findDocument s address at = (case current_of s ?k of None \<Rightarrow> Inr None
        | Some i \<Rightarrow> rbind (present (documents s i)) (\<lambda>d. Inr (Some (ss_record d))))"
      using Current assms(2) by (simp add: findDocument_def assertOpen_def current_of_def Let_def split: option.splits)
    show ?thesis
    proof (cases "current_of s ?k")
      case None
      then show ?thesis using live find by auto
    next
      case (Some i)
      then obtain d where d: "documents s i = Some d" "recordAddress (ss_record d) = address" "isAliveAt (ss_record d) at" using live by auto
      then have "findDocument s address at = Inr (Some (ss_record d))" using find Some by (simp add: present_def)
      moreover have "Some (ss_record d) = Some r \<longleftrightarrow> (\<exists>i d. documents s i = Some d \<and> r = ss_record d \<and> recordAddress r = address \<and> isAliveAt r at)" for r
        using d unique [OF d(1)] by blast
      ultimately show ?thesis by blast
    qed
  next
    case (At n)
    have find: "findDocument s address at = first_alive s n (address_ids s ?k)"
      using At assms(2) by (simp add: findDocument_def assertOpen_def address_ids_def Let_def)
    obtain found where f: "first_alive s n (address_ids s ?k) = Inr found" "case found of
       None \<Rightarrow> \<forall>i \<in> set (address_ids s ?k). \<forall>d. documents s i = Some d \<longrightarrow> \<not> isAliveAt (ss_record d) (At n)
     | Some r \<Rightarrow> \<exists>i \<in> set (address_ids s ?k). \<exists>d. documents s i = Some d \<and> r = ss_record d \<and> isAliveAt r (At n)"
      using first_alive_found [of "address_ids s ?k" s n] ids by auto
    have "found = Some r \<longleftrightarrow> (\<exists>i d. documents s i = Some d \<and> r = ss_record d \<and> recordAddress r = address \<and> isAliveAt r at)" for r
    proof (cases found)
      case None
      then show ?thesis using f(2) ids At by auto
    next
      case (Some x)
      then obtain i d where d: "documents s i = Some d" "x = ss_record d" "recordAddress (ss_record d) = address" "isAliveAt (ss_record d) at"
        using f(2) ids At by auto
      then show ?thesis using Some unique [OF d(1)] by blast
    qed
    then show ?thesis using find f(1) by auto
  qed
qed


section \<open>History\<close>

text \<open>What a read at a point says of a document: its identity, its version and its value.\<close>

definition content_at :: "storage \<Rightarrow> nat \<Rightarrow> nat \<Rightarrow> (storage_error, (nat \<times> nat \<times> json) option) result" where
  "content_at s i m = rbind (storage_document s i (At m)) (\<lambda>found.
     Inr (map_option (\<lambda>sd. (dc_id (sd_record sd), sd_version sd, sd_value sd)) found))"

text \<open>Two states of a document that agree on everything up to a point.\<close>

definition same_past :: "nat \<Rightarrow> stored_document_state \<Rightarrow> stored_document_state \<Rightarrow> bool" where
  "same_past m d d' \<longleftrightarrow> dc_id (ss_record d') = dc_id (ss_record d) \<and> isCurrentOnly (ss_record d') = isCurrentOnly (ss_record d) \<and>
     isAliveAt (ss_record d') (At m) = isAliveAt (ss_record d) (At m) \<and>
     (\<not> isCurrentOnly (ss_record d) \<longrightarrow> revisions_at d' (At m) = revisions_at d (At m))"

lemma same_past_refl [simp]: "same_past m d d"
  by (simp add: same_past_def)

lemma same_past_trans: "same_past m a b \<Longrightarrow> same_past m b c \<Longrightarrow> same_past m a c"
  by (simp add: same_past_def)

lemma same_past_content: "documents s i = Some d \<Longrightarrow> documents s' i = Some d' \<Longrightarrow> same_past m d d' \<Longrightarrow> closed s' = closed s \<Longrightarrow>
    content_at s' i m = content_at s i m"
  by (auto simp: content_at_def storage_document_eq same_past_def rbind_assoc intro: rbind_cong split: prod.splits)

lemma same_past_changed: "m < seq \<Longrightarrow> same_past m d (changed seq c d)"
  by (auto simp: same_past_def revisions_at_def changed_def)

lemma same_past_retired: "m < seq \<Longrightarrow> retiredAt (ss_record d) = None \<Longrightarrow> same_past m d (retired seq d)"
  by (auto simp: same_past_def revisions_at_def retired_def isAliveAt_def)

lemma commit_same_past:
  assumes "storage_inv s" "commit_done s writes s'" "documents s i = Some d" "m < nextSeq s"
  shows "\<exists>d'. documents s' i = Some d' \<and> same_past m d d'"
proof -
  let ?s1 = "foldl (apply_write (nextSeq s)) s writes"
  from assms(2) obtain actions s2 where a: "committed ?s1 actions s2" "s' = s2\<lparr>nextSeq := Suc (nextSeq s)\<rparr>"
    by (auto simp: commit_done_def)
  have ap: "applied (nextSeq s) ?s1 actions s2" using committedD(1) [OF a(1)] by (simp add: writes_fields)
  show ?thesis
  proof (cases "map_of actions i")
    case None
    then show ?thesis using ap assms(3) a(2) by (simp add: applied_def writes_fields)
  next
    case (Some x)
    then have x: "(i, x) \<in> set actions" by (rule map_of_SomeD)
    then obtain k where k: "check_action ?s1 i x = Inr k" using committedD(4) [OF a(1)] by blast
    then have create: "da_create x = None"
      using check_action_create(1) [of ?s1 i x k] assms(3) by (cases "da_create x") (auto simp: writes_fields)
    have live: "retiredAt (ss_record d) = None" using check_action_change [OF k create] assms(3) by (metis option.inject writes_fields(1))
    let ?d1 = "case da_content x of None \<Rightarrow> d | Some c \<Rightarrow> changed (nextSeq s) c d"
    have d1: "same_past m d ?d1" "ss_record ?d1 = ss_record d" using same_past_changed [OF assms(4)] by (auto split: option.splits)
    have "same_past m ?d1 (retired (nextSeq s) ?d1)" by (rule same_past_retired [OF assms(4)]) (simp add: d1 live)
    then have "same_past m d (if da_retire x then retired (nextSeq s) ?d1 else ?d1)" using d1(1) by (auto intro: same_past_trans)
    moreover have "documents s' i = Some (if da_retire x then retired (nextSeq s) ?d1 else ?d1)"
      using ap Some assms(3) a(2) create by (simp add: applied_def writes_fields doc_after_def)
    ultimately show ?thesis by blast
  qed
qed

lemma run_same_past:
  assumes "storage_inv s" "documents s i = Some d" "m < nextSeq s"
  shows "\<exists>d'. documents (fst (run_store storage_commit mintId s ops)) i = Some d' \<and> same_past m d d' \<and>
    closed (fst (run_store storage_commit mintId s ops)) = closed s"
  using assms
proof (induction ops arbitrary: s d)
  case (Cons op ops)
  have step: ?case if s1: "storage_inv s1" "documents s1 i = Some d1" "same_past m d d1" "m < nextSeq s1" "closed s1 = closed s"
    "fst (run_store storage_commit mintId s (op # ops)) = fst (run_store storage_commit mintId s1 ops)" for s1 d1
  proof -
    obtain d' where "documents (fst (run_store storage_commit mintId s1 ops)) i = Some d'" "same_past m d1 d'"
      "closed (fst (run_store storage_commit mintId s1 ops)) = closed s1"
      using Cons.IH [OF s1(1,2,4)] by blast
    then show ?thesis using s1(5,6) same_past_trans [OF s1(3)] by simp
  qed
  show ?case
  proof (cases op)
    case (Commit ws)
    obtain s1 r where c: "storage_commit s ws = (s1, r)" by fastforce
    note result = commit_result [OF Cons.prems(1), of ws, unfolded c]
    show ?thesis
    proof (cases r)
      case (Inl e)
      then show ?thesis using result c Commit Cons.prems by (intro step [of s d]) auto
    next
      case (Inr n)
      then have done': "commit_done s ws s1" using result by simp
      obtain d1 where "documents s1 i = Some d1" "same_past m d d1" using commit_same_past [OF Cons.prems(1) done' Cons.prems(2,3)] by blast
      then show ?thesis
        using commit_done_inv [OF Cons.prems(1) done'] commit_done_tables(6,7) [OF Cons.prems(1) done'] Cons.prems(3) c Inr Commit
        by (intro step [of s1 d1]) (auto split: prod.splits)
    qed
  next
    case Mint
    obtain s1 r where c: "mintId s = (s1, r)" by fastforce
    have "storage_inv s1 \<and> documents s1 = documents s \<and> nextSeq s1 = nextSeq s \<and> closed s1 = closed s"
      using c mint_inv [OF Cons.prems(1), of "Suc (nextId s)"] Cons.prems(1) by (auto simp: mintId_def assertOpen_def split: if_splits)
    then show ?thesis using c Mint Cons.prems by (intro step [of s1 d]) (auto split: sum.splits prod.splits)
  qed
qed simp

lemma run_store_append:
  "fst (run_store commit mint s (xs @ ys)) = fst (run_store commit mint (fst (run_store commit mint s xs)) ys)"
proof (induction xs arbitrary: s)
  case (Cons x xs)
  then show ?case by (cases x; simp split: prod.splits sum.splits) (metis fst_conv)+
qed simp

lemma reached_open: "\<not> closed (reached ops)"
proof -
  have "\<not> closed s \<Longrightarrow> \<not> closed (fst (run_store storage_commit mintId s ops))" if "storage_inv s" for s
    using that
  proof (induction ops arbitrary: s)
    case (Cons op ops)
    show ?case
    proof (cases op)
      case (Commit ws)
      obtain s1 r where c: "storage_commit s ws = (s1, r)" by fastforce
      then have "storage_inv s1 \<and> \<not> closed s1"
        using commit_result [OF Cons.prems(2), of ws] Cons.prems commit_done_inv [OF Cons.prems(2)] commit_done_tables(7) [OF Cons.prems(2)]
        by (cases r) auto
      then show ?thesis using Cons.IH [of s1] Commit c by (cases r) (auto split: prod.splits)
    next
      case Mint
      obtain s1 r where c: "mintId s = (s1, r)" by fastforce
      then have "storage_inv s1 \<and> \<not> closed s1"
        using mint_inv [OF Cons.prems(2), of "Suc (nextId s)"] Cons.prems by (auto simp: mintId_def assertOpen_def split: if_splits)
      then show ?thesis using Cons.IH [of s1] Mint c by (cases r) (auto split: prod.splits)
    qed
  qed simp
  then show ?thesis using storage_inv_new by (simp add: reached_def new_storage_def)
qed

section \<open>Properties\<close>

text \<open>
  C14. A document at an address: in every storage a session can meet, \<^verbatim>\<open>findDocument\<close> never throws and finds, for the present as
  for every past commit, exactly the incarnation of that address that is alive then.
\<close>

theorem findDocument_exact:
  "\<exists>found. findDocument (reached ops) address at = Inr found \<and>
    (\<forall>r. found = Some r \<longleftrightarrow>
      (\<exists>i d. documents (reached ops) i = Some d \<and> r = ss_record d \<and> recordAddress r = address \<and> isAliveAt r at))"
  by (rule findDocument_iff [OF reached_inv reached_open])

text \<open>
  Reading a document never misses a base and never crosses a version: it throws only for a past point of a document that keeps
  no history or when a stored operation does not apply, and otherwise returns the document exactly when it is alive.
\<close>

theorem document_readable:
  "case storage_document (reached ops) i at of
     Inl e \<Rightarrow> (\<exists>d. e = PatchFailed d) \<or> (e = NoHistoricalContent i \<and> at \<noteq> Current)
   | Inr found \<Rightarrow> map_option sd_record found =
       (case documents (reached ops) i of
          None \<Rightarrow> None
        | Some d \<Rightarrow> if isAliveAt (ss_record d) at then Some (ss_record d) else None)"
proof (cases "documents (reached ops) i")
  case None
  then show ?thesis using reached_open by (simp add: storage_document_eq)
next
  case (Some d)
  have ok: "document_ok (nextSeq (reached ops)) i d" using reached_inv Some by (simp add: storage_inv_def documents_inv_def)
  show ?thesis
  proof (cases "isAliveAt (ss_record d) at \<and> (at = Current \<or> \<not> isCurrentOnly (ss_record d))")
    case True
    then have "\<And>e. materialize i (revisions_at d at) = Inl e \<Longrightarrow> \<exists>p. e = PatchFailed p"
      using revisions_at_chain [OF ok] materialize_ok by blast
    then show ?thesis using True Some reached_open
      by (cases "materialize i (revisions_at d at)") (auto simp: storage_document_eq)
  qed (use Some reached_open in \<open>auto simp: storage_document_eq\<close>)
qed

text \<open>
  C15. The past does not change: what a document held at an earlier commit is read the same after any further commits and mints.
\<close>

theorem document_history:
  assumes "documents (reached ops) i \<noteq> None" "m < nextSeq (reached ops)"
  shows "content_at (reached (ops @ later)) i m = content_at (reached ops) i m"
proof -
  obtain d where d: "documents (reached ops) i = Some d" using assms(1) by blast
  have "reached (ops @ later) = fst (run_store storage_commit mintId (reached ops) later)"
    by (simp add: reached_def run_store_append)
  then obtain d' where "documents (reached (ops @ later)) i = Some d'" "same_past m d d'"
    "closed (reached (ops @ later)) = closed (reached ops)"
    using run_same_past [OF reached_inv d assms(2), of later] by auto
  then show ?thesis using same_past_content [OF d] by blast
qed

section \<open>Witnesses\<close>

definition sample_document :: document_create where
  "sample_document = \<lparr>dc_id = 3, dc_kind = js ''notes'', dc_key = None, dc_scope = ConversationScope 1 (Rewindable RewindAsOf)\<rparr>"

definition sample_commits :: "storage_write store_op list" where
  "sample_commits = [Commit [WriteConversation \<lparr>cv_id = 1, cv_parent = None, cv_owner = None\<rparr>], Mint,
     Commit [DocumentCreate sample_document 1 [(js ''a'', JNull)]]]"

definition sample_changes :: "storage_write store_op list" where
  "sample_changes = [Commit [DocumentChange 3 (Delta 1 [OpS [SStr (js ''a'')] (JBool True)])], Commit [DocumentRetire 3]]"

lemmas storage_eval = reached_def new_storage_def storage_commit_def assertOpen_def check_commit_def checkGlobalIds_def claim_id_def
  tableContaining_def prepareDocumentActions_def prepare_write_def action_of_def no_action_def checkDocumentActions_def count_live_def
  check_action_def current_of_def is_base_def apply_action_def apply_content_def apply_retire_def apply_address_def create_document_def
  insert_at_def ids_at_def insertSorted_def write_conversation_def write_entry_def mintId_def Let_def MAX_SAFE_INTEGER_def

lemma sample_document_fields [simp]:
  "dc_id sample_document = 3" "dc_scope sample_document = ConversationScope 1 (Rewindable RewindAsOf)" "isCurrentOnly sample_document = False"
  by (simp_all add: sample_document_def isCurrentOnly_def)

theorem document_history_witness:
  "content_at (reached (sample_commits @ sample_changes)) 3 2 = Inr (Some (3, 1, JObj [(js ''a'', JNull)]))"
proof -
  have "documents (reached sample_commits) 3 \<noteq> None" by (simp add: sample_commits_def storage_eval)
  moreover have "2 < nextSeq (reached sample_commits)" by (simp add: sample_commits_def storage_eval)
  moreover have "content_at (reached sample_commits) 3 2 = Inr (Some (3, 1, JObj [(js ''a'', JNull)]))"
    by (simp add: sample_commits_def storage_eval content_at_def storage_document_eq isAliveAt_def revisions_at_def materialize_def obj_set_def)
  ultimately show ?thesis using document_history [of sample_commits 3 2 sample_changes] by simp
qed

end
