(* ===== verification/StorageScans.thy ===== *)
theory StorageScans
  imports StorageReads
begin

text \<open>
  The scans of the memory storage. A client that follows the cursors of a scan collects every matching record once and in
  order, whatever the size of the pages.
\<close>

section \<open>Pages\<close>

text \<open>What the client is still to see: the records after the cursor.\<close>

definition past_cursor :: "nat option \<Rightarrow> nat \<Rightarrow> bool" where
  "past_cursor cursor i = (case cursor of None \<Rightarrow> True | Some c \<Rightarrow> c < i)"

lemma page_of:
  assumes "0 < limit"
  shows "page ident (take (Suc limit) xs) limit = Inr \<lparr>page_items = take limit xs,
    page_next = (if length xs \<le> limit then None else Some (ident (last (take limit xs))))\<rparr>"
proof -
  have "take limit (take (Suc limit) xs) = take limit xs" by (simp add: min_def)
  then show ?thesis using assms by (auto simp: page_def Let_def)
qed

lemma past_cursor_simps: "past_cursor None = (\<lambda>i. True)" "past_cursor (Some c) = (\<lambda>i. c < i)"
  by (simp_all add: past_cursor_def fun_eq_iff)

lemma drop_start: "ascending ids \<Longrightarrow> drop (start_after ids cursor) ids = filter (past_cursor cursor) ids"
  by (cases cursor) (simp_all add: start_after_def past_cursor_simps drop_upperBound)

lemma rmap_present: "(\<And>i. i \<in> set is \<Longrightarrow> m i \<noteq> None) \<Longrightarrow> rmap (\<lambda>i. present (m i)) is = Inr (map (the \<circ> m) is)"
  by (induction "is") (auto simp: present_def split: option.splits)

lemma scan_loop_take:
  assumes "\<And>i. i \<in> set is \<Longrightarrow> get i = Inr (f i)" "length vals \<le> Suc limit"
  shows "scan_loop get wanted limit vals is = Inr (take (Suc limit) (vals @ filter wanted (map f is)))"
  using assms
proof (induction "is" arbitrary: vals)
  case (Cons i js)
  show ?case
  proof (cases "limit < length vals")
    case True
    then show ?thesis using Cons.prems(2) by simp
  next
    case False
    then show ?thesis using Cons by (cases "wanted (f i)") (auto simp: Suc_diff_le)
  qed
qed simp

text \<open>A list whose ids ascend is continued after the last item of a page.\<close>

lemma ascending_rest:
  assumes "sorted_wrt (\<lambda>x y. ident x < ident y) all" "xs \<noteq> []" "filter (\<lambda>x. past_cursor cursor (ident x)) all = xs @ ys"
  shows "filter (\<lambda>x. past_cursor (Some (ident (last xs))) (ident x)) all = ys"
proof -
  let ?l = "ident (last xs)"
  have "last xs \<in> set (filter (\<lambda>x. past_cursor cursor (ident x)) all)" using assms(2,3) by (metis UnCI last_in_set set_append)
  then have "past_cursor cursor ?l" by simp
  then have "past_cursor (Some ?l) i \<Longrightarrow> past_cursor cursor i" for i by (auto simp: past_cursor_def split: option.splits)
  then have "filter (\<lambda>x. past_cursor (Some ?l) (ident x)) all = filter (\<lambda>x. ?l < ident x) (filter (\<lambda>x. past_cursor cursor (ident x)) all)"
    by (auto simp: past_cursor_def intro: filter_cong)
  also have "\<dots> = ys"
    using after_ascending [of ident xs ys] assms sorted_wrt_filter [OF assms(1), of "\<lambda>x. past_cursor cursor (ident x)"] by simp
  finally show ?thesis .
qed

lemma ascending_records:
  assumes "ascending ids" "\<And>i. i \<in> set ids \<Longrightarrow> ident (f i) = i"
  shows "sorted_wrt (\<lambda>x y. ident x < ident y) (filter P (map f ids))"
proof (rule sorted_wrt_filter)
  have "sorted_wrt (\<lambda>i j. ident (f i) < ident (f j)) ids"
    using sorted_wrt_mono_rel [OF _ assms(1), of "\<lambda>i j. ident (f i) < ident (f j)"] assms(2) by simp
  then show "sorted_wrt (\<lambda>x y. ident x < ident y) (map f ids)" by (simp add: sorted_wrt_map)
qed

lemma filter_past:
  assumes "\<And>i. i \<in> set ids \<Longrightarrow> ident (f i) = i"
  shows "filter P (map f (filter (past_cursor cursor) ids)) = filter (\<lambda>x. past_cursor cursor (ident x)) (filter P (map f ids))"
  using assms by (induction ids) auto

section \<open>The three ascending scans\<close>

definition all_conversations :: "storage \<Rightarrow> conversation_record list" where
  "all_conversations s = map (the \<circ> conversations s) (sorted_list_of_set (dom (conversations s)))"

definition matching_tasks :: "storage \<Rightarrow> task_query \<Rightarrow> task_record list" where
  "matching_tasks s q = filter (\<lambda>t. task_matches q t \<and> given (tq_status q) (task_status_of (tk_state t)))
     (map (the \<circ> tasks s) (sorted_list_of_set (dom (tasks s))))"

definition matching_documents :: "storage \<Rightarrow> document_query \<Rightarrow> document_record list" where
  "matching_documents s q = filter (\<lambda>r. document_matches q r \<and> scope_of (dc_scope r) = dq_scope q)
     (map (ss_record \<circ> the \<circ> documents s) (sorted_list_of_set (dom (documents s))))"

lemma ascending_is: "ascending xs \<Longrightarrow> xs = sorted_list_of_set (set xs)"
  by (simp add: sorted_list_of_set.idem_if_sorted_distinct strict_sorted_iff)

lemma filter_ascending:
  assumes "ascending xs" "ascending ys" "set ys = {i \<in> set xs. P i}"
  shows "ys = filter P xs"
  using assms by (intro strict_sorted_equal) (auto intro: sorted_wrt_filter)


lemma ascending_paged:
  assumes "\<And>cursor limit. 0 < limit \<Longrightarrow> scan cursor limit = page ident (take (Suc limit) (filter (\<lambda>x. past_cursor cursor (ident x)) all)) limit"
    and "sorted_wrt (\<lambda>x y. ident x < ident y) all"
  shows "paged_scan scan ident (\<lambda>cursor. filter (\<lambda>x. past_cursor cursor (ident x)) all)"
proof
  show "scan cursor limit = Inr \<lparr>page_items = take limit (filter (\<lambda>x. past_cursor cursor (ident x)) all),
      page_next = (if length (filter (\<lambda>x. past_cursor cursor (ident x)) all) \<le> limit then None
        else Some (ident (last (take limit (filter (\<lambda>x. past_cursor cursor (ident x)) all)))))\<rparr>"
    if "0 < limit" for limit cursor using assms(1) [OF that] page_of [OF that] by metis
  show "filter (\<lambda>x. past_cursor (Some (ident (last xs))) (ident x)) all = ys"
    if "xs \<noteq> []" "filter (\<lambda>x. past_cursor cursor (ident x)) all = xs @ ys" for xs cursor ys
    by (rule ascending_rest [OF assms(2) that])
qed

interpretation conversation_pages: paged_scan "scanConversations (reached ops)" cv_id
  "\<lambda>cursor. filter (\<lambda>c. past_cursor cursor (cv_id c)) (all_conversations (reached ops))" for ops
proof (rule ascending_paged)
  let ?s = "reached ops" and ?f = "the \<circ> conversations (reached ops)"
  have inv: "ascending (conversationIds ?s)" "set (conversationIds ?s) = dom (conversations ?s)" "\<And>i c. conversations ?s i = Some c \<Longrightarrow> cv_id c = i"
    using reached_inv [of ops] by (auto simp: storage_inv_def records_inv_def conversations_inv_def)
  have f: "cv_id (?f i) = i" if "i \<in> set (conversationIds ?s)" for i using that inv(2,3) by auto
  have all: "all_conversations ?s = map ?f (conversationIds ?s)" using ascending_is [OF inv(1)] inv(2) by (simp add: all_conversations_def)
  show "scanConversations ?s cursor limit = page cv_id (take (Suc limit) (filter (\<lambda>c. past_cursor cursor (cv_id c)) (all_conversations ?s))) limit"
    for cursor limit
  proof -
    let ?is = "take (Suc limit) (filter (past_cursor cursor) (conversationIds ?s))"
    have "rmap (\<lambda>i. present (conversations ?s i)) ?is = Inr (map ?f ?is)"
      by (rule rmap_present) (use inv(2) in_set_takeD in fastforce)
    then show ?thesis using filter_past [of "conversationIds ?s" cv_id ?f "\<lambda>_. True" cursor] f reached_open
      by (simp add: scanConversations_def assertOpen_def drop_start [OF inv(1)] all flip: take_map)
  qed
  show "sorted_wrt (\<lambda>x y. cv_id x < cv_id y) (all_conversations ?s)"
    using ascending_records [OF inv(1), of cv_id ?f "\<lambda>_. True"] f by (simp add: all)
qed

interpretation task_pages: paged_scan "scanTasks (reached ops) q" tk_id
  "\<lambda>cursor. filter (\<lambda>t. past_cursor cursor (tk_id t)) (matching_tasks (reached ops) q)" for ops q
proof (rule ascending_paged)
  let ?s = "reached ops" and ?f = "the \<circ> tasks (reached ops)"
  let ?ids = "case tq_status q of None \<Rightarrow> taskIds ?s | Some status \<Rightarrow> taskIdsByStatus ?s status"
  have inv: "ascending (taskIds ?s)" "set (taskIds ?s) = dom (tasks ?s)" "\<And>status. ascending (taskIdsByStatus ?s status)"
    "\<And>status. set (taskIdsByStatus ?s status) = {i. \<exists>t. tasks ?s i = Some t \<and> task_status_of (tk_state t) = status}"
    "\<And>i t. tasks ?s i = Some t \<Longrightarrow> tk_id t = i"
    using reached_inv [of ops] unfolding storage_inv_def records_inv_def tasks_inv_def by blast+
  have ids: "ascending ?ids" "?ids = filter (\<lambda>i. given (tq_status q) (task_status_of (tk_state (?f i)))) (taskIds ?s)"
    using inv(1-4) by (auto simp: given_def split: option.splits intro!: filter_ascending)
  have f: "tk_id (?f i) = i" if "i \<in> set (taskIds ?s)" for i using that inv(2,5) by auto
  have sub: "i \<in> set ?ids \<Longrightarrow> i \<in> set (taskIds ?s)" for i by (subst (asm) ids(2)) simp
  have all: "matching_tasks ?s q = filter (task_matches q) (map ?f ?ids)"
    using ascending_is [OF inv(1)] inv(2) by (subst ids(2)) (simp add: matching_tasks_def filter_map comp_def conj_commute)
  show "scanTasks ?s q cursor limit = page tk_id (take (Suc limit) (filter (\<lambda>t. past_cursor cursor (tk_id t)) (matching_tasks ?s q))) limit"
    for cursor limit
  proof -
    have "scan_loop (\<lambda>i. present (tasks ?s i)) (task_matches q) limit [] (filter (past_cursor cursor) ?ids) =
        Inr (take (Suc limit) ([] @ filter (task_matches q) (map ?f (filter (past_cursor cursor) ?ids))))"
      by (rule scan_loop_take) (use sub inv(2) in \<open>auto simp: present_def split: option.splits\<close>)
    then show ?thesis using filter_past [of ?ids tk_id ?f "task_matches q" cursor] f sub reached_open
      by (simp add: scanTasks_def assertOpen_def Let_def drop_start [OF ids(1)] all)
  qed
  show "sorted_wrt (\<lambda>x y. tk_id x < tk_id y) (matching_tasks ?s q)"
    using ascending_records [OF ids(1), of tk_id ?f "task_matches q"] f sub by (simp add: all)
qed

interpretation document_pages: paged_scan "scanDocuments (reached ops) q" dc_id
  "\<lambda>cursor. filter (\<lambda>r. past_cursor cursor (dc_id r)) (matching_documents (reached ops) q)" for ops q
proof (rule ascending_paged)
  let ?s = "reached ops" and ?f = "ss_record \<circ> the \<circ> documents (reached ops)"
  let ?ids = "ids_at (documentIdsByScope ?s) (scopeKey (dq_scope q))" and ?dom = "sorted_list_of_set (dom (documents ?s))"
  have inv: "documents_inv ?s" "ids_inv ?s" using reached_inv [of ops] by (simp_all add: storage_inv_def)
  then have indexed: "documents_indexed ?s" and ok: "\<And>i d. documents ?s i = Some d \<Longrightarrow> document_ok (nextSeq ?s) i d"
    by (simp_all add: documents_inv_def)
  have docs: "dc_id (ss_record d) = i" if "documents ?s i = Some d" for i d
    using ok [OF that] by (simp add: document_ok_def Let_def)
  have bound: "\<And>i. documents ?s i \<noteq> None \<Longrightarrow> i < nextId ?s"
    using holds_bound [of "reached ops" DocumentTable] inv(2) by simp
  have fin: "finite (dom (documents ?s))" by (rule finite_subset [of _ "{..<nextId ?s}"]) (use bound in \<open>simp_all add: domIff subset_eq\<close>)
  have ids: "ascending ?ids" "set ?ids = {i. \<exists>d. documents ?s i = Some d \<and> scope_of (dc_scope (ss_record d)) = dq_scope q}"
    using indexed by (auto simp: documents_indexed_def indexes_def scopeKey_inj)
  have eq: "?ids = filter (\<lambda>i. scope_of (dc_scope (?f i)) = dq_scope q) ?dom"
    by (rule filter_ascending) (use ids fin in \<open>auto simp: strict_sorted_list_of_set\<close>)
  have f: "dc_id (?f i) = i" if "i \<in> set ?ids" for i using that ids(2) docs by auto
  have all: "matching_documents ?s q = filter (document_matches q) (map ?f ?ids)"
    by (subst eq) (simp add: matching_documents_def filter_map comp_def conj_commute)
  show "scanDocuments ?s q cursor limit = page dc_id (take (Suc limit) (filter (\<lambda>r. past_cursor cursor (dc_id r)) (matching_documents ?s q))) limit"
    for cursor limit
  proof -
    have "scan_loop (\<lambda>i. rbind (present (documents ?s i)) (\<lambda>d. Inr (ss_record d))) (document_matches q) limit [] (filter (past_cursor cursor) ?ids) =
        Inr (take (Suc limit) ([] @ filter (document_matches q) (map ?f (filter (past_cursor cursor) ?ids))))"
      by (rule scan_loop_take) (use ids(2) in \<open>auto simp: present_def\<close>)
    then show ?thesis using filter_past [of ?ids dc_id ?f "document_matches q" cursor] f reached_open
      by (simp add: scanDocuments_def assertOpen_def Let_def drop_start [OF ids(1)] all)
  qed
  show "sorted_wrt (\<lambda>x y. dc_id x < dc_id y) (matching_documents ?s q)"
    using ascending_records [OF ids(1), of dc_id ?f "document_matches q"] f by (simp add: all)
qed

text \<open>
  C25. Whatever the page size, a client that follows the cursors of a scan of conversations, tasks or documents gets every matching record
  of the storage exactly once, in the order of the ids; a number of calls above the number of records is enough.
\<close>

theorem scans_complete:
  "collect (scanConversations (reached ops)) (Suc (length (all_conversations (reached ops)) + n)) (Suc limit) None =
     Some (Inr (all_conversations (reached ops))) \<and>
   collect (scanTasks (reached ops) q) (Suc (length (matching_tasks (reached ops) q) + n)) (Suc limit) None =
     Some (Inr (matching_tasks (reached ops) q)) \<and>
   collect (scanDocuments (reached ops) dq) (Suc (length (matching_documents (reached ops) dq) + n)) (Suc limit) None =
     Some (Inr (matching_documents (reached ops) dq))"
  using conversation_pages.collect_all [of "Suc limit" None ops "Suc (length (all_conversations (reached ops)) + n)"]
    task_pages.collect_all [of "Suc limit" None ops q "Suc (length (matching_tasks (reached ops) q) + n)"]
    document_pages.collect_all [of "Suc limit" None ops dq "Suc (length (matching_documents (reached ops) dq) + n)"]
  by (simp add: past_cursor_simps)

end
