(* ===== verification/StorageHistory.thy ===== *)
theory StorageHistory
  imports StorageScans
begin

text \<open>
  The history of a conversation in the memory storage: what the walk of \<^verbatim>\<open>visibleEntries\<close> and
  \<^verbatim>\<open>findLatestHeadMarker\<close> over the fork ancestry returns, that it returns, and that the pages of \<^verbatim>\<open>scanEntries\<close>
  cover it.
\<close>

section \<open>The history of a conversation\<close>

text \<open>An entry is visible in the conversation that holds it and, through a fork, in the conversations forked at it or after it.\<close>

inductive visible :: "storage \<Rightarrow> nat \<Rightarrow> nat \<Rightarrow> bool" for s where
  own: "entries s i = Some e \<Longrightarrow> en_conversationId e = c \<Longrightarrow> visible s c i"
| inherited: "conversations s c = Some cv \<Longrightarrow> cv_parent cv = Some p \<Longrightarrow> visible s (fp_conversationId p) i \<Longrightarrow> i \<le> fp_at p \<Longrightarrow>
    visible s c i"

inductive_simps visible_iff: "visible s c i"

text \<open>
  What a session guarantees of the forks it writes: the parent is there and older than the fork, and the entries of the fork come
  after the entry at which it was forked.
\<close>

definition ancestry_ok :: "storage \<Rightarrow> bool" where
  "ancestry_ok s \<longleftrightarrow> (\<forall>c cv p. conversations s c = Some cv \<longrightarrow> cv_parent cv = Some p \<longrightarrow>
     conversations s (fp_conversationId p) \<noteq> None \<and> fp_conversationId p < c \<and>
     (\<forall>i e. entries s i = Some e \<longrightarrow> en_conversationId e = c \<longrightarrow> fp_at p < i))"

lemma ancestry_okD:
  assumes "ancestry_ok s" "conversations s c = Some cv" "cv_parent cv = Some p"
  shows "conversations s (fp_conversationId p) \<noteq> None" "fp_conversationId p < c"
    "\<And>i e. entries s i = Some e \<Longrightarrow> en_conversationId e = c \<Longrightarrow> fp_at p < i"
  using assms unfolding ancestry_ok_def by blast+

text \<open>The specification: the visible entries within the bounds, newest first.\<close>

definition within :: "nat option \<Rightarrow> int option \<Rightarrow> nat \<Rightarrow> bool" where
  "within lower upper i \<longleftrightarrow> (\<forall>l. lower = Some l \<longrightarrow> l \<le> i) \<and> (\<forall>u. upper = Some u \<longrightarrow> int i \<le> u)"

definition newest_first :: "nat set \<Rightarrow> nat list" where
  "newest_first A = rev (sorted_list_of_set A)"

definition history :: "storage \<Rightarrow> nat option \<Rightarrow> nat \<Rightarrow> int option \<Rightarrow> entry_record list" where
  "history s lower c upper = map (the \<circ> entries s) (newest_first {i. visible s c i \<and> within lower upper i})"

lemma newest_first_union:
  assumes "finite A" "finite B" "\<And>a b. a \<in> A \<Longrightarrow> b \<in> B \<Longrightarrow> b < a"
  shows "newest_first (A \<union> B) = newest_first A @ newest_first B"
proof -
  have "sorted_list_of_set B @ sorted_list_of_set A = sorted_list_of_set (A \<union> B)"
    by (rule strict_sorted_equal) (use assms in \<open>auto simp: sorted_wrt_append\<close>)
  then show ?thesis by (metis newest_first_def rev_append)
qed

lemma newest_first_ascending: "ascending ids \<Longrightarrow> set ids = A \<Longrightarrow> newest_first A = rev ids"
  using ascending_is [of ids] by (simp add: newest_first_def)

lemma takeWhile_filter: "sorted_wrt (\<lambda>x y. P y \<longrightarrow> P x) xs \<Longrightarrow> takeWhile P xs = filter P xs"
  by (induction xs) (auto simp: filter_empty_conv[symmetric] intro!: filter_False[symmetric])

lemma up_to_filter: "ascending ids \<Longrightarrow> up_to ids upper = filter (within None upper) ids"
proof (cases upper)
  case None
  then show ?thesis by (simp add: up_to_def within_def)
next
  case (Some u)
  assume a: "ascending ids"
  show ?thesis
  proof (cases "u < 0")
    case True
    then show ?thesis using Some by (auto simp: up_to_def within_def filter_empty_conv)
  next
    case False
    then show ?thesis using Some take_upperBound [OF a, of "nat u"] by (auto simp: up_to_def within_def le_nat_iff intro!: filter_cong)
  qed
qed

lemma own_ids:
  assumes "ascending ids"
  shows "takeWhile (\<lambda>i. \<not> below (Some (int i)) lower) (rev (up_to ids upper)) = rev (filter (within lower upper) ids)"
proof -
  let ?P = "\<lambda>i. \<not> below (Some (int i)) lower" and ?ids = "filter (within None upper) ids"
  have "sorted_wrt (\<lambda>x y. ?P x \<longrightarrow> ?P y) ?ids"
    by (rule sorted_wrt_mono_rel [OF _ sorted_wrt_filter [OF assms]]) (auto simp: below_def split: option.splits)
  then have "takeWhile ?P (rev ?ids) = filter ?P (rev ?ids)" by (intro takeWhile_filter) (simp add: sorted_wrt_rev)
  also have "\<dots> = rev (filter (within lower upper) ids)"
    by (auto simp: rev_filter[symmetric] within_def below_def split: option.splits intro!: filter_cong)
  finally show ?thesis by (simp add: up_to_filter [OF assms])
qed

lemma within_min [simp]: "within lower (min_bound upper (int n)) i \<longleftrightarrow> within lower upper i \<and> i \<le> n"
  by (auto simp: within_def min_bound_def split: option.splits)

lemma not_within: "below upper lower \<Longrightarrow> \<not> within lower upper i"
  by (auto simp: within_def below_def split: option.splits)

definition own_history :: "storage \<Rightarrow> nat option \<Rightarrow> nat \<Rightarrow> int option \<Rightarrow> entry_record list" where
  "own_history s lower c upper = map (the \<circ> entries s) (rev (filter (within lower upper) (ids_at (entryIds s) c)))"

lemma entry_index:
  assumes "storage_inv s"
  shows "ascending (ids_at (entryIds s) c)" "set (ids_at (entryIds s) c) = {i. \<exists>e. entries s i = Some e \<and> en_conversationId e = c}"
    "ascending (ids_at (headEntryIds s) c)"
    "set (ids_at (headEntryIds s) c) = {i. \<exists>e. entries s i = Some e \<and> en_conversationId e = c \<and> en_head e \<noteq> None}"
    "entries s i = Some e \<Longrightarrow> en_id e = i" "entries s i \<noteq> None \<Longrightarrow> i < nextId s"
  using assms holds_bound [of s EntryTable i] by (simp_all add: storage_inv_def records_inv_def entries_inv_def indexes_def set_eq_iff)

lemma visible_entry: "visible s c i \<Longrightarrow> entries s i \<noteq> None"
  by (induction rule: visible.induct) auto

lemma finite_visible: "storage_inv s \<Longrightarrow> finite {i. visible s c i \<and> P i}"
  by (rule finite_subset [of _ "{..<nextId s}"]) (use visible_entry [of s c] entry_index(6) [of s] in \<open>simp_all add: subset_eq\<close>)

lemma history_step:
  assumes inv: "storage_inv s" and ok: "ancestry_ok s" and conv: "conversations s c = Some cv"
  shows "history s lower c upper = own_history s lower c upper @
    (case cv_parent cv of None \<Rightarrow> [] | Some p \<Rightarrow> history s lower (fp_conversationId p) (min_bound upper (int (fp_at p))))"
proof -
  let ?A = "set (filter (within lower upper) (ids_at (entryIds s) c))"
  let ?B = "case cv_parent cv of None \<Rightarrow> {} | Some p \<Rightarrow> {i. visible s (fp_conversationId p) i \<and> within lower (min_bound upper (int (fp_at p))) i}"
  have "{i. visible s c i \<and> within lower upper i} = ?A \<union> ?B"
    using conv by (subst visible_iff) (auto simp: entry_index(2) [OF inv] split: option.splits)
  moreover have "newest_first (?A \<union> ?B) = newest_first ?A @ newest_first ?B"
  proof (rule newest_first_union)
    show "finite ?B" using finite_visible [OF inv] by (simp split: option.splits)
    show "b < a" if "a \<in> ?A" "b \<in> ?B" for a b
      using that ancestry_okD(3) [OF ok conv] by (fastforce simp: entry_index(2) [OF inv] split: option.splits)
  qed simp
  moreover have "newest_first ?A = rev (filter (within lower upper) (ids_at (entryIds s) c))"
    by (rule newest_first_ascending) (simp_all add: sorted_wrt_filter entry_index(1) [OF inv])
  ultimately show ?thesis by (auto simp: history_def own_history_def newest_first_def split: option.splits)
qed

lemma history_below: "below upper lower \<Longrightarrow> history s lower c upper = []"
  by (simp add: history_def not_within newest_first_def)

lemma visible_from_history:
  assumes inv: "storage_inv s" and ok: "ancestry_ok s" and "conversations s c \<noteq> None"
  shows "visible_from s lower need c upper = Some (Inr (take need (history s lower c upper)))"
  using assms(3)
proof (induction c arbitrary: need upper rule: less_induct)
  case (less c)
  then obtain cv where cv: "conversations s c = Some cv" by blast
  let ?own = "own_history s lower c upper"
  have own: "rmap (\<lambda>i. present (entries s i)) (take need (takeWhile (\<lambda>i. \<not> below (Some (int i)) lower) (rev (up_to (ids_at (entryIds s) c) upper)))) =
      Inr (take need ?own)"
    using entry_index(2) [OF inv] unfolding own_ids [OF entry_index(1) [OF inv]] own_history_def take_map
    by (intro rmap_present) (auto dest!: in_set_takeD)
  show ?case
  proof (cases "need \<le> length ?own")
    case True
    then show ?thesis by (simp add: visible_from.simps [of s lower need c upper] own history_step [OF inv ok cv])
  next
    case False
    show ?thesis
    proof (cases "cv_parent cv")
      case None
      then show ?thesis using False cv by (simp add: visible_from.simps [of s lower need c upper] own history_step [OF inv ok cv])
    next
      case (Some p)
      have "visible_from s lower (need - length ?own) (fp_conversationId p) (min_bound upper (int (fp_at p))) =
          Some (Inr (take (need - length ?own) (history s lower (fp_conversationId p) (min_bound upper (int (fp_at p))))))"
        by (rule less.IH) (use ancestry_okD(1,2) [OF ok cv Some] in auto)
      then show ?thesis using False cv Some
        by (simp add: visible_from.simps [of s lower need c upper] own history_step [OF inv ok cv] history_below Let_def)
    qed
  qed
qed

section \<open>The latest head marker\<close>

lemma find_append: "find P (xs @ ys) = (case find P xs of None \<Rightarrow> find P ys | Some x \<Rightarrow> Some x)"
  by (induction xs) auto

lemma find_rev_map: "find P (map f (rev xs)) = (case filter (P \<circ> f) xs of [] \<Rightarrow> None | zs \<Rightarrow> Some (f (last zs)))"
  by (induction xs) (auto simp: find_append split: list.splits)

lemma marker_from_history:
  assumes inv: "storage_inv s" and ok: "ancestry_ok s" and "conversations s c \<noteq> None"
  shows "marker_from s c upper = Some (Inr (find (\<lambda>e. en_head e \<noteq> None) (history s None c upper)))"
  using assms(3)
proof (induction c arbitrary: upper rule: less_induct)
  case (less c)
  then obtain cv where cv: "conversations s c = Some cv" by blast
  let ?head = "\<lambda>i. en_head (the (entries s i)) \<noteq> None"
  have "ids_at (headEntryIds s) c = filter ?head (ids_at (entryIds s) c)"
    by (rule filter_ascending) (auto simp: entry_index [OF inv])
  then have ids: "up_to (ids_at (headEntryIds s) c) upper = filter ?head (filter (within None upper) (ids_at (entryIds s) c))" (is "_ = ?ids")
    by (simp add: up_to_filter entry_index [OF inv] sorted_wrt_filter conj_commute)
  have found: "find (\<lambda>e. en_head e \<noteq> None) (own_history s None c upper) = (if ?ids = [] then None else Some (the (entries s (last ?ids))))"
    by (simp add: own_history_def find_rev_map comp_def split: list.splits)
  have last: "present (entries s (last ?ids)) = Inr (the (entries s (last ?ids)))" if "?ids \<noteq> []"
    using last_in_set [OF that] by (auto simp: entry_index [OF inv] present_def)
  show ?case
  proof (cases "?ids = []")
    case False
    then show ?thesis using last found by (simp add: marker_from.simps [of s c upper] ids Let_def history_step [OF inv ok cv] find_append)
  next
    case True
    show ?thesis
    proof (cases "cv_parent cv")
      case None
      then show ?thesis using True cv found by (simp add: marker_from.simps [of s c upper] ids Let_def history_step [OF inv ok cv])
    next
      case (Some p)
      have "marker_from s (fp_conversationId p) (min_bound upper (int (fp_at p))) =
          Some (Inr (find (\<lambda>e. en_head e \<noteq> None) (history s None (fp_conversationId p) (min_bound upper (int (fp_at p))))))"
        by (rule less.IH) (use ancestry_okD(1,2) [OF ok cv Some] in auto)
      then show ?thesis using True cv Some found
        by (simp add: marker_from.simps [of s c upper] ids Let_def history_step [OF inv ok cv] find_append)
    qed
  qed
qed

section \<open>Pages of a history\<close>

definition before_cursor :: "nat option \<Rightarrow> nat \<Rightarrow> bool" where
  "before_cursor cursor i = (case cursor of None \<Rightarrow> True | Some c \<Rightarrow> i < c)"

lemma within_scan_upper: "within lower (scan_upper upper cursor) i \<longleftrightarrow> within lower (map_option int upper) i \<and> before_cursor cursor i"
  by (cases upper; cases cursor) (auto simp: within_def scan_upper_def min_bound_def before_cursor_def)

lemma newest_first_filter: "finite A \<Longrightarrow> newest_first {i \<in> A. P i} = filter P (newest_first A)"
proof -
  assume fin: "finite A"
  have "sorted_list_of_set {i \<in> A. P i} = filter P (sorted_list_of_set A)"
    by (rule filter_ascending) (use fin in \<open>auto simp: strict_sorted_list_of_set\<close>)
  then show ?thesis by (simp add: newest_first_def rev_filter)
qed

lemma history_entry: "storage_inv s \<Longrightarrow> visible s c i \<Longrightarrow> en_id (the (entries s i)) = i"
  using visible_entry [of s c i] entry_index(5) by fastforce

lemma set_newest_first [simp]: "finite A \<Longrightarrow> set (newest_first A) = A"
  by (simp add: newest_first_def)

lemma history_cursor:
  assumes inv: "storage_inv s"
  shows "history s lower c (scan_upper upper cursor) = filter (\<lambda>e. before_cursor cursor (en_id e)) (history s lower c (map_option int upper))"
proof -
  let ?A = "{i. visible s c i \<and> within lower (map_option int upper) i}"
  have "{i. visible s c i \<and> within lower (scan_upper upper cursor) i} = {i \<in> ?A. before_cursor cursor i}"
    by (auto simp: within_scan_upper)
  moreover have "filter (\<lambda>i. before_cursor cursor (en_id (the (entries s i)))) (newest_first ?A) = filter (before_cursor cursor) (newest_first ?A)"
    using history_entry [OF inv] finite_visible [OF inv] by (intro filter_cong) auto
  ultimately show ?thesis
    using newest_first_filter [OF finite_visible [OF inv], of c "within lower (map_option int upper)" "before_cursor cursor"]
    by (simp add: history_def filter_map comp_def)
qed

lemma history_descending:
  assumes inv: "storage_inv s"
  shows "sorted_wrt (\<lambda>x y. en_id y < en_id x) (history s lower c upper)"
proof -
  let ?A = "{i. visible s c i \<and> within lower upper i}"
  have "sorted_wrt (\<lambda>i j. j < i) (newest_first ?A)" by (simp add: newest_first_def sorted_wrt_rev strict_sorted_list_of_set)
  then have "sorted_wrt (\<lambda>i j. en_id (the (entries s j)) < en_id (the (entries s i))) (newest_first ?A)"
    using history_entry [OF inv] finite_visible [OF inv] by (elim sorted_wrt_mono_rel [rotated]) auto
  then show ?thesis by (simp add: history_def sorted_wrt_map)
qed

lemma scanEntries_page:
  assumes "storage_inv s" "\<not> closed s" "ancestry_ok s" "conversations s (eq_conversationId q) \<noteq> None"
  shows "scanEntries s q cursor limit =
    Some (page en_id (take (Suc limit) (history s (eq_minEntryId q) (eq_conversationId q) (scan_upper (eq_maxEntryId q) cursor))) limit)"
  using assms visible_from_history [OF assms(1,3,4)] by (auto simp: scanEntries_def assertOpen_def visibleEntries_def)

lemma entries_paged:
  assumes "storage_inv s" "\<not> closed s" "ancestry_ok s" "conversations s (eq_conversationId q) \<noteq> None"
  shows "paged_scan (\<lambda>cursor limit. the (scanEntries s q cursor limit)) en_id
    (\<lambda>cursor. history s (eq_minEntryId q) (eq_conversationId q) (scan_upper (eq_maxEntryId q) cursor))" (is "paged_scan _ _ ?rest")
proof
  show "the (scanEntries s q cursor limit) = Inr \<lparr>page_items = take limit (?rest cursor),
      page_next = (if length (?rest cursor) \<le> limit then None else Some (en_id (last (take limit (?rest cursor)))))\<rparr>"
    if "0 < limit" for limit cursor by (simp only: scanEntries_page [OF assms] page_of [OF that] option.sel)
  show "?rest (Some (en_id (last xs))) = ys" if xs: "xs \<noteq> []" "?rest cursor = xs @ ys" for xs cursor ys
  proof -
    let ?all = "history s (eq_minEntryId q) (eq_conversationId q) (map_option int (eq_maxEntryId q))" and ?l = "en_id (last xs)"
    have "last xs \<in> set (?rest cursor)" using xs by simp
    then have "before_cursor cursor ?l" by (simp add: history_cursor [OF assms(1)])
    then have "before_cursor (Some ?l) i \<longleftrightarrow> before_cursor cursor i \<and> i < ?l" for i by (auto simp: before_cursor_def split: option.splits)
    then have "?rest (Some ?l) = filter (\<lambda>e. en_id e < ?l) (?rest cursor)"
      by (simp add: history_cursor [OF assms(1)] conj_commute)
    also have "\<dots> = ys" unfolding xs(2) using history_descending [OF assms(1)] xs by (intro after_descending) metis+
    finally show ?thesis .
  qed
qed

section \<open>Properties\<close>


text \<open>
  C16. A history is complete: a client that follows the cursors of \<^verbatim>\<open>scanEntries\<close> gets, whatever the page size, exactly the
  entries of the conversation and those inherited from its ancestors up to each fork point, within the bounds of the query, each
  once and newest first.
\<close>

theorem history_complete:
  assumes "ancestry_ok (reached ops)" "conversations (reached ops) (eq_conversationId q) \<noteq> None"
    and "all = history (reached ops) (eq_minEntryId q) (eq_conversationId q) (map_option int (eq_maxEntryId q))"
  shows "collect (\<lambda>cursor limit. the (scanEntries (reached ops) q cursor limit)) (Suc (length all + n)) (Suc limit) None = Some (Inr all)"
  using paged_scan.collect_all [OF entries_paged [OF reached_inv reached_open assms(1,2)], of "Suc limit" None "Suc (length all + n)"]
  by (simp add: assms(3) scan_upper_def)

text \<open>
  The latest head marker is the newest visible entry that carries a head, so the entry at which the active context of a
  conversation starts is the one a reader of its history would find, also when it was inherited over a fork.
\<close>

lemma latest_marker:
  assumes "ancestry_ok (reached ops)" "conversations (reached ops) c \<noteq> None"
  shows "findLatestHeadMarker (reached ops) c atOrBefore =
    Some (Inr (find (\<lambda>e. en_head e \<noteq> None) (history (reached ops) None c (map_option int atOrBefore))))"
  using marker_from_history [OF reached_inv assms] assms(2) reached_open by (auto simp: findLatestHeadMarker_def assertOpen_def)

section \<open>Witnesses\<close>

definition sample_entry :: "nat \<Rightarrow> nat \<Rightarrow> nat option \<Rightarrow> entry_record" where
  "sample_entry c i head = \<lparr>en_id = i, en_conversationId = c, en_kind = js ''note'', en_model = None, en_data = None, en_head = head,
     en_edits = None, en_byTaskId = None\<rparr>"

definition forked_commits :: "storage_write store_op list" where
  "forked_commits = [Commit [WriteConversation \<lparr>cv_id = 1, cv_parent = None, cv_owner = None\<rparr>, WriteEntry (sample_entry 1 2 (Some 2)),
     WriteEntry (sample_entry 1 3 None), WriteConversation \<lparr>cv_id = 4, cv_parent = Some \<lparr>fp_conversationId = 1, fp_at = 2\<rparr>, cv_owner = None\<rparr>,
     WriteEntry (sample_entry 4 5 None)]]"

lemma sample_entry_fields [simp]:
  "en_id (sample_entry c i h) = i" "en_conversationId (sample_entry c i h) = c" "en_head (sample_entry c i h) = h"
  by (simp_all add: sample_entry_def)

lemma forked_tables:
  "conversations (reached forked_commits) = [1 \<mapsto> \<lparr>cv_id = 1, cv_parent = None, cv_owner = None\<rparr>,
     4 \<mapsto> \<lparr>cv_id = 4, cv_parent = Some \<lparr>fp_conversationId = 1, fp_at = 2\<rparr>, cv_owner = None\<rparr>]"
  "entries (reached forked_commits) = [2 \<mapsto> sample_entry 1 2 (Some 2), 3 \<mapsto> sample_entry 1 3 None, 5 \<mapsto> sample_entry 4 5 None]"
  by (simp_all add: forked_commits_def storage_eval)

lemma forked_ancestry: "ancestry_ok (reached forked_commits)"
  by (auto simp: ancestry_ok_def forked_tables)

lemma forked_visible: "visible (reached forked_commits) 4 i \<longleftrightarrow> i = 2 \<or> i = 5"
proof -
  have "visible (reached forked_commits) 1 i \<longleftrightarrow> i = 2 \<or> i = 3" by (subst visible_iff) (auto simp: forked_tables)
  then show ?thesis by (subst visible_iff) (auto simp: forked_tables)
qed

lemma forked_history: "history (reached forked_commits) None 4 None = [sample_entry 4 5 None, sample_entry 1 2 (Some 2)]"
proof -
  have "newest_first {i. i = 2 \<or> i = 5} = [5, 2]" by (rule newest_first_ascending [of "[2, 5]", simplified]) auto
  then show ?thesis by (simp add: history_def forked_visible within_def forked_tables)
qed


theorem history_complete_witness:
  "collect (\<lambda>cursor limit. the (scanEntries (reached forked_commits) \<lparr>eq_conversationId = 4, eq_minEntryId = None, eq_maxEntryId = None\<rparr> cursor limit))
     3 (Suc 0) None = Some (Inr [sample_entry 4 5 None, sample_entry 1 2 (Some 2)])"
  using history_complete [OF forked_ancestry _ refl, of "\<lparr>eq_conversationId = 4, eq_minEntryId = None, eq_maxEntryId = None\<rparr>" 0 0]
  by (simp add: forked_history forked_tables numeral_3_eq_3 del: collect.simps)

end
