(* ===== verification/StateCodec.thy ===== *)
theory StateCodec
  imports DeltaCodec
begin

text \<open>
  The codec of one service subscription (\<^verbatim>\<open>packages/chord/src/services/state-codec.ts\<close>): a registry with one delta
  encoder or decoder per replicated state, filled by the snapshots of instances and emptied by their removal; and the
  snapshots and updates it translates (\<^verbatim>\<open>packages/chord/src/types.ts\<close>, \<^verbatim>\<open>services/wire.ts\<close>).
\<close>

section \<open>Snapshots and updates\<close>

datatype service_mode = Singleton | Keyed

record service_address =
  sa_key :: jsstring
  sa_generation :: nat

text \<open>The payload of a state is a list of operations on the service side and a list of tuples on the wire.\<close>

datatype 'o member_snapshot = MethodMember jsstring | StateMember jsstring nat 'o

record 'o instance_snapshot =
  is_instance :: "service_address option"
  is_members :: "'o member_snapshot list"

record 'o subscription_snapshot =
  sn_serviceId :: jsstring
  sn_mode :: service_mode
  sn_instances :: "'o instance_snapshot list"

datatype 'o provider_update =
    StateUpdate "service_address option" jsstring nat 'o
  | Unavailable
  | Replaced "'o instance_snapshot"
  | Spawned "'o instance_snapshot"
  | Closed service_address

section \<open>The registry\<close>

text \<open>A map in the order of insertion, from the key of a state to its instance and its codec.\<close>

type_synonym 'c registry = "(jsstring \<times> service_address option \<times> 'c) list"

datatype state_error = DuplicateState jsstring | UnknownState jsstring | CodecFailed delta_error

definition stateKey :: "service_address option \<Rightarrow> jsstring \<Rightarrow> jsstring" where
  "stateKey inst member = stringify (KArr
     [(case inst of None \<Rightarrow> KNull | Some a \<Rightarrow> KStr (sa_key a)), (case inst of None \<Rightarrow> KNull | Some a \<Rightarrow> KNum (sa_generation a)), KStr member])"

definition sameAddress :: "service_address option \<Rightarrow> service_address \<Rightarrow> bool" where
  "sameAddress left right = (case left of
      None \<Rightarrow> False
    | Some a \<Rightarrow> sa_key a = sa_key right \<and> sa_generation a = sa_generation right)"

definition describeState :: "service_address option \<Rightarrow> jsstring \<Rightarrow> jsstring" where
  "describeState inst member = (case inst of
      None \<Rightarrow> member
    | Some a \<Rightarrow> sa_key a @ js ''@'' @ decimal (sa_generation a) @ js ''.'' @ member)"

definition reset_codecs :: "'c registry \<Rightarrow> 'c registry" where
  "reset_codecs codecs = []"

definition add_codec :: "'c \<Rightarrow> 'c registry \<Rightarrow> service_address option \<Rightarrow> jsstring \<Rightarrow> (state_error, 'c registry) result" where
  "add_codec create codecs inst member =
     (let key = stateKey inst member in
      if map_of codecs key \<noteq> None then Inl (DuplicateState (describeState inst member))
      else Inr (map_set key (inst, create) codecs))"

definition removeInstance :: "'c registry \<Rightarrow> service_address \<Rightarrow> 'c registry" where
  "removeInstance codecs inst = filter (\<lambda>(key, i, c). \<not> sameAddress i inst) codecs"

text \<open>Looking a codec up and running it: the codec is an object of the registry, so it is changed in place, also when it throws.\<close>

definition get_codec :: "('c \<Rightarrow> 'a \<Rightarrow> 'c \<times> (delta_error, 'b) result) \<Rightarrow> 'c registry \<Rightarrow> service_address option \<Rightarrow> jsstring \<Rightarrow> 'a \<Rightarrow>
    'c registry \<times> (state_error, 'b) result" where
  "get_codec run codecs inst member ops =
     (let key = stateKey inst member in
      case map_of codecs key of
        None \<Rightarrow> (codecs, Inl (UnknownState (describeState inst member)))
      | Some (i, c) \<Rightarrow> (case run c ops of (c', r) \<Rightarrow>
          (map_set key (i, c') codecs, (case r of Inl e \<Rightarrow> Inl (CodecFailed e) | Inr ops' \<Rightarrow> Inr ops'))))"

text \<open>A callback mapped over an array, with the state it changes; a throw ends it.\<close>

fun smap :: "('s \<Rightarrow> 'a \<Rightarrow> 's \<times> ('e, 'b) result) \<Rightarrow> 's \<Rightarrow> 'a list \<Rightarrow> 's \<times> ('e, 'b list) result" where
  "smap f s [] = (s, Inr [])"
| "smap f s (x # xs) = (case f s x of
      (s', Inl e) \<Rightarrow> (s', Inl e)
    | (s', Inr y) \<Rightarrow> (case smap f s' xs of (s'', r) \<Rightarrow> (s'', rbind r (\<lambda>ys. Inr (y # ys)))))"

definition code_member :: "('c \<Rightarrow> 'a \<Rightarrow> 'c \<times> (delta_error, 'b) result) \<Rightarrow> 'c \<Rightarrow> service_address option \<Rightarrow> 'c registry \<Rightarrow>
    'a member_snapshot \<Rightarrow> 'c registry \<times> (state_error, 'b member_snapshot) result" where
  "code_member run create inst codecs member = (case member of
      MethodMember name \<Rightarrow> (codecs, Inr (MethodMember name))
    | StateMember name sequence ops \<Rightarrow> (case add_codec create codecs inst name of
          Inl e \<Rightarrow> (codecs, Inl e)
        | Inr codecs' \<Rightarrow> (case get_codec run codecs' inst name ops of (codecs'', r) \<Rightarrow>
            (codecs'', rbind r (\<lambda>ops'. Inr (StateMember name sequence ops'))))))"

definition code_instance :: "('c \<Rightarrow> 'a \<Rightarrow> 'c \<times> (delta_error, 'b) result) \<Rightarrow> 'c \<Rightarrow> 'c registry \<Rightarrow> 'a instance_snapshot \<Rightarrow>
    'c registry \<times> (state_error, 'b instance_snapshot) result" where
  "code_instance run create codecs snapshot =
     (case smap (code_member run create (is_instance snapshot)) codecs (is_members snapshot) of (codecs', r) \<Rightarrow>
        (codecs', rbind r (\<lambda>members. Inr \<lparr>is_instance = is_instance snapshot, is_members = members\<rparr>)))"

definition code_snapshot :: "('c \<Rightarrow> 'a \<Rightarrow> 'c \<times> (delta_error, 'b) result) \<Rightarrow> 'c \<Rightarrow> 'c registry \<Rightarrow> 'a subscription_snapshot \<Rightarrow>
    'c registry \<times> (state_error, 'b subscription_snapshot) result" where
  "code_snapshot run create codecs snapshot =
     (case smap (code_instance run create) (reset_codecs codecs) (sn_instances snapshot) of (codecs', r) \<Rightarrow>
        (codecs', rbind r (\<lambda>instances. Inr \<lparr>sn_serviceId = sn_serviceId snapshot, sn_mode = sn_mode snapshot, sn_instances = instances\<rparr>)))"

definition code_update :: "('c \<Rightarrow> 'a \<Rightarrow> 'c \<times> (delta_error, 'b) result) \<Rightarrow> 'c \<Rightarrow> 'c registry \<Rightarrow> 'a provider_update \<Rightarrow>
    'c registry \<times> (state_error, 'b provider_update) result" where
  "code_update run create codecs update = (case update of
      StateUpdate inst member sequence ops \<Rightarrow> (case get_codec run codecs inst member ops of (codecs', r) \<Rightarrow>
        (codecs', rbind r (\<lambda>ops'. Inr (StateUpdate inst member sequence ops'))))
    | Replaced snapshot \<Rightarrow> (case code_instance run create (reset_codecs codecs) snapshot of (codecs', r) \<Rightarrow> (codecs', rbind r (\<lambda>s. Inr (Replaced s))))
    | Spawned snapshot \<Rightarrow> (case code_instance run create codecs snapshot of (codecs', r) \<Rightarrow> (codecs', rbind r (\<lambda>s. Inr (Spawned s))))
    | Unavailable \<Rightarrow> (reset_codecs codecs, Inr Unavailable)
    | Closed inst \<Rightarrow> (removeInstance codecs inst, Inr (Closed inst)))"

section \<open>Encoder and decoder of a subscription\<close>

text \<open>Encoding a batch cannot fail; what crosses the wire are the tuples of its operations.\<close>

definition run_encoder :: "delta_encoder \<Rightarrow> delta_op list \<Rightarrow> delta_encoder \<times> (delta_error, json list) result" where
  "run_encoder e ops = (case encode_json e ops of (w, e') \<Rightarrow> (e', Inr w))"

definition encodeInstance :: "delta_encoder registry \<Rightarrow> delta_op list instance_snapshot \<Rightarrow>
    delta_encoder registry \<times> (state_error, json list instance_snapshot) result" where
  "encodeInstance = code_instance run_encoder encoder"

definition decodeInstance :: "delta_decoder registry \<Rightarrow> json list instance_snapshot \<Rightarrow>
    delta_decoder registry \<times> (state_error, delta_op list instance_snapshot) result" where
  "decodeInstance = code_instance decode decoder"

definition encodeSnapshot :: "delta_encoder registry \<Rightarrow> delta_op list subscription_snapshot \<Rightarrow>
    delta_encoder registry \<times> (state_error, json list subscription_snapshot) result" where
  "encodeSnapshot = code_snapshot run_encoder encoder"

definition encodeUpdate :: "delta_encoder registry \<Rightarrow> delta_op list provider_update \<Rightarrow>
    delta_encoder registry \<times> (state_error, json list provider_update) result" where
  "encodeUpdate = code_update run_encoder encoder"

definition decodeSnapshot :: "delta_decoder registry \<Rightarrow> json list subscription_snapshot \<Rightarrow>
    delta_decoder registry \<times> (state_error, delta_op list subscription_snapshot) result" where
  "decodeSnapshot = code_snapshot decode decoder"

definition decodeUpdate :: "delta_decoder registry \<Rightarrow> json list provider_update \<Rightarrow>
    delta_decoder registry \<times> (state_error, delta_op list provider_update) result" where
  "decodeUpdate = code_update decode decoder"

definition createServiceStateEncoder :: "delta_encoder registry" where
  "createServiceStateEncoder = []"

definition createServiceStateDecoder :: "delta_decoder registry" where
  "createServiceStateDecoder = []"

section \<open>Keys\<close>

lemma stateKey_inj: "stateKey i m = stateKey j n \<longleftrightarrow> i = j \<and> m = n"
  unfolding stateKey_def stringify_inj by (auto split: option.splits)

lemma sameAddress_iff: "sameAddress i a \<longleftrightarrow> i = Some a"
  by (auto simp: sameAddress_def split: option.splits)


section \<open>A state is registered once\<close>

text \<open>The keys of the states an instance brings.\<close>

definition state_keys :: "'o instance_snapshot \<Rightarrow> jsstring list" where
  "state_keys snapshot = concat (map (\<lambda>m. case m of MethodMember _ \<Rightarrow> [] | StateMember name _ _ \<Rightarrow> [stateKey (is_instance snapshot) name])
     (is_members snapshot))"

definition succeeds :: "'s \<times> ('e, 'b) result \<Rightarrow> bool" where
  "succeeds outcome = (case snd outcome of Inl _ \<Rightarrow> False | Inr _ \<Rightarrow> True)"

text \<open>A step that adds keys to a registry: it succeeds exactly when none of them is there already or twice.\<close>

definition adds :: "('c registry \<Rightarrow> 'a \<Rightarrow> 'c registry \<times> ('e, 'b) result) \<Rightarrow> ('a \<Rightarrow> jsstring list) \<Rightarrow> bool" where
  "adds f keys \<longleftrightarrow> (\<forall>codecs x. distinct (map fst codecs) \<longrightarrow>
     (succeeds (f codecs x) \<longleftrightarrow> distinct (map fst codecs @ keys x)) \<and>
     (succeeds (f codecs x) \<longrightarrow> map fst (fst (f codecs x)) = map fst codecs @ keys x))"

lemma addsD:
  assumes "adds f keys" "distinct (map fst codecs)"
  shows "succeeds (f codecs x) \<longleftrightarrow> distinct (map fst codecs @ keys x)"
    "succeeds (f codecs x) \<Longrightarrow> map fst (fst (f codecs x)) = map fst codecs @ keys x"
  using assms unfolding adds_def by blast+

lemma adds_smap:
  assumes "adds f keys"
  shows "adds (smap f) (\<lambda>xs. concat (map keys xs))"
proof -
  have "(succeeds (smap f codecs xs) \<longleftrightarrow> distinct (map fst codecs @ concat (map keys xs))) \<and>
      (succeeds (smap f codecs xs) \<longrightarrow> map fst (fst (smap f codecs xs)) = map fst codecs @ concat (map keys xs))"
    if "distinct (map fst codecs)" for codecs xs
    using that
  proof (induction xs arbitrary: codecs)
    case (Cons x xs)
    obtain c' r where f: "f codecs x = (c', r)" by fastforce
    note this' = addsD [OF assms Cons.prems, of x, unfolded f]
    show ?case
    proof (cases r)
      case (Inl e)
      then have "\<not> distinct (map fst codecs @ keys x)" using this'(1) by (simp add: succeeds_def)
      then show ?thesis using Inl f by (auto simp: succeeds_def)
    next
      case (Inr y)
      then have keys: "distinct (map fst c')" "map fst c' = map fst codecs @ keys x" using this' by (simp_all add: succeeds_def)
      have "succeeds (smap f codecs (x # xs)) = succeeds (smap f c' xs)" "fst (smap f codecs (x # xs)) = fst (smap f c' xs)"
        using f Inr by (auto simp: succeeds_def rbind_def split: prod.splits sum.splits)
      then show ?thesis using Cons.IH [OF keys(1)] keys by simp
    qed
  qed (simp add: succeeds_def)
  then show ?thesis unfolding adds_def by blast
qed

lemma map_of_keys: "map_of xs k = None \<longleftrightarrow> k \<notin> set (map fst xs)"
  by (simp add: map_of_eq_None_iff)

lemma keys_map_set: "map fst (map_set k v xs) = (if k \<in> set (map fst xs) then map fst xs else map fst xs @ [k])"
  by (induction k v xs rule: map_set.induct) auto

definition never_throws :: "('c \<Rightarrow> 'a \<Rightarrow> 'c \<times> ('e, 'b) result) \<Rightarrow> bool" where
  "never_throws run \<longleftrightarrow> (\<forall>c ops. succeeds (run c ops))"

lemma get_codec_total:
  assumes "never_throws run"
  shows "succeeds (get_codec run codecs inst member ops) \<longleftrightarrow> stateKey inst member \<in> set (map fst codecs)"
    "map fst (fst (get_codec run codecs inst member ops)) = map fst codecs"
proof -
  show "succeeds (get_codec run codecs inst member ops) \<longleftrightarrow> stateKey inst member \<in> set (map fst codecs)"
  proof (cases "map_of codecs (stateKey inst member)")
    case None
    then have "stateKey inst member \<notin> set (map fst codecs)" by (simp add: map_of_eq_None_iff)
    with None show ?thesis by (simp add: get_codec_def succeeds_def Let_def)
  next
    case (Some ic)
    obtain c' w where "run (snd ic) ops = (c', Inr w)"
      using assms [unfolded never_throws_def succeeds_def, rule_format, of "snd ic" ops] by (cases "run (snd ic) ops") (auto split: sum.splits)
    then show ?thesis using Some map_of_SomeD [OF Some]
      by (force simp: get_codec_def succeeds_def Let_def split: prod.splits)
  qed
  show "map fst (fst (get_codec run codecs inst member ops)) = map fst codecs"
    by (cases "map_of codecs (stateKey inst member)")
      (force simp: get_codec_def Let_def keys_map_set split: prod.splits dest: map_of_SomeD)+
qed

lemma adds_member:
  assumes "never_throws run"
  shows "adds (code_member run create inst) (\<lambda>m. case m of MethodMember _ \<Rightarrow> [] | StateMember name _ _ \<Rightarrow> [stateKey inst name])"
  unfolding adds_def
proof (intro allI impI)
  fix codecs :: "'a registry" and m :: "'b member_snapshot"
  assume distinct: "distinct (map fst codecs)"
  show "(succeeds (code_member run create inst codecs m) \<longleftrightarrow>
        distinct (map fst codecs @ (case m of MethodMember _ \<Rightarrow> [] | StateMember name _ _ \<Rightarrow> [stateKey inst name]))) \<and>
      (succeeds (code_member run create inst codecs m) \<longrightarrow>
        map fst (fst (code_member run create inst codecs m)) =
          map fst codecs @ (case m of MethodMember _ \<Rightarrow> [] | StateMember name _ _ \<Rightarrow> [stateKey inst name]))"
  proof (cases m)
    case (MethodMember name)
    then show ?thesis using distinct by (simp add: code_member_def succeeds_def)
  next
    case (StateMember name sequence ops)
    show ?thesis
    proof (cases "stateKey inst name \<in> set (map fst codecs)")
      case True
      then have "map_of codecs (stateKey inst name) \<noteq> None" by (simp add: map_of_eq_None_iff)
      then show ?thesis using True StateMember by (auto simp: code_member_def add_codec_def succeeds_def Let_def)
    next
      case False
      let ?added = "map_set (stateKey inst name) (inst, create) codecs"
      have add: "add_codec create codecs inst name = Inr ?added" using False by (auto simp: add_codec_def Let_def map_of_eq_None_iff dest: map_of_SomeD)
      have keys: "map fst ?added = map fst codecs @ [stateKey inst name]" using False by (simp add: keys_map_set)
      obtain d r where got: "get_codec run ?added inst name ops = (d, r)" by fastforce
      have "succeeds (d, r)" "map fst d = map fst ?added"
        using get_codec_total [OF assms, of ?added inst name ops] got keys by auto
      moreover from this(1) obtain y where "r = Inr y" by (cases r) (auto simp: succeeds_def)
      ultimately show ?thesis using add keys got distinct False StateMember by (simp add: code_member_def succeeds_def)
    qed
  qed
qed

lemma succeeds_bind [simp]: "succeeds (s, rbind r (\<lambda>y. Inr (h y))) = succeeds (s, r)"
  by (cases r) (simp_all add: succeeds_def)

lemma adds_instance:
  assumes "never_throws run"
  shows "adds (code_instance run create) state_keys"
proof -
  have "(succeeds (code_instance run create codecs x) \<longleftrightarrow> distinct (map fst codecs @ state_keys x)) \<and>
      (succeeds (code_instance run create codecs x) \<longrightarrow> map fst (fst (code_instance run create codecs x)) = map fst codecs @ state_keys x)"
    if "distinct (map fst codecs)" for codecs x
  proof -
    obtain c' r where "smap (code_member run create (is_instance x)) codecs (is_members x) = (c', r)" by fastforce
    then show ?thesis
      using addsD [OF adds_smap [OF adds_member [OF assms, where create = create and inst = "is_instance x"]] that, where x = "is_members x"]
      by (simp only: code_instance_def state_keys_def prod.case succeeds_bind fst_conv) blast
  qed
  then show ?thesis unfolding adds_def by blast
qed

lemma run_encoder_total: "never_throws run_encoder"
  by (simp add: never_throws_def succeeds_def run_encoder_def split: prod.splits)

section \<open>Decoding undoes encoding\<close>

text \<open>
  Two stateful steps of which the second undoes what the first has done, taking related states from \<^term>\<open>R\<close> to \<^term>\<open>S\<close>.
\<close>

definition undoes :: "('s \<Rightarrow> 't \<Rightarrow> bool) \<Rightarrow> ('s \<Rightarrow> 't \<Rightarrow> bool) \<Rightarrow> ('a \<Rightarrow> bool) \<Rightarrow>
    ('s \<Rightarrow> 'a \<Rightarrow> 's \<times> ('x, 'w) result) \<Rightarrow> ('t \<Rightarrow> 'w \<Rightarrow> 't \<times> ('y, 'a) result) \<Rightarrow> bool" where
  "undoes R S V f g \<longleftrightarrow> (\<forall>s t x s' w. R s t \<longrightarrow> V x \<longrightarrow> f s x = (s', Inr w) \<longrightarrow> (\<exists>t'. g t w = (t', Inr x) \<and> S s' t'))"

lemma undoesD: "undoes R S V f g \<Longrightarrow> R s t \<Longrightarrow> V x \<Longrightarrow> f s x = (s', Inr w) \<Longrightarrow> \<exists>t'. g t w = (t', Inr x) \<and> S s' t'"
  unfolding undoes_def by blast

lemma undoesI: "(\<And>s t x s' w. R s t \<Longrightarrow> V x \<Longrightarrow> f s x = (s', Inr w) \<Longrightarrow> \<exists>t'. g t w = (t', Inr x) \<and> S s' t') \<Longrightarrow> undoes R S V f g"
  unfolding undoes_def by blast

lemma smap_Inr:
  "smap f s (x # xs) = (s2, Inr ws) \<longleftrightarrow> (\<exists>s1 w ws'. f s x = (s1, Inr w) \<and> smap f s1 xs = (s2, Inr ws') \<and> ws = w # ws')"
  by (fastforce simp: rbind_Inr_iff split: prod.splits sum.splits)

lemma undoes_smap:
  assumes "undoes R R V f g"
  shows "undoes R R (list_all V) (smap f) (smap g)"
proof (rule undoesI)
  show "\<exists>t'. smap g t ws = (t', Inr xs) \<and> R s' t'" if "R s t" "list_all V xs" "smap f s xs = (s', Inr ws)" for s t xs s' ws
    using that
  proof (induction xs arbitrary: s t ws)
    case (Cons x xs)
    then obtain s1 w ws' where s1: "f s x = (s1, Inr w)" "smap f s1 xs = (s', Inr ws')" "ws = w # ws'" by (auto simp only: smap_Inr)
    obtain t1 where t1: "g t w = (t1, Inr x)" "R s1 t1" using undoesD [OF assms Cons.prems(1) _ s1(1)] Cons.prems(2) by auto
    obtain t2 where "smap g t1 ws' = (t2, Inr xs)" "R s' t2" using Cons.IH [OF t1(2) _ s1(2)] Cons.prems(2) by auto
    then show ?case using t1 s1(3) by simp
  qed simp
qed

fun member_all :: "('o \<Rightarrow> bool) \<Rightarrow> 'o member_snapshot \<Rightarrow> bool" where
  "member_all V (MethodMember _) = True"
| "member_all V (StateMember _ _ ops) = V ops"

definition instance_all :: "('o \<Rightarrow> bool) \<Rightarrow> 'o instance_snapshot \<Rightarrow> bool" where
  "instance_all V snapshot = list_all (member_all V) (is_members snapshot)"

definition snapshot_all :: "('o \<Rightarrow> bool) \<Rightarrow> 'o subscription_snapshot \<Rightarrow> bool" where
  "snapshot_all V snapshot = list_all (instance_all V) (sn_instances snapshot)"

fun update_all :: "('o \<Rightarrow> bool) \<Rightarrow> 'o provider_update \<Rightarrow> bool" where
  "update_all V (StateUpdate _ _ _ ops) = V ops"
| "update_all V (Replaced snapshot) = instance_all V snapshot"
| "update_all V (Spawned snapshot) = instance_all V snapshot"
| "update_all V _ = True"

text \<open>Two registries with the same states and related codecs.\<close>

definition registry_rel :: "('e \<Rightarrow> 'd \<Rightarrow> bool) \<Rightarrow> 'e registry \<Rightarrow> 'd registry \<Rightarrow> bool" where
  "registry_rel rel = list_all2 (\<lambda>(k, i, e) (l, j, d). k = l \<and> i = j \<and> rel e d)"

lemma registry_rel_set: "registry_rel rel es ds \<Longrightarrow> rel e d \<Longrightarrow> registry_rel rel (map_set k (i, e) es) (map_set k (i, d) ds)"
  unfolding registry_rel_def by (induction rule: list_all2_induct) auto

lemma registry_rel_get: "registry_rel rel es ds \<Longrightarrow> rel_option (\<lambda>(i, e) (j, d). i = j \<and> rel e d) (map_of es k) (map_of ds k)"
  unfolding registry_rel_def by (induction rule: list_all2_induct) auto

lemma registry_rel_remove: "registry_rel rel es ds \<Longrightarrow> registry_rel rel (removeInstance es a) (removeInstance ds a)"
  unfolding registry_rel_def removeInstance_def by (induction rule: list_all2_induct) auto

lemma registry_rel_reset [simp]: "registry_rel rel (reset_codecs es) (reset_codecs ds)"
  by (simp add: registry_rel_def reset_codecs_def)

text \<open>
  What the registry needs of a codec: a new encoder is related to a new decoder, and a batch keeps them related. The codec of the
  service then follows for any such pair.
\<close>

locale registry_codec =
  fixes run :: "'e \<Rightarrow> 'a \<Rightarrow> 'e \<times> (delta_error, 'w) result" and unrun :: "'d \<Rightarrow> 'w \<Rightarrow> 'd \<times> (delta_error, 'a) result"
    and rel :: "'e \<Rightarrow> 'd \<Rightarrow> bool" and valid :: "'a \<Rightarrow> bool" and first :: 'e and fresh :: 'd
  assumes start: "rel first fresh" and batch: "undoes rel rel valid run unrun"
begin

lemma get_undone: "undoes (registry_rel rel) (registry_rel rel) valid (\<lambda>es. get_codec run es i m) (\<lambda>ds. get_codec unrun ds i m)"
proof (rule undoesI)
  fix es ds ops es' w
  assume r: "registry_rel rel es ds" and v: "valid ops" and g: "get_codec run es i m ops = (es', Inr w)"
  let ?k = "stateKey i m"
  obtain j e e' where e: "map_of es ?k = Some (j, e)" "run e ops = (e', Inr w)" "es' = map_set ?k (j, e') es"
    using g by (auto simp: get_codec_def Let_def split: option.splits prod.splits sum.splits)
  then obtain d where d: "map_of ds ?k = Some (j, d)" "rel e d" using registry_rel_get [OF r, of ?k] by (auto elim!: option.rel_cases)
  obtain d' where d': "unrun d w = (d', Inr ops)" "rel e' d'" using undoesD [OF batch d(2) v e(2)] by blast
  show "\<exists>ds'. get_codec unrun ds i m w = (ds', Inr ops) \<and> registry_rel rel es' ds'"
    using d d' e(3) registry_rel_set [OF r d'(2)] by (simp add: get_codec_def Let_def)
qed

lemma member_undone: "undoes (registry_rel rel) (registry_rel rel) (member_all valid) (code_member run first i) (code_member unrun fresh i)"
proof (rule undoesI)
  fix es ds m es' w
  assume r: "registry_rel rel es ds" and v: "member_all valid m" and c: "code_member run first i es m = (es', Inr w)"
  show "\<exists>ds'. code_member unrun fresh i ds w = (ds', Inr m) \<and> registry_rel rel es' ds'"
  proof (cases m)
    case (MethodMember name)
    then show ?thesis using r c by (auto simp: code_member_def)
  next
    case (StateMember name sequence ops)
    let ?k = "stateKey i name" and ?es = "map_set (stateKey i name) (i, first) es" and ?ds = "map_set (stateKey i name) (i, fresh) ds"
    obtain w' where w: "map_of es ?k = None" "get_codec run ?es i name ops = (es', Inr w')" "w = StateMember name sequence w'"
      using c StateMember by (cases "map_of es ?k") (auto simp: code_member_def add_codec_def Let_def rbind_Inr_iff split: prod.splits)
    have "map_of ds ?k = None" using registry_rel_get [OF r, of ?k] w(1) by simp
    then have add: "add_codec fresh ds i name = Inr ?ds" by (simp add: add_codec_def Let_def)
    obtain ds' where "get_codec unrun ?ds i name w' = (ds', Inr ops)" "registry_rel rel es' ds'"
      using undoesD [OF get_undone registry_rel_set [OF r start] _ w(2)] v StateMember by auto
    then show ?thesis using w(3) StateMember by (simp add: code_member_def add)
  qed
qed

lemma instance_undone: "undoes (registry_rel rel) (registry_rel rel) (instance_all valid) (code_instance run first) (code_instance unrun fresh)"
proof (rule undoesI)
  fix es ds s es' w
  assume r: "registry_rel rel es ds" and v: "instance_all valid s" and c: "code_instance run first es s = (es', Inr w)"
  obtain ws where w: "smap (code_member run first (is_instance s)) es (is_members s) = (es', Inr ws)"
    "w = \<lparr>is_instance = is_instance s, is_members = ws\<rparr>"
    using c by (auto simp: code_instance_def rbind_Inr_iff split: prod.splits)
  obtain ds' where "smap (code_member unrun fresh (is_instance s)) ds ws = (ds', Inr (is_members s))" "registry_rel rel es' ds'"
    using undoesD [OF undoes_smap [OF member_undone] r _ w(1)] v by (auto simp: instance_all_def)
  then show "\<exists>ds'. code_instance unrun fresh ds w = (ds', Inr s) \<and> registry_rel rel es' ds'"
    using w(2) by (simp add: code_instance_def)
qed

lemma snapshot_undone: "undoes (\<lambda>_ _. True) (registry_rel rel) (snapshot_all valid) (code_snapshot run first) (code_snapshot unrun fresh)"
proof (rule undoesI)
  fix es :: "'e registry" and ds :: "'d registry" and s es' w
  assume v: "snapshot_all valid s" and c: "code_snapshot run first es s = (es', Inr w)"
  obtain ws where w: "smap (code_instance run first) (reset_codecs es) (sn_instances s) = (es', Inr ws)"
    "w = \<lparr>sn_serviceId = sn_serviceId s, sn_mode = sn_mode s, sn_instances = ws\<rparr>"
    using c by (auto simp: code_snapshot_def rbind_Inr_iff split: prod.splits)
  obtain ds' where "smap (code_instance unrun fresh) (reset_codecs ds) ws = (ds', Inr (sn_instances s))" "registry_rel rel es' ds'"
    using undoesD [OF undoes_smap [OF instance_undone] registry_rel_reset _ w(1)] v by (auto simp: snapshot_all_def)
  then show "\<exists>ds'. code_snapshot unrun fresh ds w = (ds', Inr s) \<and> registry_rel rel es' ds'"
    using w(2) by (simp add: code_snapshot_def)
qed

lemma update_undone: "undoes (registry_rel rel) (registry_rel rel) (update_all valid) (code_update run first) (code_update unrun fresh)"
proof (rule undoesI)
  fix es ds u es' w
  assume r: "registry_rel rel es ds" and v: "update_all valid u" and c: "code_update run first es u = (es', Inr w)"
  show "\<exists>ds'. code_update unrun fresh ds w = (ds', Inr u) \<and> registry_rel rel es' ds'"
  proof (cases u)
    case (StateUpdate i m n ops)
    then obtain w' where w: "get_codec run es i m ops = (es', Inr w')" "w = StateUpdate i m n w'"
      using c by (auto simp: code_update_def rbind_Inr_iff split: prod.splits)
    then show ?thesis using undoesD [OF get_undone r _ w(1)] v StateUpdate by (auto simp: code_update_def)
  next
    case (Replaced s)
    then obtain w' where w: "code_instance run first (reset_codecs es) s = (es', Inr w')" "w = Replaced w'"
      using c by (auto simp: code_update_def rbind_Inr_iff split: prod.splits)
    then show ?thesis using undoesD [OF instance_undone registry_rel_reset _ w(1), of ds] v Replaced by (auto simp: code_update_def)
  next
    case (Spawned s)
    then obtain w' where w: "code_instance run first es s = (es', Inr w')" "w = Spawned w'"
      using c by (auto simp: code_update_def rbind_Inr_iff split: prod.splits)
    then show ?thesis using undoesD [OF instance_undone r _ w(1)] v Spawned by (auto simp: code_update_def)
  qed (use c r registry_rel_remove [OF r] in \<open>auto simp: code_update_def\<close>)
qed

end

interpretation states: registry_codec run_encoder decode codec_rel "list_all valid_op" encoder decoder
proof
  show "codec_rel encoder decoder" by (rule codec_rel_fresh)
  show "undoes codec_rel codec_rel (list_all valid_op) run_encoder decode"
    by (rule undoesI) (use delta.step in \<open>force simp: run_encoder_def split: prod.splits\<close>)
qed

section \<open>A subscription\<close>

text \<open>What a subscription sends: the snapshot with which it opens, and updates.\<close>

datatype 'o service_message = Opened "'o subscription_snapshot" | Changed "'o provider_update"

fun encode_message :: "delta_encoder registry \<Rightarrow> delta_op list service_message \<Rightarrow> delta_encoder registry \<times> (state_error, json list service_message) result" where
  "encode_message codecs (Opened snapshot) = (case encodeSnapshot codecs snapshot of (codecs', r) \<Rightarrow> (codecs', rbind r (\<lambda>w. Inr (Opened w))))"
| "encode_message codecs (Changed update) = (case encodeUpdate codecs update of (codecs', r) \<Rightarrow> (codecs', rbind r (\<lambda>w. Inr (Changed w))))"

fun decode_message :: "delta_decoder registry \<Rightarrow> json list service_message \<Rightarrow> delta_decoder registry \<times> (state_error, delta_op list service_message) result" where
  "decode_message codecs (Opened snapshot) = (case decodeSnapshot codecs snapshot of (codecs', r) \<Rightarrow> (codecs', rbind r (\<lambda>w. Inr (Opened w))))"
| "decode_message codecs (Changed update) = (case decodeUpdate codecs update of (codecs', r) \<Rightarrow> (codecs', rbind r (\<lambda>w. Inr (Changed w))))"

fun message_all :: "('o \<Rightarrow> bool) \<Rightarrow> 'o service_message \<Rightarrow> bool" where
  "message_all V (Opened snapshot) = snapshot_all V snapshot"
| "message_all V (Changed update) = update_all V update"

lemma opened_undone:
  assumes "snapshot_all (list_all valid_op) s" "encode_message es (Opened s) = (es', Inr w)"
  shows "\<exists>ds'. decode_message ds w = (ds', Inr (Opened s)) \<and> registry_rel codec_rel es' ds'"
proof -
  obtain w' where w: "code_snapshot run_encoder encoder es s = (es', Inr w')" "w = Opened w'"
    using assms(2) by (auto simp: encodeSnapshot_def rbind_Inr_iff split: prod.splits)
  then show ?thesis using undoesD [OF states.snapshot_undone TrueI assms(1) w(1), of ds] by (auto simp: decodeSnapshot_def)
qed

lemma message_undone:
  "undoes (registry_rel codec_rel) (registry_rel codec_rel) (message_all (list_all valid_op)) encode_message decode_message"
proof (rule undoesI)
  fix es ds m es' w
  assume r: "registry_rel codec_rel es ds" and v: "message_all (list_all valid_op) m" and c: "encode_message es m = (es', Inr w)"
  show "\<exists>ds'. decode_message ds w = (ds', Inr m) \<and> registry_rel codec_rel es' ds'"
  proof (cases m)
    case (Opened s)
    then show ?thesis using opened_undone v c by auto
  next
    case (Changed u)
    then obtain w' where w: "code_update run_encoder encoder es u = (es', Inr w')" "w = Changed w'"
      using c by (auto simp: encodeUpdate_def rbind_Inr_iff split: prod.splits)
    then show ?thesis using undoesD [OF states.update_undone r _ w(1)] v Changed by (auto simp: decodeUpdate_def)
  qed
qed

text \<open>
  From the snapshot that opens a subscription, every snapshot and update a provider encodes is decoded to itself, whatever
  states both codecs were left in before.
\<close>

lemma stream_decodes:
  assumes "smap encode_message es (Opened snapshot # messages) = (es', Inr ws)"
    and "list_all (message_all (list_all valid_op)) (Opened snapshot # messages)"
  shows "\<exists>ds'. smap decode_message ds ws = (ds', Inr (Opened snapshot # messages))"
proof -
  obtain es1 w ws' where w: "encode_message es (Opened snapshot) = (es1, Inr w)" "smap encode_message es1 messages = (es', Inr ws')" "ws = w # ws'"
    using assms(1) by (auto simp only: smap_Inr)
  obtain ds1 where ds1: "decode_message ds w = (ds1, Inr (Opened snapshot))" "registry_rel codec_rel es1 ds1"
    using opened_undone [OF _ w(1)] assms(2) by auto
  obtain ds2 where "smap decode_message ds1 ws' = (ds2, Inr messages)"
    using undoesD [OF undoes_smap [OF message_undone] ds1(2) _ w(2)] assms(2) by auto
  then show ?thesis using ds1(1) w(3) by simp
qed

section \<open>The states a registry knows\<close>

definition known :: "'c registry \<Rightarrow> (service_address option \<times> jsstring) set" where
  "known codecs = {(i, m). stateKey i m \<in> set (map fst codecs)}"

definition registry_ok :: "'c registry \<Rightarrow> bool" where
  "registry_ok codecs \<longleftrightarrow> distinct (map fst codecs) \<and> (\<forall>(k, i, c) \<in> set codecs. \<exists>m. k = stateKey i m)"

definition states_of :: "'o instance_snapshot \<Rightarrow> (service_address option \<times> jsstring) list" where
  "states_of snapshot = concat (map (\<lambda>m. case m of MethodMember _ \<Rightarrow> [] | StateMember name _ _ \<Rightarrow> [(is_instance snapshot, name)]) (is_members snapshot))"

lemma state_keys_states: "state_keys s = map (case_prod stateKey) (states_of s)"
  unfolding state_keys_def states_of_def map_concat map_map comp_def
  by (rule arg_cong [where f = concat], rule map_cong) (auto split: member_snapshot.splits)

lemma stateKey_inj_on: "inj_on (case_prod stateKey) A"
  by (auto simp: inj_on_def stateKey_inj)

lemma distinct_keys: "distinct (map (case_prod stateKey) xs) \<longleftrightarrow> distinct xs"
  by (simp add: distinct_map stateKey_inj_on)

lemma known_disjoint: "set (map fst codecs) \<inter> set (map (case_prod stateKey) xs) = {} \<longleftrightarrow> known codecs \<inter> set xs = {}"
proof -
  have image: "A \<inter> f ` B = {} \<longleftrightarrow> {p. f p \<in> A} \<inter> B = {}" for A :: "jsstring set" and f and B :: "(service_address option \<times> jsstring) set" by blast
  have "known codecs = {p. case_prod stateKey p \<in> set (map fst codecs)}" unfolding known_def by (simp add: split_def)
  then show ?thesis using image [of "set (map fst codecs)" "case_prod stateKey" "set xs"] by (simp only: set_map)
qed

lemma known_remove: "registry_ok codecs \<Longrightarrow> known (removeInstance codecs a) = known codecs - {Some a} \<times> UNIV"
proof -
  assume ok: "registry_ok codecs"
  have "stateKey i m \<in> fst ` set (removeInstance codecs a) \<longleftrightarrow> stateKey i m \<in> fst ` set codecs \<and> i \<noteq> Some a" for i m
  proof
    assume "stateKey i m \<in> fst ` set (removeInstance codecs a)"
    then obtain j c where "(stateKey i m, j, c) \<in> set codecs" "j \<noteq> Some a" by (auto simp: removeInstance_def sameAddress_iff)
    moreover from this ok have "j = i" by (fastforce simp: registry_ok_def stateKey_inj)
    ultimately show "stateKey i m \<in> fst ` set codecs \<and> i \<noteq> Some a" by force
  next
    assume "stateKey i m \<in> fst ` set codecs \<and> i \<noteq> Some a"
    moreover from this obtain j c where "(stateKey i m, j, c) \<in> set codecs" by auto
    moreover from this ok have "j = i" by (fastforce simp: registry_ok_def stateKey_inj)
    ultimately show "stateKey i m \<in> fst ` set (removeInstance codecs a)" by (force simp: removeInstance_def sameAddress_iff)
  qed
  then show ?thesis by (auto simp: known_def)
qed

lemma registry_ok_set: "registry_ok codecs \<Longrightarrow> registry_ok (map_set (stateKey i m) (i, c) codecs)"
proof -
  assume ok: "registry_ok codecs"
  have "set (map_set k v xs) \<subseteq> insert (k, v) (set xs)" for k and v :: "service_address option \<times> 'a" and xs
    by (induction k v xs rule: map_set.induct) auto
  then show ?thesis using ok distinct_map_set [of codecs] by (fastforce simp: registry_ok_def)
qed

lemma get_codec_ok: "registry_ok codecs \<Longrightarrow> registry_ok (fst (get_codec run codecs i m ops))"
proof (cases "map_of codecs (stateKey i m)")
  case (Some jc)
  assume ok: "registry_ok codecs"
  obtain j c where jc: "jc = (j, c)" by fastforce
  have "(stateKey i m, j, c) \<in> set codecs" using Some jc by (simp add: map_of_SomeD)
  then have "j = i" using ok by (fastforce simp: registry_ok_def stateKey_inj)
  then show ?thesis using Some jc registry_ok_set [OF ok] by (simp add: get_codec_def Let_def split: prod.splits)
qed (simp add: get_codec_def Let_def)

lemma code_member_ok: "registry_ok codecs \<Longrightarrow> registry_ok (fst (code_member run create i codecs m))"
proof (cases m)
  case (StateMember name sequence ops)
  assume ok: "registry_ok codecs"
  obtain d r where g: "get_codec run (map_set (stateKey i name) (i, create) codecs) i name ops = (d, r)" by fastforce
  then have "registry_ok d" using get_codec_ok [OF registry_ok_set [OF ok, of i name create], where run = run and i = i and m = name and ops = ops] by (simp add: g)
  then show ?thesis using ok StateMember by (simp add: code_member_def add_codec_def Let_def g)
qed (simp add: code_member_def)

lemma smap_ok: "(\<And>s x. P s \<Longrightarrow> P (fst (f s x))) \<Longrightarrow> P s \<Longrightarrow> P (fst (smap f s xs))"
proof (induction xs arbitrary: s)
  case (Cons x xs)
  obtain s1 r where f: "f s x = (s1, r)" by fastforce
  have "P s1" using Cons.prems f by (metis fst_conv)
  then show ?case using Cons.IH [OF Cons.prems(1), of s1] f by (cases r) (auto split: prod.splits)
qed simp

lemma code_instance_ok: "registry_ok codecs \<Longrightarrow> registry_ok (fst (code_instance run create codecs s))"
proof -
  assume "registry_ok codecs"
  then have "registry_ok (fst (smap (code_member run create (is_instance s)) codecs (is_members s)))" by (rule smap_ok [where P = registry_ok, OF code_member_ok, rotated])
  then show ?thesis by (simp add: code_instance_def split_def)
qed

lemma registry_ok_reset [simp]: "registry_ok (reset_codecs codecs)"
  by (simp add: registry_ok_def reset_codecs_def)

lemma registry_ok_remove: "registry_ok codecs \<Longrightarrow> registry_ok (removeInstance codecs a)"
  by (auto simp: registry_ok_def removeInstance_def distinct_map_filter)

lemma code_snapshot_ok: "registry_ok (fst (code_snapshot run create codecs s))"
proof -
  have "registry_ok (fst (smap (code_instance run create) (reset_codecs codecs) (sn_instances s)))" by (rule smap_ok [where P = registry_ok, OF code_instance_ok registry_ok_reset])
  then show ?thesis by (simp add: code_snapshot_def split_def)
qed

lemma code_update_ok: "registry_ok codecs \<Longrightarrow> registry_ok (fst (code_update run create codecs u))"
proof (cases u)
  case (StateUpdate i m n ops)
  assume "registry_ok codecs"
  then have "registry_ok (fst (get_codec run codecs i m ops))" by (rule get_codec_ok)
  then show ?thesis using StateUpdate by (simp add: code_update_def split_def)
next
  case (Replaced s)
  have "registry_ok (fst (code_instance run create (reset_codecs codecs) s))" by (intro code_instance_ok registry_ok_reset)
  then show ?thesis using Replaced by (simp add: code_update_def split_def)
next
  case (Spawned s)
  assume "registry_ok codecs"
  then have "registry_ok (fst (code_instance run create codecs s))" by (rule code_instance_ok)
  then show ?thesis using Spawned by (simp add: code_update_def split_def)
qed (simp_all add: code_update_def registry_ok_remove)

text \<open>The registry of an encoder that has been given any messages, also ones it has thrown on.\<close>

definition encoder_after :: "delta_op list service_message list \<Rightarrow> delta_encoder registry" where
  "encoder_after messages = foldl (\<lambda>codecs m. fst (encode_message codecs m)) createServiceStateEncoder messages"

lemma encoder_after_ok: "registry_ok (encoder_after messages)"
proof (induction messages rule: rev_induct)
  case (snoc m messages)
  then show ?case
    using code_snapshot_ok [of run_encoder encoder] code_update_ok [of _ run_encoder encoder]
    by (cases m) (simp_all add: encoder_after_def encodeSnapshot_def encodeUpdate_def split_def)
qed (simp add: encoder_after_def createServiceStateEncoder_def registry_ok_def)

lemma encode_instance_exact:
  assumes "registry_ok codecs"
  shows "succeeds (encodeInstance codecs s) \<longleftrightarrow> distinct (states_of s) \<and> known codecs \<inter> set (states_of s) = {}"
  using addsD(1) [OF adds_instance [OF run_encoder_total], of codecs encoder s] assms
    known_disjoint [of codecs "states_of s"] distinct_keys [of "states_of s"]
  by (simp only: encodeInstance_def registry_ok_def state_keys_states distinct_append) blast

lemma encode_instances_exact:
  "succeeds (smap encodeInstance [] ss) \<longleftrightarrow> distinct (concat (map states_of ss))"
proof -
  have "concat (map state_keys ss) = map (case_prod stateKey) (concat (map states_of ss))" by (simp add: map_concat state_keys_states [abs_def] comp_def)
  then show ?thesis
    using addsD(1) [OF adds_smap [OF adds_instance [OF run_encoder_total]], of "[]" encoder ss] distinct_keys [of "concat (map states_of ss)"]
    by (simp add: encodeInstance_def)
qed

lemma encoder_throws:
  "succeeds (encodeSnapshot (encoder_after messages) snapshot) \<longleftrightarrow> distinct (concat (map states_of (sn_instances snapshot)))"
  "succeeds (encodeUpdate (encoder_after messages) (StateUpdate inst member sequence ops)) \<longleftrightarrow> (inst, member) \<in> known (encoder_after messages)"
  "succeeds (encodeUpdate (encoder_after messages) (Spawned spawned)) \<longleftrightarrow>
     distinct (states_of spawned) \<and> known (encoder_after messages) \<inter> set (states_of spawned) = {}"
  "known (fst (encodeUpdate (encoder_after messages) (Closed address))) = known (encoder_after messages) - {Some address} \<times> UNIV"
proof -
  let ?es = "encoder_after messages"
  have ok: "registry_ok ?es" by (rule encoder_after_ok)
  obtain c r where "smap encodeInstance [] (sn_instances snapshot) = (c, r)" by fastforce
  then show "succeeds (encodeSnapshot ?es snapshot) \<longleftrightarrow> distinct (concat (map states_of (sn_instances snapshot)))"
    using encode_instances_exact [of "sn_instances snapshot"] by (simp add: encodeSnapshot_def code_snapshot_def encodeInstance_def reset_codecs_def)
  obtain c r where "get_codec run_encoder ?es inst member ops = (c, r)" by fastforce
  then show "succeeds (encodeUpdate ?es (StateUpdate inst member sequence ops)) \<longleftrightarrow> (inst, member) \<in> known ?es"
    using get_codec_total(1) [OF run_encoder_total, of ?es inst member ops] by (simp add: encodeUpdate_def code_update_def known_def)
  obtain c r where "encodeInstance ?es spawned = (c, r)" by fastforce
  then show "succeeds (encodeUpdate ?es (Spawned spawned)) \<longleftrightarrow> distinct (states_of spawned) \<and> known ?es \<inter> set (states_of spawned) = {}"
    using encode_instance_exact [OF ok, of spawned] by (simp add: encodeUpdate_def code_update_def encodeInstance_def)
  show "known (fst (encodeUpdate ?es (Closed address))) = known ?es - {Some address} \<times> UNIV"
    using known_remove [OF ok] by (simp add: encodeUpdate_def code_update_def)
qed

section \<open>Properties\<close>

text \<open>
  C30. When an encoder throws: after any messages, a snapshot is refused exactly when a state occurs twice in it, an update of a
  state exactly when the state is not registered, a spawned instance exactly when one of its states occurs twice or is
  registered already; and closing an instance forgets exactly the states of that generation.
\<close>

theorem encoder_throws_exactly:
  "(succeeds (encodeSnapshot (encoder_after messages) snapshot) \<longleftrightarrow> distinct (concat (map states_of (sn_instances snapshot)))) \<and>
   (succeeds (encodeUpdate (encoder_after messages) (StateUpdate inst member sequence ops)) \<longleftrightarrow> (inst, member) \<in> known (encoder_after messages)) \<and>
   (succeeds (encodeUpdate (encoder_after messages) (Spawned spawned)) \<longleftrightarrow>
     distinct (states_of spawned) \<and> known (encoder_after messages) \<inter> set (states_of spawned) = {}) \<and>
   known (fst (encodeUpdate (encoder_after messages) (Closed address))) = known (encoder_after messages) - {Some address} \<times> UNIV"
  using encoder_throws by blast

section \<open>A subscription to evaluate\<close>

definition sample_instance :: "nat \<Rightarrow> delta_op list instance_snapshot" where
  "sample_instance generation = \<lparr>is_instance = Some \<lparr>sa_key = js ''k'', sa_generation = generation\<rparr>,
     is_members = [MethodMember (js ''run''), StateMember (js ''todo'') 0 [OpR (JObj [(js ''a'', JNull)])]]\<rparr>"

definition sample_service :: "delta_op list service_message list" where
  "sample_service = [Opened \<lparr>sn_serviceId = js ''todos'', sn_mode = Keyed, sn_instances = [sample_instance 1]\<rparr>,
     Changed (StateUpdate (Some \<lparr>sa_key = js ''k'', sa_generation = 1\<rparr>) (js ''todo'') 1 [OpS [SStr (js ''a'')] (JBool True)]),
     Changed (Closed \<lparr>sa_key = js ''k'', sa_generation = 1\<rparr>), Changed (Spawned (sample_instance 2))]"

lemma sample_service_encodes: "\<exists>es ws. smap encode_message [] sample_service = (es, Inr ws)"
proof -
  have "succeeds (smap encode_message [] sample_service)" by code_simp
  then show ?thesis unfolding succeeds_def by (cases "smap encode_message [] sample_service") (auto split: sum.splits)
qed

end
