(* ===== verification/ServiceWire.thy ===== *)
theory ServiceWire
  imports StateCodec
begin

text \<open>
  What crosses the boundary of a process between services (\<^verbatim>\<open>packages/chord/src/services/wire.ts\<close>): the calls that
  control a subscription, and the validation of calls, catalogues, snapshots and updates of unknown shape. A validator of the
  code returns its argument when it has the type; here it returns the value of that type.
\<close>

section \<open>Calls\<close>

record service_call =
  sc_serviceId :: jsstring
  sc_instance :: "service_address option"
  sc_member :: jsstring
  sc_args :: "json list"

record catalogue_entry =
  ce_serviceId :: jsstring
  ce_mode :: service_mode

datatype control_call =
    CatalogueControl
  | SubscribeControl (subscriptionId: jsstring) (serviceId: jsstring) (mode: service_mode)
  | UnsubscribeControl (subscriptionId: jsstring)

definition SERVICE_CONTROL_ID :: jsstring where
  "SERVICE_CONTROL_ID = js ''$chord.service''"

definition SERVICE_CATALOGUE_MEMBER :: jsstring where
  "SERVICE_CATALOGUE_MEMBER = js ''catalogue''"

definition SERVICE_SUBSCRIBE_MEMBER :: jsstring where
  "SERVICE_SUBSCRIBE_MEMBER = js ''subscribe''"

definition SERVICE_UNSUBSCRIBE_MEMBER :: jsstring where
  "SERVICE_UNSUBSCRIBE_MEMBER = js ''unsubscribe''"

lemmas control_names = SERVICE_CONTROL_ID_def SERVICE_CATALOGUE_MEMBER_def SERVICE_SUBSCRIBE_MEMBER_def SERVICE_UNSUBSCRIBE_MEMBER_def

definition mode_text :: "service_mode \<Rightarrow> jsstring" where
  "mode_text m = (case m of Singleton \<Rightarrow> js ''singleton'' | Keyed \<Rightarrow> js ''keyed'')"

definition createServiceCatalogueCall :: service_call where
  "createServiceCatalogueCall = \<lparr>sc_serviceId = SERVICE_CONTROL_ID, sc_instance = None, sc_member = SERVICE_CATALOGUE_MEMBER, sc_args = []\<rparr>"

definition createServiceSubscribeCall :: "jsstring \<Rightarrow> jsstring \<Rightarrow> service_mode \<Rightarrow> service_call" where
  "createServiceSubscribeCall subscription service m = \<lparr>sc_serviceId = SERVICE_CONTROL_ID, sc_instance = None,
     sc_member = SERVICE_SUBSCRIBE_MEMBER, sc_args = [JStr subscription, JStr service, JStr (mode_text m)]\<rparr>"

definition createServiceUnsubscribeCall :: "jsstring \<Rightarrow> service_call" where
  "createServiceUnsubscribeCall subscription = \<lparr>sc_serviceId = SERVICE_CONTROL_ID, sc_instance = None,
     sc_member = SERVICE_UNSUBSCRIBE_MEMBER, sc_args = [JStr subscription]\<rparr>"

text \<open>The type guards: the value of the type, or None when the guard is false. A missing property is undefined.\<close>

definition isId :: "json option \<Rightarrow> jsstring option" where
  "isId value = (case value of Some (JStr s) \<Rightarrow> if s = [] then None else Some s | _ \<Rightarrow> None)"

definition isMode :: "json option \<Rightarrow> service_mode option" where
  "isMode value =
     (if value = Some (JStr (js ''singleton'')) then Some Singleton
      else if value = Some (JStr (js ''keyed'')) then Some Keyed else None)"

definition isIntegerFrom :: "nat \<Rightarrow> json option \<Rightarrow> nat option" where
  "isIntegerFrom minimum value = Option.bind value (\<lambda>v. Option.bind (natural v) (\<lambda>n. if minimum \<le> n then Some n else None))"

definition asArray :: "json option \<Rightarrow> json list option" where
  "asArray value = (case value of Some (JArr xs) \<Rightarrow> Some xs | _ \<Rightarrow> None)"

definition decodeServiceControlCall :: "service_call \<Rightarrow> control_call option" where
  "decodeServiceControlCall call =
     (if sc_serviceId call \<noteq> SERVICE_CONTROL_ID \<or> sc_instance call \<noteq> None then None
      else if sc_member call = SERVICE_CATALOGUE_MEMBER \<and> sc_args call = [] then Some CatalogueControl
      else if sc_member call = SERVICE_SUBSCRIBE_MEMBER then
        (case sc_args call of
           [a, b, c] \<Rightarrow> Option.bind (isId (Some a)) (\<lambda>subscription. Option.bind (isId (Some b)) (\<lambda>service.
             Option.bind (isMode (Some c)) (\<lambda>m. Some (SubscribeControl subscription service m))))
         | _ \<Rightarrow> None)
      else if sc_member call = SERVICE_UNSUBSCRIBE_MEMBER then
        (case sc_args call of [a] \<Rightarrow> map_option UnsubscribeControl (isId (Some a)) | _ \<Rightarrow> None)
      else None)"

section \<open>Validation\<close>

datatype service_wire_error = Invalid string | InvalidOp delta_error

definition record_of :: "json \<Rightarrow> string \<Rightarrow> (service_wire_error, json obj) result" where
  "record_of value description = (case value of JObj ps \<Rightarrow> Inr ps | _ \<Rightarrow> Inl (Invalid description))"

definition assertKeys :: "json obj \<Rightarrow> string list \<Rightarrow> string list \<Rightarrow> string \<Rightarrow> (service_wire_error, unit) result" where
  "assertKeys value required optional description =
     (if list_all (\<lambda>key. js key \<in> set (map fst value)) required \<and> list_all (\<lambda>key. key \<in> set (map js (required @ optional))) (map fst value)
      then Inr () else Inl (Invalid description))"

definition property :: "json obj \<Rightarrow> string \<Rightarrow> json option" where
  "property value key = map_of value (js key)"

definition or_invalid :: "string \<Rightarrow> 'a option \<Rightarrow> (service_wire_error, 'a) result" where
  "or_invalid description guard = (case guard of None \<Rightarrow> Inl (Invalid description) | Some a \<Rightarrow> Inr a)"

definition assertAddress :: "json \<Rightarrow> (service_wire_error, service_address) result" where
  "assertAddress value =
     rbind (record_of value ''service instance address'') (\<lambda>address.
       rbind (assertKeys address [''key'', ''generation''] [] ''service instance address'') (\<lambda>_.
         rbind (or_invalid ''service instance address'' (isId (property address ''key''))) (\<lambda>key.
           rbind (or_invalid ''service instance address'' (isIntegerFrom 1 (property address ''generation''))) (\<lambda>generation.
             Inr \<lparr>sa_key = key, sa_generation = generation\<rparr>))))"

definition optionalAddress :: "json obj \<Rightarrow> (service_wire_error, service_address option) result" where
  "optionalAddress value = (case property value ''instance'' of
      None \<Rightarrow> Inr None
    | Some v \<Rightarrow> rbind (assertAddress v) (\<lambda>a. Inr (Some a)))"

definition parseServiceCall :: "json \<Rightarrow> (service_wire_error, service_call) result" where
  "parseServiceCall value =
     rbind (record_of value ''service call'') (\<lambda>call.
       rbind (assertKeys call [''serviceId'', ''member'', ''args''] [''instance''] ''service call'') (\<lambda>_.
         rbind (or_invalid ''service call'' (isId (property call ''serviceId''))) (\<lambda>service.
           rbind (or_invalid ''service call'' (isId (property call ''member''))) (\<lambda>member.
             rbind (or_invalid ''service call'' (asArray (property call ''args''))) (\<lambda>args.
               rbind (optionalAddress call) (\<lambda>inst.
                 Inr \<lparr>sc_serviceId = service, sc_instance = inst, sc_member = member, sc_args = args\<rparr>))))))"

definition parse_entry :: "json \<Rightarrow> (service_wire_error, catalogue_entry) result" where
  "parse_entry candidate =
     rbind (record_of candidate ''service catalogue entry'') (\<lambda>entry.
       rbind (assertKeys entry [''serviceId'', ''mode''] [] ''service catalogue entry'') (\<lambda>_.
         rbind (or_invalid ''service catalogue'' (isId (property entry ''serviceId''))) (\<lambda>service.
           rbind (or_invalid ''service catalogue'' (isMode (property entry ''mode''))) (\<lambda>m.
             Inr \<lparr>ce_serviceId = service, ce_mode = m\<rparr>))))"

definition parseServiceCatalogue :: "json \<Rightarrow> (service_wire_error, catalogue_entry list) result" where
  "parseServiceCatalogue value =
     rbind (or_invalid ''service catalogue'' (asArray (Some value))) (\<lambda>candidates.
       rfold (\<lambda>entries candidate. rbind (parse_entry candidate) (\<lambda>entry.
           if ce_serviceId entry \<in> ce_serviceId ` set entries then Inl (Invalid ''service catalogue'') else Inr (entries @ [entry])))
         [] candidates)"

text \<open>The operations of a state, by the validator of the vocabulary they are written in.\<close>

type_synonym 'o ops_check = "json list \<Rightarrow> (delta_error, 'o) result"

definition check_ops :: "'o ops_check \<Rightarrow> json list \<Rightarrow> (service_wire_error, 'o) result" where
  "check_ops assertOps ops = (case assertOps ops of Inl e \<Rightarrow> Inl (InvalidOp e) | Inr ops' \<Rightarrow> Inr ops')"

definition assertMember :: "'o ops_check \<Rightarrow> json \<Rightarrow> (service_wire_error, 'o member_snapshot) result" where
  "assertMember assertOps candidate =
     rbind (record_of candidate ''service member snapshot'') (\<lambda>member.
       if property member ''kind'' = Some (JStr (js ''method'')) then
         rbind (assertKeys member [''name'', ''kind''] [] ''service method snapshot'') (\<lambda>_.
           rbind (or_invalid ''service method snapshot'' (isId (property member ''name''))) (\<lambda>name. Inr (MethodMember name)))
       else if property member ''kind'' = Some (JStr (js ''state'')) then
         rbind (assertKeys member [''name'', ''kind'', ''sequence'', ''ops''] [] ''service state snapshot'') (\<lambda>_.
           rbind (or_invalid ''service state snapshot'' (isId (property member ''name''))) (\<lambda>name.
             rbind (or_invalid ''service state snapshot'' (isIntegerFrom 0 (property member ''sequence''))) (\<lambda>sequence.
               rbind (or_invalid ''service state snapshot'' (asArray (property member ''ops''))) (\<lambda>ops.
                 rbind (check_ops assertOps ops) (\<lambda>ops'. Inr (StateMember name sequence ops'))))))
       else Inl (Invalid ''service member snapshot''))"

definition assertInstance :: "'o ops_check \<Rightarrow> json \<Rightarrow> (service_wire_error, 'o instance_snapshot) result" where
  "assertInstance assertOps value =
     rbind (record_of value ''service instance snapshot'') (\<lambda>inst.
       rbind (assertKeys inst [''members''] [''instance''] ''service instance snapshot'') (\<lambda>_.
         rbind (optionalAddress inst) (\<lambda>address.
           rbind (or_invalid ''service instance snapshot'' (asArray (property inst ''members''))) (\<lambda>members.
             rbind (rmap (assertMember assertOps) members) (\<lambda>members'.
               Inr \<lparr>is_instance = address, is_members = members'\<rparr>)))))"

definition assertSubscriptionSnapshot :: "'o ops_check \<Rightarrow> json \<Rightarrow> (service_wire_error, 'o subscription_snapshot) result" where
  "assertSubscriptionSnapshot assertOps value =
     rbind (record_of value ''service subscription snapshot'') (\<lambda>snapshot.
       rbind (assertKeys snapshot [''serviceId'', ''mode'', ''instances''] [] ''service subscription snapshot'') (\<lambda>_.
         rbind (or_invalid ''service subscription snapshot'' (isId (property snapshot ''serviceId''))) (\<lambda>service.
           rbind (or_invalid ''service subscription snapshot'' (isMode (property snapshot ''mode''))) (\<lambda>m.
             rbind (or_invalid ''service subscription snapshot'' (asArray (property snapshot ''instances''))) (\<lambda>instances.
               rbind (rmap (assertInstance assertOps) instances) (\<lambda>instances'.
                 Inr \<lparr>sn_serviceId = service, sn_mode = m, sn_instances = instances'\<rparr>))))))"

definition assertProviderUpdate :: "'o ops_check \<Rightarrow> json \<Rightarrow> (service_wire_error, 'o provider_update) result" where
  "assertProviderUpdate assertOps value =
     rbind (record_of value ''service provider update'') (\<lambda>update.
       let type = property update ''type'' in
       if type = Some (JStr (js ''state'')) then
         rbind (assertKeys update [''type'', ''member'', ''sequence'', ''ops''] [''instance''] ''state update'') (\<lambda>_.
           rbind (or_invalid ''service state update'' (isId (property update ''member''))) (\<lambda>member.
             rbind (or_invalid ''service state update'' (isIntegerFrom 1 (property update ''sequence''))) (\<lambda>sequence.
               rbind (or_invalid ''service state update'' (asArray (property update ''ops''))) (\<lambda>ops.
                 rbind (optionalAddress update) (\<lambda>address.
                   rbind (check_ops assertOps ops) (\<lambda>ops'. Inr (StateUpdate address member sequence ops')))))))
       else if type = Some (JStr (js ''unavailable'')) then
         rbind (assertKeys update [''type''] [] ''unavailable update'') (\<lambda>_. Inr Unavailable)
       else if type = Some (JStr (js ''replaced'')) then
         rbind (assertKeys update [''type'', ''snapshot''] [] ''replacement update'') (\<lambda>_.
           rbind (or_invalid ''service instance snapshot'' (property update ''snapshot'')) (\<lambda>v.
             rbind (assertInstance assertOps v) (\<lambda>s. Inr (Replaced s))))
       else if type = Some (JStr (js ''spawned'')) then
         rbind (assertKeys update [''type'', ''instance''] [] ''spawn update'') (\<lambda>_.
           rbind (or_invalid ''service instance snapshot'' (property update ''instance'')) (\<lambda>v.
             rbind (assertInstance assertOps v) (\<lambda>s. Inr (Spawned s))))
       else if type = Some (JStr (js ''closed'')) then
         rbind (assertKeys update [''type'', ''instance''] [] ''close update'') (\<lambda>_.
           rbind (or_invalid ''service instance address'' (property update ''instance'')) (\<lambda>v.
             rbind (assertAddress v) (\<lambda>a. Inr (Closed a))))
       else Inl (Invalid ''service provider update''))"

text \<open>A decoded operation of unknown shape: paths inline, no definitions, no short forms.\<close>

definition check_path :: "bool \<Rightarrow> json \<Rightarrow> (delta_error, path) result" where
  "check_path nonEmpty p = (case p of
      JArr vs \<Rightarrow> if nonEmpty \<and> vs = [] then Inl (TypeError ''path is empty'') else check_segments vs
    | _ \<Rightarrow> Inl (TypeError ''path is not an array''))"

definition read_op :: "json \<Rightarrow> (delta_error, delta_op) result" where
  "read_op op = (case op of
      JArr [] \<Rightarrow> Inl (TypeError ''op is not a tuple'')
    | JArr (verb # args) \<Rightarrow>
        (if verb = JStr (js ''r'') then (case args of [v] \<Rightarrow> Inr (OpR v) | _ \<Rightarrow> Inl (TypeError ''r arity''))
         else if verb = JStr (js ''s'') then
           (case args of [p, v] \<Rightarrow> rbind (check_path True p) (\<lambda>p'. Inr (OpS p' v)) | _ \<Rightarrow> Inl (TypeError ''s arity''))
         else if verb = JStr (js ''d'') then
           (case args of [p] \<Rightarrow> rbind (check_path True p) (\<lambda>p'. Inr (OpD p')) | _ \<Rightarrow> Inl (TypeError ''d arity''))
         else if verb = JStr (js ''a'') then
           (case args of [p, JStr t] \<Rightarrow> rbind (check_path True p) (\<lambda>p'. Inr (OpA p' t)) | _ \<Rightarrow> Inl (TypeError ''a shape''))
         else if verb = JStr (js ''t'') then
           (case args of [p, n] \<Rightarrow> rbind (natural_or ''t shape'' n) (\<lambda>n'. rbind (check_path True p) (\<lambda>p'. Inr (OpT p' n')))
            | _ \<Rightarrow> Inl (TypeError ''t shape''))
         else if verb = JStr (js ''p'') then
           (case args of
              [p, i, r, items] \<Rightarrow> rbind (check_path False p) (\<lambda>p'. rbind (natural_or ''p index'' i) (\<lambda>i'.
                rbind (natural_or ''p remove'' r) (\<lambda>r'. rbind (check_items items) (\<lambda>items'. Inr (OpP p' i' r' items')))))
            | _ \<Rightarrow> Inl (TypeError ''p arity''))
         else if verb = JStr (js ''m'') then
           (case args of [p, is] \<Rightarrow> rbind (check_path False p) (\<lambda>p'. rbind (check_permutation is) (\<lambda>is'. Inr (OpM p' is')))
            | _ \<Rightarrow> Inl (TypeError ''m arity''))
         else Inl (TypeError ''unknown op verb''))
    | _ \<Rightarrow> Inl (TypeError ''op is not a tuple''))"

definition assertOps :: "delta_op list ops_check" where
  "assertOps ops = rmap read_op ops"

definition assertWireOps :: "json list ops_check" where
  "assertWireOps ops = rbind (rmap assertValidWireOp ops) (\<lambda>_. Inr ops)"

definition parseServiceSubscriptionSnapshot :: "json \<Rightarrow> (service_wire_error, delta_op list subscription_snapshot) result" where
  "parseServiceSubscriptionSnapshot = assertSubscriptionSnapshot assertOps"

definition parseWireServiceSubscriptionSnapshot :: "json \<Rightarrow> (service_wire_error, json list subscription_snapshot) result" where
  "parseWireServiceSubscriptionSnapshot = assertSubscriptionSnapshot assertWireOps"

definition parseServiceProviderUpdate :: "json \<Rightarrow> (service_wire_error, delta_op list provider_update) result" where
  "parseServiceProviderUpdate = assertProviderUpdate assertOps"

definition parseWireServiceProviderUpdate :: "json \<Rightarrow> (service_wire_error, json list provider_update) result" where
  "parseWireServiceProviderUpdate = assertProviderUpdate assertWireOps"

section \<open>The values as Json\<close>

text \<open>What the literals of the code look like on the wire; an absent instance has no property.\<close>

definition str_prop :: "string \<Rightarrow> string \<Rightarrow> jsstring \<times> json" where
  "str_prop key text = (js key, JStr (js text))"

definition address_json :: "service_address \<Rightarrow> json" where
  "address_json a = JObj [(js ''key'', JStr (sa_key a)), (js ''generation'', num_json (sa_generation a))]"

definition instance_prop :: "service_address option \<Rightarrow> json obj" where
  "instance_prop inst = (case inst of None \<Rightarrow> [] | Some a \<Rightarrow> [(js ''instance'', address_json a)])"

definition call_json :: "service_call \<Rightarrow> json" where
  "call_json c = JObj ((js ''serviceId'', JStr (sc_serviceId c)) # instance_prop (sc_instance c) @
     [(js ''member'', JStr (sc_member c)), (js ''args'', JArr (sc_args c))])"

definition entry_json :: "catalogue_entry \<Rightarrow> json" where
  "entry_json e = JObj [(js ''serviceId'', JStr (ce_serviceId e)), (js ''mode'', JStr (mode_text (ce_mode e)))]"

fun member_json :: "json list member_snapshot \<Rightarrow> json" where
  "member_json (MethodMember name) = JObj [(js ''name'', JStr name), str_prop ''kind'' ''method'']"
| "member_json (StateMember name sequence ops) = JObj [(js ''name'', JStr name), str_prop ''kind'' ''state'',
     (js ''sequence'', num_json sequence), (js ''ops'', JArr ops)]"

definition instance_json :: "json list instance_snapshot \<Rightarrow> json" where
  "instance_json s = JObj (instance_prop (is_instance s) @ [(js ''members'', JArr (map member_json (is_members s)))])"

definition snapshot_json :: "json list subscription_snapshot \<Rightarrow> json" where
  "snapshot_json s = JObj [(js ''serviceId'', JStr (sn_serviceId s)), (js ''mode'', JStr (mode_text (sn_mode s))),
     (js ''instances'', JArr (map instance_json (sn_instances s)))]"

fun update_json :: "json list provider_update \<Rightarrow> json" where
  "update_json (StateUpdate inst member sequence ops) = JObj (str_prop ''type'' ''state'' # instance_prop inst @
     [(js ''member'', JStr member), (js ''sequence'', num_json sequence), (js ''ops'', JArr ops)])"
| "update_json Unavailable = JObj [str_prop ''type'' ''unavailable'']"
| "update_json (Replaced s) = JObj [str_prop ''type'' ''replaced'', (js ''snapshot'', instance_json s)]"
| "update_json (Spawned s) = JObj [str_prop ''type'' ''spawned'', (js ''instance'', instance_json s)]"
| "update_json (Closed a) = JObj [str_prop ''type'' ''closed'', (js ''instance'', address_json a)]"

section \<open>Well-typed values\<close>

definition address_ok :: "service_address \<Rightarrow> bool" where
  "address_ok a \<longleftrightarrow> sa_key a \<noteq> [] \<and> 1 \<le> sa_generation a"

fun member_ok :: "('o \<Rightarrow> bool) \<Rightarrow> 'o member_snapshot \<Rightarrow> bool" where
  "member_ok V (MethodMember name) = (name \<noteq> [])"
| "member_ok V (StateMember name sequence ops) = (name \<noteq> [] \<and> V ops)"

definition instance_ok :: "('o \<Rightarrow> bool) \<Rightarrow> 'o instance_snapshot \<Rightarrow> bool" where
  "instance_ok V s \<longleftrightarrow> pred_option address_ok (is_instance s) \<and> list_all (member_ok V) (is_members s)"

definition snapshot_ok :: "('o \<Rightarrow> bool) \<Rightarrow> 'o subscription_snapshot \<Rightarrow> bool" where
  "snapshot_ok V s \<longleftrightarrow> sn_serviceId s \<noteq> [] \<and> list_all (instance_ok V) (sn_instances s)"

fun update_ok :: "('o \<Rightarrow> bool) \<Rightarrow> 'o provider_update \<Rightarrow> bool" where
  "update_ok V (StateUpdate inst member sequence ops) = (pred_option address_ok inst \<and> member \<noteq> [] \<and> 1 \<le> sequence \<and> V ops)"
| "update_ok V Unavailable = True"
| "update_ok V (Replaced s) = instance_ok V s"
| "update_ok V (Spawned s) = instance_ok V s"
| "update_ok V (Closed a) = address_ok a"

definition wire_ops_ok :: "json list \<Rightarrow> bool" where
  "wire_ops_ok ops = list_all (\<lambda>op. \<exists>w. assertValidWireOp op = Inr w) ops"

section \<open>Reading what was written\<close>

lemmas reading = record_of_def assertKeys_def property_def or_invalid_def isId_def isMode_def isIntegerFrom_def asArray_def

lemma read_address [simp]: "address_ok a \<Longrightarrow> assertAddress (address_json a) = Inr a"
  by (simp add: assertAddress_def address_json_def reading address_ok_def)

lemma isMode_text [simp]: "isMode (Some (JStr (mode_text m))) = Some m"
  by (cases m) (simp_all add: isMode_def mode_text_def)

lemma read_call: "sc_serviceId c \<noteq> [] \<Longrightarrow> sc_member c \<noteq> [] \<Longrightarrow> pred_option address_ok (sc_instance c) \<Longrightarrow> parseServiceCall (call_json c) = Inr c"
  by (cases "sc_instance c") (simp_all add: parseServiceCall_def call_json_def instance_prop_def optionalAddress_def reading)

lemma read_entry: "ce_serviceId e \<noteq> [] \<Longrightarrow> parse_entry (entry_json e) = Inr e"
  by (simp add: parse_entry_def entry_json_def) (simp add: reading flip: isMode_def)

lemma wire_ops_read: "wire_ops_ok ops \<Longrightarrow> assertWireOps ops = Inr ops"
proof -
  assume "wire_ops_ok ops"
  then have "\<exists>ws. rmap assertValidWireOp ops = Inr ws"
    unfolding wire_ops_ok_def by (induction ops) auto
  then show ?thesis by (auto simp: assertWireOps_def)
qed

lemma read_member: "member_ok wire_ops_ok m \<Longrightarrow> assertMember assertWireOps (member_json m) = Inr m"
  by (cases m) (simp_all add: assertMember_def str_prop_def reading check_ops_def wire_ops_read)

lemma rmap_read: "list_all P xs \<Longrightarrow> (\<And>x. P x \<Longrightarrow> f (g x) = Inr x) \<Longrightarrow> rmap f (map g xs) = Inr xs"
  by (induction xs) auto

lemma read_instance [simp]: "instance_ok wire_ops_ok s \<Longrightarrow> assertInstance assertWireOps (instance_json s) = Inr s"
  using rmap_read [of "member_ok wire_ops_ok" "is_members s" "assertMember assertWireOps" member_json] read_member
  by (cases "is_instance s") (simp_all add: assertInstance_def instance_json_def instance_prop_def optionalAddress_def reading instance_ok_def)

lemma read_snapshot: "snapshot_ok wire_ops_ok s \<Longrightarrow> parseWireServiceSubscriptionSnapshot (snapshot_json s) = Inr s"
  using rmap_read [of "instance_ok wire_ops_ok" "sn_instances s" "assertInstance assertWireOps" instance_json]
  by (simp add: parseWireServiceSubscriptionSnapshot_def assertSubscriptionSnapshot_def snapshot_json_def snapshot_ok_def
      record_of_def assertKeys_def property_def or_invalid_def isId_def asArray_def)

lemma read_update: "update_ok wire_ops_ok u \<Longrightarrow> parseWireServiceProviderUpdate (update_json u) = Inr u"
proof (cases u)
  case (StateUpdate inst member sequence ops)
  assume "update_ok wire_ops_ok u"
  then show ?thesis using StateUpdate by (cases inst)
    (simp_all add: parseWireServiceProviderUpdate_def assertProviderUpdate_def str_prop_def instance_prop_def optionalAddress_def reading check_ops_def wire_ops_read)
qed (simp_all add: parseWireServiceProviderUpdate_def assertProviderUpdate_def str_prop_def reading)

section \<open>What a validator accepts has the type\<close>

lemma isId_ok: "isId v = Some s \<Longrightarrow> s \<noteq> []"
  by (auto simp: isId_def split: option.splits json.splits if_splits)

lemma isIntegerFrom_ok: "isIntegerFrom n v = Some m \<Longrightarrow> n \<le> m"
  by (auto simp: isIntegerFrom_def bind_eq_Some_conv split: if_splits)

lemma or_invalid_Inr [simp]: "or_invalid d g = Inr a \<longleftrightarrow> g = Some a"
  by (simp add: or_invalid_def split: option.splits)

lemma address_typed: "assertAddress v = Inr a \<Longrightarrow> address_ok a"
  by (auto simp: assertAddress_def address_ok_def rbind_Inr_iff dest: isId_ok isIntegerFrom_ok)

lemma optional_address_typed: "optionalAddress v = Inr a \<Longrightarrow> pred_option address_ok a"
  by (auto simp: optionalAddress_def rbind_Inr_iff split: option.splits dest: address_typed)

lemma check_ops_typed: "check_ops f ops = Inr x \<longleftrightarrow> f ops = Inr x"
  by (simp add: check_ops_def split: sum.splits)

text \<open>Everything a parser returns satisfies a predicate.\<close>

definition yields :: "('v \<Rightarrow> ('e, 'x) result) \<Rightarrow> ('x \<Rightarrow> bool) \<Rightarrow> bool" where
  "yields f P \<longleftrightarrow> (\<forall>v x. f v = Inr x \<longrightarrow> P x)"

lemma yieldsD: "f v = Inr x \<Longrightarrow> yields f P \<Longrightarrow> P x"
  by (simp add: yields_def)

lemma yields_rmap: "yields f P \<Longrightarrow> yields (rmap f) (list_all P)"
proof -
  assume f: "yields f P"
  have "rmap f vs = Inr xs \<Longrightarrow> list_all P xs" for vs xs
    by (induction vs arbitrary: xs) (auto simp: rbind_Inr_iff yieldsD [OF _ f])
  then show ?thesis by (simp add: yields_def)
qed

lemma member_typed: "yields f V \<Longrightarrow> yields (assertMember f) (member_ok V)"
  by (auto simp: yields_def assertMember_def rbind_Inr_iff check_ops_typed split: if_splits dest: isId_ok)

lemma instance_typed:
  assumes "yields f V"
  shows "yields (assertInstance f) (instance_ok V)"
proof -
  have "rmap (assertMember f) vs = Inr xs \<Longrightarrow> list_all (member_ok V) xs" for vs xs
    using yields_rmap [OF member_typed [OF assms]] by (simp add: yields_def)
  then show ?thesis by (auto simp: yields_def assertInstance_def instance_ok_def rbind_Inr_iff dest: optional_address_typed)
qed

lemma snapshot_typed:
  assumes "yields f V"
  shows "yields (assertSubscriptionSnapshot f) (snapshot_ok V)"
proof -
  have "rmap (assertInstance f) vs = Inr xs \<Longrightarrow> list_all (instance_ok V) xs" for vs xs
    using yields_rmap [OF instance_typed [OF assms]] by (simp add: yields_def)
  then show ?thesis by (auto simp: yields_def assertSubscriptionSnapshot_def snapshot_ok_def rbind_Inr_iff dest: isId_ok)
qed

lemma update_typed:
  assumes "yields f V"
  shows "yields (assertProviderUpdate f) (update_ok V)"
proof -
  have typed: "assertInstance f v = Inr s \<Longrightarrow> instance_ok V s" "f ops = Inr x \<Longrightarrow> V x" for v s ops x
    using instance_typed [OF assms] assms by (simp_all add: yields_def)
  have "update_ok V u" if "assertProviderUpdate f v = Inr u" for v u
    using that unfolding assertProviderUpdate_def Let_def
    by (auto simp: rbind_Inr_iff check_ops_typed split: if_splits dest: isId_ok isIntegerFrom_ok optional_address_typed address_typed typed)
  then show ?thesis by (simp add: yields_def)
qed

lemma wire_ops_typed: "yields assertWireOps wire_ops_ok"
proof -
  have "rmap assertValidWireOp ops = Inr ws \<Longrightarrow> wire_ops_ok ops" for ops ws
    unfolding wire_ops_ok_def by (induction ops arbitrary: ws) (auto simp: rbind_Inr_iff)
  then show ?thesis by (auto simp: yields_def assertWireOps_def rbind_Inr_iff)
qed

lemma check_segments_length: "check_segments vs = Inr p \<Longrightarrow> length p = length vs"
  by (induction vs arbitrary: p) (auto simp: rbind_Inr_iff)

lemma check_path_safe: "check_path b p = Inr q \<Longrightarrow> assertPathArg q b = Inr ()"
  by (auto simp: check_path_def assertPathArg_def split: json.splits if_splits dest: check_segments_safe check_segments_length)

lemma read_op_valid: "read_op v = Inr op \<Longrightarrow> valid_op op"
  by (auto simp: read_op_def assertValidOp_def rbind_Inr_iff check_path_safe check_permutation_ok split: json.splits list.splits if_splits)

lemma ops_typed: "yields assertOps (list_all valid_op)"
  using yields_rmap [of read_op valid_op] read_op_valid by (simp add: yields_def assertOps_def)

section \<open>From the provider to the consumer\<close>

text \<open>What arrives is Json of unknown shape: it is validated, then decoded.\<close>

datatype raw_message = RawOpened json | RawChanged json

datatype receive_error = Rejected service_wire_error | Undecodable state_error

fun message_json :: "json list service_message \<Rightarrow> raw_message" where
  "message_json (Opened s) = RawOpened (snapshot_json s)"
| "message_json (Changed u) = RawChanged (update_json u)"

definition receive_decoded :: "delta_decoder registry \<Rightarrow> (service_wire_error, json list service_message) result \<Rightarrow>
    delta_decoder registry \<times> (receive_error, delta_op list service_message) result" where
  "receive_decoded codecs parsed = (case parsed of
      Inl e \<Rightarrow> (codecs, Inl (Rejected e))
    | Inr m \<Rightarrow> (case decode_message codecs m of (codecs', r) \<Rightarrow> (codecs', (case r of Inl e \<Rightarrow> Inl (Undecodable e) | Inr x \<Rightarrow> Inr x))))"

fun receive :: "delta_decoder registry \<Rightarrow> raw_message \<Rightarrow> delta_decoder registry \<times> (receive_error, delta_op list service_message) result" where
  "receive codecs (RawOpened v) = receive_decoded codecs (rbind (parseWireServiceSubscriptionSnapshot v) (\<lambda>s. Inr (Opened s)))"
| "receive codecs (RawChanged v) = receive_decoded codecs (rbind (parseWireServiceProviderUpdate v) (\<lambda>u. Inr (Changed u)))"

fun message_ok :: "('o \<Rightarrow> bool) \<Rightarrow> 'o service_message \<Rightarrow> bool" where
  "message_ok V (Opened s) = snapshot_ok V s"
| "message_ok V (Changed u) = update_ok V u"

text \<open>A batch that decodes is one the validator accepts.\<close>

lemma decode_loop_wire_ok: "snd (decode_loop d previous wire) = Inr ops \<Longrightarrow> wire_ops_ok wire"
proof (induction wire arbitrary: d previous ops)
  case (Cons raw rest)
  obtain w d' previous' out where w: "assertValidWireOp raw = Inr w" "decode_op d previous w = Inr (d', previous', out)"
    using Cons.prems by (auto simp: rbind_Inr_iff split: sum.splits prod.splits)
  then obtain ops' where "snd (decode_loop d' previous' rest) = Inr ops'"
    using Cons.prems by (auto simp: rbind_Inr_iff split: prod.splits)
  then show ?case using Cons.IH w(1) by (auto simp: wire_ops_ok_def)
qed (simp add: wire_ops_ok_def)

lemma decode_wire_ok: "decode d wire = (d', Inr ops) \<Longrightarrow> wire_ops_ok wire"
  using decode_loop_wire_ok [of d None wire ops] by (simp add: decode_def)

text \<open>What decodes to a well-typed message is well-typed on the wire.\<close>

definition reflects :: "('t \<Rightarrow> 'w \<Rightarrow> 't \<times> ('y, 'a) result) \<Rightarrow> ('a \<Rightarrow> bool) \<Rightarrow> ('w \<Rightarrow> bool) \<Rightarrow> bool" where
  "reflects g V W \<longleftrightarrow> (\<forall>t w t' x. g t w = (t', Inr x) \<longrightarrow> V x \<longrightarrow> W w)"

lemma reflectsD: "reflects g V W \<Longrightarrow> g t w = (t', Inr x) \<Longrightarrow> V x \<Longrightarrow> W w"
  unfolding reflects_def by blast

lemma reflectsI: "(\<And>t w t' x. g t w = (t', Inr x) \<Longrightarrow> V x \<Longrightarrow> W w) \<Longrightarrow> reflects g V W"
  unfolding reflects_def by blast

lemma reflects_smap: "reflects g V W \<Longrightarrow> reflects (smap g) (list_all V) (list_all W)"
proof (rule reflectsI)
  show "list_all W ws" if "reflects g V W" "smap g t ws = (t', Inr xs)" "list_all V xs" for t ws t' xs
    using that(2,3)
  proof (induction ws arbitrary: t xs)
    case (Cons w ws)
    then obtain t1 x xs' where "g t w = (t1, Inr x)" "smap g t1 ws = (t', Inr xs')" "xs = x # xs'" by (auto simp only: smap_Inr)
    then show ?case using Cons reflectsD [OF that(1)] by auto
  qed simp
qed

lemma get_reflects: "get_codec decode ds i m w = (ds', Inr ops) \<Longrightarrow> wire_ops_ok w"
  by (auto simp: get_codec_def Let_def dest: decode_wire_ok split: option.splits prod.splits sum.splits)

lemma member_reflects: "reflects (code_member decode decoder i) (member_ok (\<lambda>_. True)) (member_ok wire_ops_ok)"
  by (rule reflectsI) (auto simp: code_member_def rbind_Inr_iff split: member_snapshot.splits sum.splits prod.splits dest: get_reflects)

lemma instance_reflects: "reflects (code_instance decode decoder) (instance_ok (\<lambda>_. True)) (instance_ok wire_ops_ok)"
  by (rule reflectsI) (auto simp: code_instance_def instance_ok_def rbind_Inr_iff split: prod.splits dest: reflectsD [OF reflects_smap [OF member_reflects]])

lemma snapshot_reflects: "reflects (code_snapshot decode decoder) (snapshot_ok (\<lambda>_. True)) (snapshot_ok wire_ops_ok)"
  by (rule reflectsI) (auto simp: code_snapshot_def snapshot_ok_def rbind_Inr_iff split: prod.splits dest: reflectsD [OF reflects_smap [OF instance_reflects]])

lemma update_reflects: "reflects (code_update decode decoder) (update_ok (\<lambda>_. True)) (update_ok wire_ops_ok)"
  by (rule reflectsI) (auto simp: code_update_def rbind_Inr_iff split: provider_update.splits prod.splits dest: get_reflects reflectsD [OF instance_reflects])

lemma message_reflects: "reflects decode_message (message_ok (\<lambda>_. True)) (message_ok wire_ops_ok)"
proof (rule reflectsI)
  fix ds w ds' m
  assume d: "decode_message ds w = (ds', Inr m)" and ok: "message_ok (\<lambda>_. True) m"
  show "message_ok wire_ops_ok w"
  proof (cases w)
    case (Opened s)
    then show ?thesis using d ok reflectsD [OF snapshot_reflects] by (auto simp: decodeSnapshot_def rbind_Inr_iff split: prod.splits)
  next
    case (Changed u)
    then show ?thesis using d ok reflectsD [OF update_reflects] by (auto simp: decodeUpdate_def rbind_Inr_iff split: prod.splits)
  qed
qed

lemma receive_written:
  assumes "message_ok wire_ops_ok w" "decode_message ds w = (ds', Inr m)"
  shows "receive ds (message_json w) = (ds', Inr m)"
  using assms by (cases w) (simp_all add: receive_decoded_def read_snapshot read_update)

lemma receive_all:
  assumes "smap decode_message ds ws = (ds', Inr ms)" "list_all (message_ok (\<lambda>_. True)) ms"
  shows "smap receive ds (map message_json ws) = (ds', Inr ms)"
  using assms
proof (induction ws arbitrary: ds ms)
  case (Cons w ws)
  then obtain d1 x xs where d: "decode_message ds w = (d1, Inr x)" "smap decode_message d1 ws = (ds', Inr xs)" "ms = x # xs"
    by (auto simp only: smap_Inr)
  have "message_ok wire_ops_ok w" using reflectsD [OF message_reflects d(1)] Cons.prems(2) d(3) by simp
  then have "receive ds (message_json w) = (d1, Inr x)" using receive_written d(1) by blast
  moreover have "smap receive d1 (map message_json ws) = (ds', Inr xs)" using Cons.IH [OF d(2)] Cons.prems(2) d(3) by simp
  ultimately show ?case using d(3) by simp
qed simp

lemma member_ok_weaken: "member_ok V m \<Longrightarrow> member_all V m \<and> member_ok (\<lambda>_. True) m"
  by (cases m) simp_all

lemma instance_ok_weaken: "instance_ok V s \<Longrightarrow> instance_all V s \<and> instance_ok (\<lambda>_. True) s"
  using member_ok_weaken by (auto simp: instance_ok_def instance_all_def list_all_iff)

lemma message_ok_weaken: "message_ok V m \<Longrightarrow> message_all V m \<and> message_ok (\<lambda>_. True) m"
proof (cases m)
  case (Opened s)
  assume "message_ok V m"
  then show ?thesis using Opened instance_ok_weaken by (auto simp: snapshot_ok_def snapshot_all_def list_all_iff)
next
  case (Changed u)
  assume "message_ok V m"
  then show ?thesis using Changed instance_ok_weaken by (cases u) auto
qed

section \<open>Control calls and catalogues\<close>

fun create_control :: "control_call \<Rightarrow> service_call" where
  "create_control CatalogueControl = createServiceCatalogueCall"
| "create_control (SubscribeControl subscription service m) = createServiceSubscribeCall subscription service m"
| "create_control (UnsubscribeControl subscription) = createServiceUnsubscribeCall subscription"

fun control_ok :: "control_call \<Rightarrow> bool" where
  "control_ok CatalogueControl = True"
| "control_ok (SubscribeControl subscription service m) = (subscription \<noteq> [] \<and> service \<noteq> [])"
| "control_ok (UnsubscribeControl subscription) = (subscription \<noteq> [])"

lemma isId_Some: "isId v = Some s \<longleftrightarrow> v = Some (JStr s) \<and> s \<noteq> []"
  by (auto simp: isId_def split: option.splits json.splits if_splits)

lemma isMode_Some: "isMode v = Some m \<longleftrightarrow> v = Some (JStr (mode_text m))"
  by (cases m) (auto simp: isMode_def mode_text_def split: if_splits)

lemma decode_control_create: "control_ok c \<Longrightarrow> decodeServiceControlCall (create_control c) = Some c"
  by (cases c) (simp_all add: decodeServiceControlCall_def createServiceCatalogueCall_def createServiceSubscribeCall_def
      createServiceUnsubscribeCall_def control_names isId_def)

lemma decode_control_only:
  assumes "decodeServiceControlCall call = Some c"
  shows "call = create_control c \<and> control_ok c"
proof -
  obtain service inst member args where call: "call = \<lparr>sc_serviceId = service, sc_instance = inst, sc_member = member, sc_args = args\<rparr>"
    by (cases call) auto
  show ?thesis using assms unfolding call decodeServiceControlCall_def
    by (auto simp: createServiceCatalogueCall_def createServiceSubscribeCall_def createServiceUnsubscribeCall_def isId_Some isMode_Some
        bind_eq_Some_conv split: if_splits list.splits)
qed

lemma catalogue_fold:
  "rfold (\<lambda>entries candidate. rbind (parse_entry candidate) (\<lambda>entry.
      if ce_serviceId entry \<in> ce_serviceId ` set entries then Inl (Invalid ''service catalogue'') else Inr (entries @ [entry])))
     entries (map entry_json es) = Inr (entries @ es)"
  if "list_all (\<lambda>e. ce_serviceId e \<noteq> []) es" "distinct (map ce_serviceId (entries @ es))"
  using that
proof (induction es arbitrary: entries)
  case (Cons e es)
  then show ?case using Cons.IH [of "entries @ [e]"] by (simp add: read_entry)
qed simp

lemma parse_entry_typed: "yields parse_entry (\<lambda>e. ce_serviceId e \<noteq> [])"
  by (auto simp: yields_def parse_entry_def rbind_Inr_iff dest: isId_ok)

lemma catalogue_typed:
  assumes "parseServiceCatalogue v = Inr es"
  shows "distinct (map ce_serviceId es) \<and> list_all (\<lambda>e. ce_serviceId e \<noteq> []) es"
proof -
  obtain candidates where "rfold (\<lambda>entries candidate. rbind (parse_entry candidate) (\<lambda>entry.
      if ce_serviceId entry \<in> ce_serviceId ` set entries then Inl (Invalid ''service catalogue'') else Inr (entries @ [entry]))) [] candidates = Inr es"
    using assms by (auto simp: parseServiceCatalogue_def rbind_Inr_iff)
  then show ?thesis
    by (rule rfold_invariant [where I = "\<lambda>es. distinct (map ce_serviceId es) \<and> list_all (\<lambda>e. ce_serviceId e \<noteq> []) es"])
      (auto simp: rbind_Inr_iff split: if_splits dest: yieldsD [OF _ parse_entry_typed])
qed

section \<open>Properties\<close>

text \<open>
  C8. From a provider to a consumer: the messages of a subscription, encoded by the provider, written as Json, validated and
  decoded by the consumer, arrive as they were sent, starting at the snapshot that opens it and whatever both codecs held
  before. Instances may be spawned, replaced, closed and spawned again.
\<close>

theorem service_wire_roundtrip:
  assumes "smap encode_message es (Opened snapshot # messages) = (es', Inr ws)"
    and "list_all (message_ok (list_all valid_op)) (Opened snapshot # messages)"
  shows "snd (smap receive ds (map message_json ws)) = Inr (Opened snapshot # messages)"
proof -
  have ok: "list_all (message_all (list_all valid_op)) (Opened snapshot # messages)" "list_all (message_ok (\<lambda>_. True)) (Opened snapshot # messages)"
    using assms(2) message_ok_weaken unfolding list_all_iff by blast+
  obtain ds' where "smap decode_message ds ws = (ds', Inr (Opened snapshot # messages))" using stream_decodes [OF assms(1) ok(1)] by blast
  from receive_all [OF this ok(2)] show ?thesis by simp
qed

text \<open>
  C31. Whatever arrives, a validator returns only values of its type: identifiers are not empty, generations and the sequences of
  updates start at one, no service is twice in a catalogue, and every operation is one the decoder, or the applier, accepts.
\<close>

theorem service_parsers_typed:
  "(parseWireServiceSubscriptionSnapshot v = Inr ws \<longrightarrow> snapshot_ok wire_ops_ok ws) \<and>
   (parseWireServiceProviderUpdate v = Inr wu \<longrightarrow> update_ok wire_ops_ok wu) \<and>
   (parseServiceSubscriptionSnapshot v = Inr s \<longrightarrow> snapshot_ok (list_all valid_op) s) \<and>
   (parseServiceProviderUpdate v = Inr u \<longrightarrow> update_ok (list_all valid_op) u) \<and>
   (parseServiceCatalogue v = Inr es \<longrightarrow> distinct (map ce_serviceId es) \<and> list_all (\<lambda>e. ce_serviceId e \<noteq> []) es)"
  using yieldsD [OF _ snapshot_typed [OF wire_ops_typed], of v ws] yieldsD [OF _ update_typed [OF wire_ops_typed], of v wu]
    yieldsD [OF _ snapshot_typed [OF ops_typed], of v s] yieldsD [OF _ update_typed [OF ops_typed], of v u] catalogue_typed [of v es]
  by (simp add: parseWireServiceSubscriptionSnapshot_def parseWireServiceProviderUpdate_def parseServiceSubscriptionSnapshot_def
      parseServiceProviderUpdate_def)

text \<open>
  Exactly the calls that the three constructors make, with identifiers that are not empty, are control calls, and each is
  recognised as the control it was made for; every other call goes to a service.
\<close>

theorem control_calls_exact: "decodeServiceControlCall call = Some c \<longleftrightarrow> call = create_control c \<and> control_ok c"
  using decode_control_create decode_control_only by blast

text \<open>
  A call is read back from its Json as it is exactly when its service, its member and the key of its instance are not empty
  and the generation is positive; a catalogue exactly when its services are named and different.
\<close>

theorem call_catalogue_roundtrip:
  "(parseServiceCall (call_json call) = Inr call \<longleftrightarrow> sc_serviceId call \<noteq> [] \<and> sc_member call \<noteq> [] \<and> pred_option address_ok (sc_instance call)) \<and>
   (parseServiceCatalogue (JArr (map entry_json es)) = Inr es \<longleftrightarrow> distinct (map ce_serviceId es) \<and> list_all (\<lambda>e. ce_serviceId e \<noteq> []) es)"
proof -
  have "sc_serviceId c \<noteq> [] \<and> sc_member c \<noteq> [] \<and> pred_option address_ok (sc_instance c)" if "parseServiceCall v = Inr c" for v c
    using that by (auto simp: parseServiceCall_def rbind_Inr_iff dest: isId_ok optional_address_typed)
  then have "parseServiceCall (call_json call) = Inr call \<longleftrightarrow> sc_serviceId call \<noteq> [] \<and> sc_member call \<noteq> [] \<and> pred_option address_ok (sc_instance call)"
    using read_call by blast
  moreover have "parseServiceCatalogue (JArr (map entry_json es)) = Inr es"
    if "distinct (map ce_serviceId es)" "list_all (\<lambda>e. ce_serviceId e \<noteq> []) es"
    using catalogue_fold [OF that(2), of "[]"] that(1) by (simp add: parseServiceCatalogue_def or_invalid_def asArray_def)
  ultimately show ?thesis using catalogue_typed by blast
qed

section \<open>Witnesses\<close>

theorem service_wire_roundtrip_witness:
  "\<exists>es ws. smap encode_message [] sample_service = (es, Inr ws) \<and> snd (smap receive [] (map message_json ws)) = Inr sample_service"
proof -
  obtain es ws where e: "smap encode_message [] sample_service = (es, Inr ws)" using sample_service_encodes by blast
  have "list_all (message_ok (list_all valid_op)) sample_service"
    by (simp add: sample_service_def sample_instance_def snapshot_ok_def instance_ok_def address_ok_def js_def assertValidOp_def assertPathArg_def) code_simp
  then show ?thesis using service_wire_roundtrip [of "[]" _ _ es ws "[]"] e unfolding sample_service_def by blast
qed

theorem service_parsers_typed_witness:
  "parseServiceCatalogue (JArr [JObj [(js ''serviceId'', JStr (js ''todos'')), (js ''mode'', JStr (js ''keyed''))]]) =
     Inr [\<lparr>ce_serviceId = js ''todos'', ce_mode = Keyed\<rparr>] \<and> js ''todos'' \<noteq> []"
proof -
  let ?v = "JArr [JObj [(js ''serviceId'', JStr (js ''todos'')), (js ''mode'', JStr (js ''keyed''))]]"
  have read: "parseServiceCatalogue ?v = Inr [\<lparr>ce_serviceId = js ''todos'', ce_mode = Keyed\<rparr>]" by code_simp
  have "list_all (\<lambda>e. ce_serviceId e \<noteq> []) [\<lparr>ce_serviceId = js ''todos'', ce_mode = Keyed\<rparr>]"
    using service_parsers_typed [of ?v undefined undefined undefined undefined "[\<lparr>ce_serviceId = js ''todos'', ce_mode = Keyed\<rparr>]"] read by blast
  then show ?thesis using read by simp
qed

end
