(* ===== verification/Truncation.thy ===== *)
theory Truncation
  imports Utf8
begin

text \<open>
  The truncation of tool output, in the two versions of the repository: \<^verbatim>\<open>packages/agent/src/harness/utils/truncate.ts\<close>, which counts
  UTF-16 code units, and \<^verbatim>\<open>packages/coding-agent/src/core/tools/truncate.ts\<close>, which works on a buffer of UTF-8. Limits are natural
  numbers.
\<close>

unbundle bit_operations_syntax

section \<open>Bytes of a text\<close>

text \<open>\<^verbatim>\<open>Buffer.byteLength\<close>.\<close>

definition byteLength :: "jsstring \<Rightarrow> nat" where
  "byteLength s = length (utf8_encode s)"

text \<open>The loop that counts without a buffer.\<close>

fun count_units :: "jsstring \<Rightarrow> nat" where
  "count_units [] = 0"
| "count_units [c] = (if c \<le> 0x7F then 1 else if c \<le> 0x7FF then 2 else 3)"
| "count_units (c # d # s) =
     (if c \<le> 0x7F then 1 + count_units (d # s)
      else if c \<le> 0x7FF then 2 + count_units (d # s)
      else if is_lead c then (if is_trail d then 4 + count_units s else 3 + count_units (d # s))
      else 3 + count_units (d # s))"

definition utf8ByteLength :: "bool \<Rightarrow> jsstring \<Rightarrow> nat" where
  "utf8ByteLength runtimeBuffer content =
     (if runtimeBuffer then byteLength content
      else let firstNonAscii = length (takeWhile (\<lambda>c. c \<le> 0x7F) content) in
        if firstNonAscii = length content then length content
        else firstNonAscii + count_units (drop firstNonAscii content))"

section \<open>Lines\<close>

fun split_lines :: "jsstring \<Rightarrow> jsstring list" where
  "split_lines [] = [[]]"
| "split_lines (c # s) = (if c = 0x0A then [] # split_lines s else (case split_lines s of [] \<Rightarrow> [[c]] | l # ls \<Rightarrow> (c # l) # ls))"

fun join_lines :: "jsstring list \<Rightarrow> jsstring" where
  "join_lines [] = []"
| "join_lines [l] = l"
| "join_lines (l # m # ls) = l @ 0x0A # join_lines (m # ls)"

definition splitLinesForCounting :: "jsstring \<Rightarrow> jsstring list" where
  "splitLinesForCounting content =
     (if content = [] then []
      else if last content = 0x0A then butlast (split_lines content) else split_lines content)"

section \<open>The results\<close>

definition DEFAULT_MAX_LINES :: nat where
  "DEFAULT_MAX_LINES = 2000"

definition DEFAULT_MAX_BYTES :: nat where
  "DEFAULT_MAX_BYTES = 50 * 1024"

definition GREP_MAX_LINE_LENGTH :: nat where
  "GREP_MAX_LINE_LENGTH = 500"

datatype truncated_by = ByLines | ByBytes

record truncation_result =
  tr_content :: jsstring
  tr_truncated :: bool
  tr_truncatedBy :: "truncated_by option"
  tr_totalLines :: nat
  tr_totalBytes :: nat
  tr_outputLines :: nat
  tr_outputBytes :: nat
  tr_lastLinePartial :: bool
  tr_firstLineExceedsLimit :: bool
  tr_maxLines :: nat
  tr_maxBytes :: nat

record truncation_options =
  to_maxLines :: "nat option"
  to_maxBytes :: "nat option"

definition limit_or :: "nat \<Rightarrow> nat option \<Rightarrow> nat" where
  "limit_or fallback given = (case given of None \<Rightarrow> fallback | Some n \<Rightarrow> n)"

section \<open>Keeping the head\<close>

fun head_loop :: "(jsstring \<Rightarrow> nat) \<Rightarrow> nat \<Rightarrow> nat \<Rightarrow> jsstring list \<Rightarrow> jsstring list \<Rightarrow> nat \<Rightarrow> jsstring list \<times> nat \<times> truncated_by" where
  "head_loop bytes maxLines maxBytes [] out count = (out, count, ByLines)"
| "head_loop bytes maxLines maxBytes (line # rest) out count =
     (if \<not> length out < maxLines then (out, count, ByLines)
      else let lineBytes = bytes line + (if out \<noteq> [] then 1 else 0) in
        if count + lineBytes > maxBytes then (out, count, ByBytes)
        else head_loop bytes maxLines maxBytes rest (out @ [line]) (count + lineBytes))"

definition truncate_head :: "(jsstring \<Rightarrow> nat) \<Rightarrow> jsstring \<Rightarrow> truncation_options \<Rightarrow> truncation_result" where
  "truncate_head bytes content options =
     (let maxLines = limit_or DEFAULT_MAX_LINES (to_maxLines options);
          maxBytes = limit_or DEFAULT_MAX_BYTES (to_maxBytes options);
          totalBytes = bytes content;
          lines = splitLinesForCounting content;
          totalLines = length lines
      in if totalLines \<le> maxLines \<and> totalBytes \<le> maxBytes then
           \<lparr>tr_content = content, tr_truncated = False, tr_truncatedBy = None, tr_totalLines = totalLines, tr_totalBytes = totalBytes,
             tr_outputLines = totalLines, tr_outputBytes = totalBytes, tr_lastLinePartial = False, tr_firstLineExceedsLimit = False,
             tr_maxLines = maxLines, tr_maxBytes = maxBytes\<rparr>
         else if bytes (hd lines) > maxBytes then
           \<lparr>tr_content = [], tr_truncated = True, tr_truncatedBy = Some ByBytes, tr_totalLines = totalLines, tr_totalBytes = totalBytes,
             tr_outputLines = 0, tr_outputBytes = 0, tr_lastLinePartial = False, tr_firstLineExceedsLimit = True,
             tr_maxLines = maxLines, tr_maxBytes = maxBytes\<rparr>
         else (case head_loop bytes maxLines maxBytes lines [] 0 of (out, count, by) \<Rightarrow>
           let by' = (if length out \<ge> maxLines \<and> count \<le> maxBytes then ByLines else by);
               outputContent = join_lines out
           in \<lparr>tr_content = outputContent, tr_truncated = True, tr_truncatedBy = Some by', tr_totalLines = totalLines, tr_totalBytes = totalBytes,
             tr_outputLines = length out, tr_outputBytes = bytes outputContent, tr_lastLinePartial = False, tr_firstLineExceedsLimit = False,
             tr_maxLines = maxLines, tr_maxBytes = maxBytes\<rparr>))"

definition truncateHead :: "bool \<Rightarrow> jsstring \<Rightarrow> truncation_options \<Rightarrow> truncation_result" where
  "truncateHead runtimeBuffer = truncate_head (utf8ByteLength runtimeBuffer)"

text \<open>The version of the coding agent.\<close>

definition coding_truncateHead :: "jsstring \<Rightarrow> truncation_options \<Rightarrow> truncation_result" where
  "coding_truncateHead = truncate_head byteLength"

section \<open>The end of a line\<close>

text \<open>The character before an index: where it starts, its bytes, and whether it is a lone surrogate.\<close>

definition character_before :: "jsstring \<Rightarrow> nat \<Rightarrow> nat \<times> nat \<times> bool" where
  "character_before str i =
     (let characterStart = i - 1; code = str ! characterStart in
      if is_trail code \<and> characterStart > 0 then
        (if is_lead (str ! (characterStart - 1)) then (characterStart - 1, 4, False) else (characterStart, 3, True))
      else if is_lead code \<or> is_trail code then (characterStart, 3, True)
      else (characterStart, (if code \<le> 0x7F then 1 else if code \<le> 0x7FF then 2 else 3), False))"

lemma character_before_less: "i \<noteq> 0 \<Longrightarrow> fst (character_before str i) < i"
  by (auto simp: character_before_def Let_def)

function from_end_loop :: "jsstring \<Rightarrow> nat \<Rightarrow> nat \<Rightarrow> nat \<Rightarrow> bool \<Rightarrow> nat \<times> bool" where
  "from_end_loop str maxBytes i outputBytes needsReplacement =
     (if i = 0 then (i, needsReplacement)
      else case character_before str i of (characterStart, characterBytes, unpairedSurrogate) \<Rightarrow>
        if outputBytes + characterBytes > maxBytes then (i, needsReplacement)
        else from_end_loop str maxBytes characterStart (outputBytes + characterBytes) (needsReplacement \<or> unpairedSurrogate))"
  by pat_completeness auto
termination
proof (relation "measure (\<lambda>(str, maxBytes, i, outputBytes, needs). i)", goal_cases)
  case (2 str maxBytes i outputBytes needs x a b c)
  then show ?case using character_before_less [of i str] by (simp add: prod_eq_iff)
qed simp

declare from_end_loop.simps [simp del]

fun replaceUnpairedSurrogates :: "jsstring \<Rightarrow> jsstring" where
  "replaceUnpairedSurrogates [] = []"
| "replaceUnpairedSurrogates [c] = [if is_lead c \<or> is_trail c then 0xFFFD else c]"
| "replaceUnpairedSurrogates (c # d # s) =
     (if is_lead c \<and> is_trail d then c # d # replaceUnpairedSurrogates s
      else (if is_lead c \<or> is_trail c then 0xFFFD else c) # replaceUnpairedSurrogates (d # s))"

definition truncateStringToBytesFromEnd :: "jsstring \<Rightarrow> nat \<Rightarrow> jsstring" where
  "truncateStringToBytesFromEnd str maxBytes =
     (if maxBytes \<le> 0 then []
      else case from_end_loop str maxBytes (length str) 0 False of (start, needsReplacement) \<Rightarrow>
        let output = drop start str in if needsReplacement then replaceUnpairedSurrogates output else output)"

text \<open>
  On a buffer: skip back the limit, then forward over continuation bytes. \<^verbatim>\<open>toString\<close> does not throw; it never meets an
  ill-formed sequence here, which is part of what is shown below.
\<close>

definition buffer_text :: "byte list \<Rightarrow> jsstring" where
  "buffer_text bytes = (case utf8_decode bytes of None \<Rightarrow> [] | Some s \<Rightarrow> s)"

definition coding_truncateStringToBytesFromEnd :: "jsstring \<Rightarrow> nat \<Rightarrow> jsstring" where
  "coding_truncateStringToBytesFromEnd str maxBytes =
     (let buf = utf8_encode str in
      if length buf \<le> maxBytes then str
      else buffer_text (dropWhile (\<lambda>b. b AND 0xC0 = 0x80) (drop (length buf - maxBytes) buf)))"

section \<open>Keeping the tail\<close>

fun tail_loop :: "(jsstring \<Rightarrow> nat) \<Rightarrow> (jsstring \<Rightarrow> nat \<Rightarrow> jsstring) \<Rightarrow> nat \<Rightarrow> nat \<Rightarrow> jsstring list \<Rightarrow> jsstring list \<Rightarrow> nat \<Rightarrow>
    jsstring list \<times> nat \<times> truncated_by \<times> bool" where
  "tail_loop bytes fromEnd maxLines maxBytes [] out count = (out, count, ByLines, False)"
| "tail_loop bytes fromEnd maxLines maxBytes (line # rest) out count =
     (if \<not> length out < maxLines then (out, count, ByLines, False)
      else let lineBytes = bytes line + (if length out > 0 then 1 else 0) in
        if count + lineBytes > maxBytes then
          (if length out = 0 then (let truncatedLine = fromEnd line maxBytes in ([truncatedLine], bytes truncatedLine, ByBytes, True))
           else (out, count, ByBytes, False))
        else tail_loop bytes fromEnd maxLines maxBytes rest (line # out) (count + lineBytes))"

definition truncate_tail :: "(jsstring \<Rightarrow> nat) \<Rightarrow> (jsstring \<Rightarrow> nat \<Rightarrow> jsstring) \<Rightarrow> jsstring \<Rightarrow> truncation_options \<Rightarrow> truncation_result" where
  "truncate_tail bytes fromEnd content options =
     (let maxLines = limit_or DEFAULT_MAX_LINES (to_maxLines options);
          maxBytes = limit_or DEFAULT_MAX_BYTES (to_maxBytes options);
          totalBytes = bytes content;
          lines = splitLinesForCounting content;
          totalLines = length lines
      in if totalLines \<le> maxLines \<and> totalBytes \<le> maxBytes then
           \<lparr>tr_content = content, tr_truncated = False, tr_truncatedBy = None, tr_totalLines = totalLines, tr_totalBytes = totalBytes,
             tr_outputLines = totalLines, tr_outputBytes = totalBytes, tr_lastLinePartial = False, tr_firstLineExceedsLimit = False,
             tr_maxLines = maxLines, tr_maxBytes = maxBytes\<rparr>
         else (case tail_loop bytes fromEnd maxLines maxBytes (rev lines) [] 0 of (out, count, by, partial) \<Rightarrow>
           let by' = (if length out \<ge> maxLines \<and> count \<le> maxBytes then ByLines else by);
               outputContent = join_lines out
           in \<lparr>tr_content = outputContent, tr_truncated = True, tr_truncatedBy = Some by', tr_totalLines = totalLines, tr_totalBytes = totalBytes,
             tr_outputLines = length out, tr_outputBytes = bytes outputContent, tr_lastLinePartial = partial, tr_firstLineExceedsLimit = False,
             tr_maxLines = maxLines, tr_maxBytes = maxBytes\<rparr>))"

definition truncateTail :: "bool \<Rightarrow> jsstring \<Rightarrow> truncation_options \<Rightarrow> truncation_result" where
  "truncateTail runtimeBuffer = truncate_tail (utf8ByteLength runtimeBuffer) truncateStringToBytesFromEnd"

definition coding_truncateTail :: "jsstring \<Rightarrow> truncation_options \<Rightarrow> truncation_result" where
  "coding_truncateTail = truncate_tail byteLength coding_truncateStringToBytesFromEnd"

definition truncateLine :: "jsstring \<Rightarrow> nat \<Rightarrow> jsstring \<times> bool" where
  "truncateLine line maxChars =
     (if length line \<le> maxChars then (line, False) else (take maxChars line @ js ''... [truncated]'', True))"

section \<open>Counting bytes\<close>

definition unit_bytes :: "16 word \<Rightarrow> nat" where
  "unit_bytes c = (if c \<le> 0x7F then 1 else if c \<le> 0x7FF then 2 else 3)"

text \<open>A pair of surrogates that would be cut between two parts of a text.\<close>

definition straddles :: "jsstring \<Rightarrow> jsstring \<Rightarrow> bool" where
  "straddles s t \<longleftrightarrow> s \<noteq> [] \<and> t \<noteq> [] \<and> is_lead (last s) \<and> is_trail (hd t)"

lemma utf8_point_length: "n < 0x10000 \<Longrightarrow> length (utf8_point n) = (if n < 0x80 then 1 else if n < 0x800 then 2 else 3)"
  "0x10000 \<le> n \<Longrightarrow> length (utf8_point n) = 4"
  by (simp_all add: utf8_point_def)

lemma unit_point: "length (utf8_point (if is_lead c \<or> is_trail c then 0xFFFD else unat c)) = unit_bytes c"
proof -
  have "unat c < 0x10000" using unsigned_less [of c] by simp
  then show ?thesis by (auto simp: utf8_point_length unit_bytes_def surrogate_range word_le_nat_alt not_le less_Suc_eq_le)
qed

lemma byteLength_simps [simp]:
  "byteLength [] = 0" "byteLength [c] = unit_bytes c"
  "byteLength (c # d # s) = (if is_lead c \<and> is_trail d then 4 + byteLength s else unit_bytes c + byteLength (d # s))"
  using unit_point by (simp_all add: byteLength_def utf8_encode_def utf8_point_length)

lemma unit_bytes_lead [simp]: "is_lead c \<Longrightarrow> unit_bytes c = 3" "is_trail c \<Longrightarrow> unit_bytes c = 3"
  by (simp_all add: unit_bytes_def surrogate_range word_le_nat_alt)

lemma count_units_byteLength: "count_units s = byteLength s"
proof (induction s rule: count_units.induct)
  case (3 c d s)
  have "\<not> is_lead c" if "c \<le> 0x7FF" using that by (auto simp: surrogate_range word_le_nat_alt)
  moreover have "c \<le> 0x7FF" if "c \<le> 0x7F" using that by (simp add: word_le_nat_alt)
  ultimately show ?case using 3 by (auto simp: unit_bytes_def)
qed (simp_all add: unit_bytes_def)

lemma byteLength_Cons: "\<not> (is_lead c \<and> s \<noteq> [] \<and> is_trail (hd s)) \<Longrightarrow> byteLength (c # s) = unit_bytes c + byteLength s"
  by (cases s) auto

lemma byteLength_ascii: "list_all (\<lambda>c. c \<le> 0x7F) s \<Longrightarrow> byteLength (s @ t) = length s + byteLength t"
proof (induction s)
  case (Cons c s)
  have "\<not> is_lead c" using Cons.prems by (auto simp: surrogate_range word_le_nat_alt)
  then show ?case using Cons by (simp add: byteLength_Cons unit_bytes_def)
qed simp

lemma utf8ByteLength_eq: "utf8ByteLength b s = byteLength s"
proof (cases b)
  case False
  let ?a = "takeWhile (\<lambda>c. c \<le> 0x7F) s"
  have ascii: "list_all (\<lambda>c. c \<le> 0x7F) ?a" by (auto simp: list_all_iff dest: set_takeWhileD)
  have whole: "?a @ drop (length ?a) s = s" using takeWhile_dropWhile_id [of "\<lambda>c. c \<le> 0x7F" s] by (simp only: dropWhile_eq_drop)
  have "byteLength s = length ?a + byteLength (drop (length ?a) s)" using byteLength_ascii [OF ascii, of "drop (length ?a) s"] unfolding whole .
  then show ?thesis using False by (auto simp: utf8ByteLength_def Let_def count_units_byteLength)
qed (simp add: utf8ByteLength_def)

lemma byteLength_append: "\<not> straddles s t \<Longrightarrow> byteLength (s @ t) = byteLength s + byteLength t"
proof (induction s rule: code_points.induct)
  case (2 c)
  then show ?case by (simp add: byteLength_Cons straddles_def)
next
  case (3 c d s)
  then show ?case by (cases "s = []") (auto simp: straddles_def)
qed simp

lemma newline_units [simp]: "\<not> is_lead 0x0A" "\<not> is_trail 0x0A" "unit_bytes 0x0A = 1"
  by (simp_all add: surrogate_range unit_bytes_def)

lemma byteLength_line: "byteLength (l @ 0x0A # s) = byteLength l + 1 + byteLength s"
  by (simp add: byteLength_append straddles_def byteLength_Cons)

lemma join_lines_snoc: "out \<noteq> [] \<Longrightarrow> join_lines (out @ [l]) = join_lines out @ 0x0A # l"
  by (induction out rule: join_lines.induct) auto

lemma join_lines_Cons: "out \<noteq> [] \<Longrightarrow> join_lines (l # out) = l @ 0x0A # join_lines out"
  by (cases out) auto

definition joint :: "jsstring list \<Rightarrow> nat" where
  "joint out = (if out \<noteq> [] then 1 else 0)"

lemma bytes_snoc: "byteLength (join_lines (out @ [l])) = byteLength (join_lines out) + (byteLength l + joint out)"
  by (cases "out = []") (simp_all add: join_lines_snoc byteLength_line joint_def)

lemma bytes_Cons: "byteLength (join_lines (l # out)) = byteLength (join_lines out) + (byteLength l + joint out)"
  by (cases "out = []") (simp_all add: join_lines_Cons byteLength_line joint_def)

lemma bytes_mono: "byteLength (join_lines xs) \<le> byteLength (join_lines (xs @ ys))" "byteLength (join_lines ys) \<le> byteLength (join_lines (xs @ ys))"
proof -
  show "byteLength (join_lines xs) \<le> byteLength (join_lines (xs @ ys))"
  proof (induction ys rule: rev_induct)
    case (snoc y ys)
    then show ?case using bytes_snoc [of "xs @ ys" y] by simp
  qed simp
  show "byteLength (join_lines ys) \<le> byteLength (join_lines (xs @ ys))"
  proof (induction xs)
    case (Cons x xs)
    then show ?case using bytes_Cons [of x "xs @ ys"] by simp
  qed simp
qed

section \<open>What the loops keep\<close>

lemma head_loop_take:
  assumes "head_loop byteLength maxLines maxBytes rest out count = (out', count', by)"
    and "count = byteLength (join_lines out)" "count \<le> maxBytes" "length out \<le> maxLines"
  shows "\<exists>k \<le> length rest. out' = out @ take k rest \<and> count' = byteLength (join_lines out') \<and> count' \<le> maxBytes \<and> length out' \<le> maxLines \<and>
    (k < length rest \<longrightarrow> length out' = maxLines \<or> by = ByBytes \<and> maxBytes < byteLength (join_lines (out' @ [rest ! k])))"
  using assms
proof (induction rest arbitrary: out count)
  case (Cons line rest)
  show ?case
  proof (cases "length out < maxLines \<and> count + (byteLength line + joint out) \<le> maxBytes")
    case True
    then have "head_loop byteLength maxLines maxBytes rest (out @ [line]) (count + (byteLength line + joint out)) = (out', count', by)"
      using Cons.prems(1) by (simp add: joint_def Let_def split: if_splits)
    from Cons.IH [OF this] obtain k where "k \<le> length rest" "out' = (out @ [line]) @ take k rest \<and> count' = byteLength (join_lines out') \<and> count' \<le> maxBytes \<and>
        length out' \<le> maxLines \<and> (k < length rest \<longrightarrow> length out' = maxLines \<or> by = ByBytes \<and> maxBytes < byteLength (join_lines (out' @ [rest ! k])))"
      using True Cons.prems(2) by (auto simp: bytes_snoc)
    then show ?thesis by (intro exI [of _ "Suc k"]) auto
  next
    case False
    then have "out' = out" "count' = count" "length out = maxLines \<or> by = ByBytes \<and> maxBytes < count + (byteLength line + joint out)"
      using Cons.prems(1,4) by (auto simp: joint_def Let_def split: if_splits)
    then show ?thesis using Cons.prems(2-4) by (intro exI [of _ 0]) (auto simp: bytes_snoc)
  qed
qed simp

lemma tail_loop_take:
  assumes "tail_loop byteLength fromEnd maxLines maxBytes rest out count = (out', count', by, partial)"
    and "count = byteLength (join_lines out)" "count \<le> maxBytes" "length out \<le> maxLines"
  shows "partial \<and> out = [] \<and> (\<exists>line rest'. rest = line # rest' \<and> maxBytes < byteLength line \<and> 0 < maxLines \<and> out' = [fromEnd line maxBytes]) \<or>
    \<not> partial \<and> (\<exists>k \<le> length rest. out' = rev (take k rest) @ out \<and> count' = byteLength (join_lines out') \<and> count' \<le> maxBytes \<and> length out' \<le> maxLines \<and>
      (k < length rest \<longrightarrow> length out' = maxLines \<or> out' \<noteq> [] \<and> maxBytes < byteLength (join_lines (rest ! k # out'))))"
  using assms
proof (induction rest arbitrary: out count)
  case (Cons line rest)
  show ?case
  proof (cases "length out < maxLines \<and> count + (byteLength line + joint out) \<le> maxBytes")
    case True
    then have "tail_loop byteLength fromEnd maxLines maxBytes rest (line # out) (count + (byteLength line + joint out)) = (out', count', by, partial)"
      using Cons.prems(1) by (simp add: joint_def Let_def split: if_splits)
    from Cons.IH [OF this] obtain k where "\<not> partial" "k \<le> length rest" "out' = rev (take k rest) @ line # out \<and> count' = byteLength (join_lines out') \<and> count' \<le> maxBytes \<and>
        length out' \<le> maxLines \<and> (k < length rest \<longrightarrow> length out' = maxLines \<or> out' \<noteq> [] \<and> maxBytes < byteLength (join_lines (rest ! k # out')))"
      using True Cons.prems(2) by (auto simp: bytes_Cons)
    then show ?thesis by (intro disjI2 conjI exI [of _ "Suc k"]) auto
  next
    case False
    then consider (partial) "out = []" "maxBytes < byteLength line" "0 < maxLines" "partial" "out' = [fromEnd line maxBytes]"
      | (stop) "out' = out" "count' = count" "\<not> partial" "length out = maxLines \<or> out \<noteq> [] \<and> maxBytes < count + (byteLength line + joint out)"
      using Cons.prems by (auto simp: joint_def Let_def split: if_splits)
    then show ?thesis
    proof cases
      case stop
      then show ?thesis using Cons.prems(2-4) by (intro disjI2 conjI exI [of _ 0]) (auto simp: bytes_Cons)
    qed simp
  qed
qed simp

section \<open>The end of a line\<close>

definition boundary :: "jsstring \<Rightarrow> nat \<Rightarrow> bool" where
  "boundary str i \<longleftrightarrow> i \<le> length str \<and> \<not> straddles (take i str) (drop i str)"

lemma straddles_at: "0 < i \<Longrightarrow> i < length str \<Longrightarrow> straddles (take i str) (drop i str) \<longleftrightarrow> is_lead (str ! (i - 1)) \<and> is_trail (str ! i)"
proof -
  assume i: "0 < i" "i < length str"
  then have "last (take i str) = str ! (i - 1)" by (subst last_conv_nth) auto
  then show ?thesis using i by (auto simp: straddles_def hd_drop_conv_nth)
qed

lemma lead_not_trail [simp]: "is_lead c \<Longrightarrow> \<not> is_trail c" "is_trail c \<Longrightarrow> \<not> is_lead c"
  by (auto simp: surrogate_range)

lemma boundary_iff: "boundary str i \<longleftrightarrow> i \<le> length str \<and> (0 < i \<longrightarrow> i < length str \<longrightarrow> \<not> (is_lead (str ! (i - 1)) \<and> is_trail (str ! i)))"
proof (cases "0 < i \<and> i < length str")
  case True
  then show ?thesis by (simp add: boundary_def straddles_at)
qed (auto simp: boundary_def straddles_def)

text \<open>The character before a boundary starts at a boundary; it has the bytes that are counted for it.\<close>

lemma character_before_step:
  assumes "boundary str i" "0 < i" "character_before str i = (j, n, unpaired)"
  shows "boundary str j" "j < i" "byteLength (drop j str) = n + byteLength (drop i str)"
    "well_formed (drop j str) \<longleftrightarrow> \<not> unpaired \<and> well_formed (drop i str)" "1 \<le> n" "n \<le> 4"
proof -
  let ?c = "str ! (i - 1)"
  have i: "i \<le> length str" "0 < i \<longrightarrow> i < length str \<longrightarrow> \<not> (is_lead ?c \<and> is_trail (str ! i))" using assms(1) by (simp_all add: boundary_iff)
  have one: "drop (i - 1) str = ?c # drop i str" using i(1) assms(2) Cons_nth_drop_Suc [of "i - 1" str] by simp
  have cut: "\<not> (is_lead ?c \<and> drop i str \<noteq> [] \<and> is_trail (hd (drop i str)))" using i assms(2) by (auto simp: hd_drop_conv_nth)
  have single: "byteLength (drop (i - 1) str) = unit_bytes ?c + byteLength (drop i str)"
    "well_formed (drop (i - 1) str) \<longleftrightarrow> \<not> is_lead ?c \<and> \<not> is_trail ?c \<and> well_formed (drop i str)"
    unfolding one using cut byteLength_Cons [of ?c "drop i str"] by (simp, cases "drop i str") auto
  have prev: "i - 1 - 1 = i - 2" "0 < i - 1 \<longleftrightarrow> 2 \<le> i" by auto
  have got: "(j, n, unpaired) = (if is_trail ?c \<and> 2 \<le> i then if is_lead (str ! (i - 2)) then (i - 2, 4, False) else (i - 1, 3, True)
      else if is_lead ?c \<or> is_trail ?c then (i - 1, 3, True) else (i - 1, unit_bytes ?c, False))"
    unfolding assms(3) [symmetric] character_before_def Let_def prev unit_bytes_def by (rule refl)
  consider (pair) "is_trail ?c" "2 \<le> i" "is_lead (str ! (i - 2))" "j = i - 2" "n = 4" "\<not> unpaired"
    | (lone) "is_trail ?c \<and> (2 \<le> i \<longrightarrow> \<not> is_lead (str ! (i - 2))) \<or> is_lead ?c" "j = i - 1" "n = 3" "unpaired"
    | (plain) "\<not> is_trail ?c" "\<not> is_lead ?c" "j = i - 1" "n = unit_bytes ?c" "\<not> unpaired"
    using got by (simp only: prod.inject split: if_splits) blast+
  then have "boundary str j \<and> j < i \<and> byteLength (drop j str) = n + byteLength (drop i str) \<and>
    (well_formed (drop j str) \<longleftrightarrow> \<not> unpaired \<and> well_formed (drop i str)) \<and> 1 \<le> n \<and> n \<le> 4"
  proof cases
    case pair
    have "Suc (i - 2) = i - 1" "i - 2 < length str" using pair(2) i(1) by simp_all
    then have "drop (i - 2) str = str ! (i - 2) # drop (i - 1) str" by (metis Cons_nth_drop_Suc)
    then have two: "drop (i - 2) str = str ! (i - 2) # ?c # drop i str" by (simp only: one)
    have "boundary str j" using pair i(1) by (auto simp: boundary_iff)
    then show ?thesis using pair two assms(2) by simp
  next
    case lone
    have "boundary str j" using lone i(1) unfolding boundary_iff lone(2) prev(1) by auto
    then show ?thesis using lone single assms(2) by auto
  next
    case plain
    have "boundary str j" using plain i(1) by (auto simp: boundary_iff)
    then show ?thesis using plain single assms(2) by (auto simp: unit_bytes_def)
  qed
  then show "boundary str j" "j < i" "byteLength (drop j str) = n + byteLength (drop i str)"
    "well_formed (drop j str) \<longleftrightarrow> \<not> unpaired \<and> well_formed (drop i str)" "1 \<le> n" "n \<le> 4" by blast+
qed

lemma from_end_loop_spec:
  assumes "boundary str i" "from_end_loop str maxBytes i count needs = (start, needs')" "count = byteLength (drop i str)" "count \<le> maxBytes"
    "needs \<longleftrightarrow> \<not> well_formed (drop i str)"
  shows "boundary str start \<and> byteLength (drop start str) \<le> maxBytes \<and> (needs' \<longleftrightarrow> \<not> well_formed (drop start str)) \<and>
    (0 < start \<longrightarrow> maxBytes < byteLength (drop (fst (character_before str start)) str))"
  using assms
proof (induction i arbitrary: count needs rule: less_induct)
  case (less i)
  show ?case
  proof (cases "i = 0")
    case True
    then show ?thesis using less.prems by (simp add: from_end_loop.simps [of str maxBytes 0])
  next
    case False
    obtain j n u where c: "character_before str i = (j, n, u)" by (metis prod_cases3)
    note step = character_before_step [OF less.prems(1) _ c]
    show ?thesis
    proof (cases "count + n > maxBytes")
      case True
      then show ?thesis using less.prems False c step(3) by (auto simp: from_end_loop.simps [of str maxBytes i])
    next
      case fits: False
      then have "from_end_loop str maxBytes j (count + n) (needs \<or> u) = (start, needs')"
        using less.prems(2) False c by (simp add: from_end_loop.simps [of str maxBytes i])
      moreover have "(needs \<or> u) \<longleftrightarrow> \<not> well_formed (drop j str)" using step(4) False less.prems(5) by blast
      ultimately show ?thesis using less.IH [of j "count + n" "needs \<or> u"] step(1-3) False fits less.prems(3) by simp
    qed
  qed
qed

lemma replace_well_formed: "well_formed (replaceUnpairedSurrogates s)" "well_formed s \<Longrightarrow> replaceUnpairedSurrogates s = s"
  "utf8_encode (replaceUnpairedSurrogates s) = utf8_encode s"
proof -
  have fffd: "\<not> is_lead 0xFFFD" "\<not> is_trail 0xFFFD" by (simp_all add: surrogate_range)
  have point: "\<not> is_lead c \<Longrightarrow> \<not> is_trail c \<Longrightarrow> code_points (c # s) = unat c # code_points s" for c s
    by (cases s) auto
  have keep: "\<not> is_lead c \<Longrightarrow> \<not> is_trail c \<Longrightarrow> well_formed (c # s) \<longleftrightarrow> well_formed s" for c s
    by (cases s) auto
  show "well_formed (replaceUnpairedSurrogates s)"
  proof (induction s rule: replaceUnpairedSurrogates.induct)
    case (3 c d s)
    show ?case
    proof (cases "is_lead c \<and> is_trail d")
      case True
      then show ?thesis using 3(1) by simp
    next
      case False
      then show ?thesis using 3(2) keep [of c] keep [of "0xFFFD"] fffd by (simp add: if_distrib)
    qed
  qed (simp_all add: fffd)
  show "well_formed s \<Longrightarrow> replaceUnpairedSurrogates s = s"
  proof (induction s rule: replaceUnpairedSurrogates.induct)
    case (3 c d s)
    then show ?case by (cases "is_lead c \<and> is_trail d") simp_all
  qed simp_all
  have "code_points (replaceUnpairedSurrogates s) = code_points s"
  proof (induction s rule: replaceUnpairedSurrogates.induct)
    case (3 c d s)
    show ?case
    proof (cases "is_lead c \<and> is_trail d")
      case True
      then show ?thesis using 3(1) by simp
    next
      case False
      then show ?thesis using 3(2) point [of c] point [of "0xFFFD"] fffd by (cases "is_lead c \<or> is_trail c") auto
    qed
  qed (simp_all add: fffd)
  then show "utf8_encode (replaceUnpairedSurrogates s) = utf8_encode s" by (simp add: utf8_encode_def)
qed

lemma buffer_text_encode: "buffer_text (utf8_encode s) = replaceUnpairedSurrogates s"
  using utf8_roundtrip [OF replace_well_formed(1), of s] by (simp add: buffer_text_def replace_well_formed(3))

text \<open>The agent keeps the longest end that starts at a character and fits.\<close>

lemma from_end_spec:
  "\<exists>start. boundary str start \<and> truncateStringToBytesFromEnd str maxBytes = replaceUnpairedSurrogates (drop start str) \<and>
    byteLength (drop start str) \<le> maxBytes \<and> (0 < start \<longrightarrow> maxBytes < byteLength (drop (fst (character_before str start)) str))"
proof -
  obtain start needs where loop: "from_end_loop str maxBytes (length str) 0 False = (start, needs)" by fastforce
  have spec: "boundary str start" "byteLength (drop start str) \<le> maxBytes" "needs \<longleftrightarrow> \<not> well_formed (drop start str)"
    "0 < start \<longrightarrow> maxBytes < byteLength (drop (fst (character_before str start)) str)"
    using from_end_loop_spec [OF _ loop] by (simp_all add: boundary_iff)
  moreover have "truncateStringToBytesFromEnd str maxBytes = replaceUnpairedSurrogates (drop start str)"
  proof (cases "maxBytes = 0")
    case True
    then have "drop start str = []" using spec(2) by (cases "drop start str" rule: count_units.cases) (auto simp: unit_bytes_def split: if_splits)
    then show ?thesis using True by (simp add: truncateStringToBytesFromEnd_def)
  next
    case False
    then show ?thesis using loop spec(3) replace_well_formed(2) [of "drop start str"] by (auto simp: truncateStringToBytesFromEnd_def Let_def)
  qed
  ultimately show ?thesis by blast
qed

lemma byteLength_replace: "byteLength (replaceUnpairedSurrogates s) = byteLength s"
  by (simp add: byteLength_def replace_well_formed(3))

section \<open>The buffer version\<close>

lemma mask_C0: "(b :: byte) AND 0xC0 = push_bit 6 (drop_bit 6 b)"
proof -
  have c: "(0xC0 :: byte) = push_bit 6 (mask 2)" by (simp add: mask_eq_exp_minus_1 push_bit_eq_mult)
  have "b AND push_bit 6 (mask 2) = push_bit 6 (drop_bit 6 b)" by (rule bit_eqI) (auto simp: bit_simps)
  then show ?thesis by (simp only: c)
qed

lemma continuation_bits: "(b :: byte) AND 0xC0 = 0x80 \<longleftrightarrow> 0x80 \<le> nat_of_byte b \<and> nat_of_byte b < 0xC0"
proof -
  have lt: "unat b < 256" using unsigned_less [of b] by simp
  have "unat (b AND 0xC0) = 64 * unat (b div 64) mod 256"
    by (simp add: mask_C0 push_bit_eq_mult drop_bit_eq_div unat_word_ariths mult.commute)
  moreover have "unat (b div 64) = unat b div 64" by (simp add: unat_div)
  ultimately have u: "unat (b AND 0xC0) = 64 * (unat b div 64)" using lt by simp
  have "b AND 0xC0 = 0x80 \<longleftrightarrow> unat (b AND 0xC0) = unat (0x80 :: byte)" by (rule word_unat_eq_iff)
  also have "\<dots> \<longleftrightarrow> 64 * (unat b div 64) = 128" unfolding u by simp
  also have "\<dots> \<longleftrightarrow> 128 \<le> unat b \<and> unat b < 192"
  proof -
    have "64 * q = 128 \<longleftrightarrow> 128 \<le> 64 * q + r \<and> 64 * q + r < 192" if "r < 64" for q r :: nat using that by (auto; linarith)
    from this [of "unat b mod 64" "unat b div 64"] show ?thesis by simp
  qed
  finally show ?thesis by (simp add: nat_of_byte_def)
qed

lemma continuation_tail: "n < 0x110000 \<Longrightarrow> list_all (\<lambda>b. b AND 0xC0 = 0x80) (tl (utf8_point n))"
proof -
  have tail: "(byte_of_nat (0x80 + k mod 64)) AND 0xC0 = 0x80" for k by (simp add: continuation_bits nat_of_byte_of_nat)
  then show "list_all (\<lambda>b. b AND 0xC0 = 0x80) (tl (utf8_point n))" by (simp add: utf8_point_def)
qed

lemma continuation_head: "n < 0x110000 \<Longrightarrow> utf8_point n \<noteq> [] \<and> hd (utf8_point n) AND 0xC0 \<noteq> 0x80"
proof -
  assume n: "n < 0x110000"
  consider "n < 0x80" | "0x80 \<le> n" "n < 0x800" | "0x800 \<le> n" "n < 0x10000" | "0x10000 \<le> n" by linarith
  then show ?thesis
  proof cases
    case 2
    then have "n div 64 < 32" by (simp add: less_mult_imp_div_less)
    then show ?thesis using 2 by (simp add: utf8_point_def continuation_bits nat_of_byte_of_nat)
  next
    case 3
    then have "n div 4096 < 16" by (simp add: less_mult_imp_div_less)
    then show ?thesis using 3 by (simp add: utf8_point_def continuation_bits nat_of_byte_of_nat)
  next
    case 4
    have "n div 262144 < 5" using n by (simp add: less_mult_imp_div_less)
    then show ?thesis using 4 by (simp add: utf8_point_def continuation_bits nat_of_byte_of_nat)
  qed (simp add: utf8_point_def continuation_bits nat_of_byte_of_nat)
qed

lemma code_points_bound: "list_all (\<lambda>n. n < 0x110000) (code_points s)"
proof (induction s rule: code_points.induct)
  case (2 c)
  have "unat c < 0x10000" using unsigned_less [of c] by simp
  then show ?case by simp
next
  case (3 c d s)
  have "unat c < 0x10000" using unsigned_less [of c] by simp
  moreover have "0x10000 + (unat c - 0xD800) * 0x400 + (unat d - 0xDC00) < 0x110000" if "is_lead c" "is_trail d"
  proof -
    have r: "unat c - 0xD800 \<le> 0x3FF" "unat d - 0xDC00 \<le> 0x3FF" using that unfolding surrogate_range by linarith+
    have "(unat c - 0xD800) * 0x400 \<le> 0x3FF * 0x400" by (rule mult_le_mono1 [OF r(1)])
    then show ?thesis using r(2) by simp
  qed
  ultimately show ?case using 3 by auto
qed simp

lemma code_points_append: "\<not> straddles s t \<Longrightarrow> code_points (s @ t) = code_points s @ code_points t"
proof (induction s rule: code_points.induct)
  case (2 c)
  then show ?case by (cases t) (auto simp: straddles_def)
next
  case (3 c d s)
  then show ?case by (cases "s = []") (auto simp: straddles_def)
qed simp

lemma encode_append: "\<not> straddles s t \<Longrightarrow> utf8_encode (s @ t) = utf8_encode s @ utf8_encode t"
  by (simp add: utf8_encode_def code_points_append)

lemma encode_head: "utf8_encode s \<noteq> [] \<Longrightarrow> hd (utf8_encode s) AND 0xC0 \<noteq> 0x80"
  using code_points_bound [of s] continuation_head by (cases "code_points s") (auto simp: utf8_encode_def)

lemma encode_single: "length (code_points s) = 1 \<Longrightarrow> list_all (\<lambda>b. b AND 0xC0 = 0x80) (tl (utf8_encode s))"
  using code_points_bound [of s] continuation_tail by (cases "code_points s") (auto simp: utf8_encode_def)

text \<open>Both versions cut a text that does not fit at the same character.\<close>

lemma character_points:
  assumes "boundary str i" "0 < i"
  shows "boundary str (fst (character_before str i))" "fst (character_before str i) < i"
    "length (code_points (take (i - fst (character_before str i)) (drop (fst (character_before str i)) str))) = 1"
    "\<not> straddles (take (i - fst (character_before str i)) (drop (fst (character_before str i)) str)) (drop i str)"
proof -
  obtain j n u where c: "character_before str i = (j, n, u)" by (metis prod_cases3)
  note step = character_before_step [OF assms c]
  show "boundary str (fst (character_before str i))" "fst (character_before str i) < i" using step c by simp_all
  have i: "i \<le> length str" using assms(1) by (simp add: boundary_def)
  have "j = i - 1 \<or> j = i - 2 \<and> 2 \<le> i \<and> is_lead (str ! (i - 2)) \<and> is_trail (str ! (i - 1))"
    using c unfolding character_before_def Let_def by (auto split: if_splits simp: numeral_2_eq_2)
  then consider (one) "i = Suc j" | (two) "i = Suc (Suc j)" "is_lead (str ! j)" "is_trail (str ! Suc j)"
    using assms(2) by (metis Suc_diff_Suc Suc_pred diff_Suc_1 numeral_2_eq_2 diff_diff_cancel Suc_diff_le le_add_diff_inverse2 add_2_eq_Suc')
  then have part: "take (i - j) (drop j str) = [str ! j] \<or> take (i - j) (drop j str) = [str ! j, str ! Suc j] \<and> is_lead (str ! j) \<and> is_trail (str ! Suc j)"
  proof cases
    case one
    then show ?thesis using i by (simp add: take_Suc_conv_app_nth)
  next
    case two
    then have "drop j str = str ! j # str ! Suc j # drop i str" using i by (metis Cons_nth_drop_Suc Suc_le_lessD Suc_lessD)
    then show ?thesis using two by simp
  qed
  then show "length (code_points (take (i - fst (character_before str i)) (drop (fst (character_before str i)) str))) = 1" using c by auto
  have "take j str @ take (i - j) (drop j str) = take i str" using step(2) by (metis le_add_diff_inverse less_imp_le_nat take_add)
  then have "last (take (i - j) (drop j str)) = last (take i str)" using part by (metis last_appendR list.distinct(1))
  then show "\<not> straddles (take (i - fst (character_before str i)) (drop (fst (character_before str i)) str)) (drop i str)"
    using assms c by (auto simp: boundary_def straddles_def)
qed

lemma coding_from_end:
  assumes "maxBytes < byteLength str"
  shows "coding_truncateStringToBytesFromEnd str maxBytes = truncateStringToBytesFromEnd str maxBytes"
proof -
  obtain i where i: "boundary str i" "truncateStringToBytesFromEnd str maxBytes = replaceUnpairedSurrogates (drop i str)"
    "byteLength (drop i str) \<le> maxBytes" "0 < i \<longrightarrow> maxBytes < byteLength (drop (fst (character_before str i)) str)"
    using from_end_spec by blast
  have pos: "0 < i" using i(3) assms by (cases i) auto
  define j where "j = fst (character_before str i)"
  note cp = character_points [OF i(1) pos, folded j_def]
  let ?p = "utf8_encode (take (i - j) (drop j str))" and ?rest = "utf8_encode (drop i str)"
  have "drop j str = take (i - j) (drop j str) @ drop i str" using cp(2) by (metis append_take_drop_id drop_drop le_add_diff_inverse2 less_imp_le_nat)
  then have split: "utf8_encode (drop j str) = ?p @ ?rest" using encode_append [OF cp(4)] by simp
  have whole: "utf8_encode str = utf8_encode (take j str) @ ?p @ ?rest"
    using encode_append [of "take j str" "drop j str"] cp(1) split by (simp add: boundary_def)
  have len: "length ?rest \<le> maxBytes" "maxBytes < length ?p + length ?rest" using i(3,4) pos split by (simp_all add: byteLength_def flip: j_def)
  define r where "r = length ?p + length ?rest - maxBytes"
  have r: "1 \<le> r" "r \<le> length ?p" "length (utf8_encode str) - maxBytes = length (utf8_encode (take j str)) + r"
    using len whole by (simp_all add: r_def)
  have "drop (length (utf8_encode str) - maxBytes) (utf8_encode str) = drop r ?p @ ?rest" using r(2) unfolding r(3) by (simp add: whole)
  moreover have "list_all (\<lambda>b. b AND 0xC0 = 0x80) (drop r ?p)"
  proof -
    have "drop r ?p = drop (r - 1) (tl ?p)" using r(1) by (cases r) (simp_all add: drop_Suc)
    then show ?thesis using encode_single [OF cp(3)] by (auto simp: list_all_iff dest: in_set_dropD)
  qed
  then have "dropWhile (\<lambda>b. b AND 0xC0 = 0x80) (drop r ?p @ ?rest) = dropWhile (\<lambda>b. b AND 0xC0 = 0x80) ?rest"
    by (intro dropWhile_append2) (auto simp: list_all_iff)
  moreover have "dropWhile (\<lambda>b. b AND 0xC0 = 0x80) ?rest = ?rest" using encode_head [of "drop i str"] by (cases ?rest) auto
  ultimately show ?thesis using assms i(2) by (simp add: coding_truncateStringToBytesFromEnd_def Let_def byteLength_def buffer_text_encode)
qed

lemma tail_loop_cong:
  assumes "\<And>line. maxBytes < byteLength line \<Longrightarrow> f line maxBytes = g line maxBytes" "count = 0 \<or> out \<noteq> []"
  shows "tail_loop byteLength f maxLines maxBytes rest out count = tail_loop byteLength g maxLines maxBytes rest out count"
  using assms(2) by (induction rest arbitrary: out count) (auto simp: Let_def assms(1))

section \<open>The longest head and tail that fit\<close>

definition fits :: "nat \<Rightarrow> nat \<Rightarrow> (nat \<Rightarrow> jsstring list) \<Rightarrow> nat \<Rightarrow> bool" where
  "fits maxLines maxBytes part k \<longleftrightarrow> k \<le> maxLines \<and> byteLength (join_lines (part k)) \<le> maxBytes"

definition head_lines :: "jsstring list \<Rightarrow> nat \<Rightarrow> jsstring list" where
  "head_lines lines k = take k lines"

definition tail_lines :: "jsstring list \<Rightarrow> nat \<Rightarrow> jsstring list" where
  "tail_lines lines k = drop (length lines - k) lines"

definition longest :: "nat \<Rightarrow> nat \<Rightarrow> (jsstring list \<Rightarrow> nat \<Rightarrow> jsstring list) \<Rightarrow> jsstring list \<Rightarrow> nat" where
  "longest maxLines maxBytes part lines = Max {k. k \<le> length lines \<and> fits maxLines maxBytes (part lines) k}"

lemma longest_eq:
  assumes "k \<le> length lines" "fits maxLines maxBytes (part lines) k"
    and "\<And>m. k < m \<Longrightarrow> m \<le> length lines \<Longrightarrow> m \<le> maxLines \<Longrightarrow> maxBytes < byteLength (join_lines (part lines m))"
  shows "longest maxLines maxBytes part lines = k"
  unfolding longest_def
proof (rule Max_eqI)
  show "finite {k. k \<le> length lines \<and> fits maxLines maxBytes (part lines) k}" by simp
  show "m \<le> k" if "m \<in> {k. k \<le> length lines \<and> fits maxLines maxBytes (part lines) k}" for m
    using that assms(3) [of m] by (auto simp: fits_def not_less [symmetric])
qed (use assms in simp)

lemma take_more: "k < m \<Longrightarrow> m \<le> length xs \<Longrightarrow> take m xs = (take k xs @ [xs ! k]) @ drop (Suc k) (take m xs)"
proof -
  assume km: "k < m" "m \<le> length xs"
  have "take (Suc k) (take m xs) = take k xs @ [xs ! k]" using km by (simp add: min_def take_Suc_conv_app_nth)
  then show ?thesis by (metis append_take_drop_id)
qed

lemma head_more: "k < m \<Longrightarrow> m \<le> length lines \<Longrightarrow> byteLength (join_lines (take k lines @ [lines ! k])) \<le> byteLength (join_lines (take m lines))"
proof -
  assume km: "k < m" "m \<le> length lines"
  then have "take m lines = (take k lines @ [lines ! k]) @ drop (Suc k) (take m lines)" by (rule take_more)
  then show ?thesis using bytes_mono(1) [of "take k lines @ [lines ! k]" "drop (Suc k) (take m lines)"] by argo
qed

lemma tail_more:
  assumes "k < m" "m \<le> length lines"
  shows "byteLength (join_lines (rev lines ! k # rev (take k (rev lines)))) \<le> byteLength (join_lines (drop (length lines - m) lines))"
proof -
  have tail: "drop (length lines - m) lines = rev (take m (rev lines))" by (simp add: take_rev)
  have "take m (rev lines) = (take k (rev lines) @ [rev lines ! k]) @ drop (Suc k) (take m (rev lines))"
    by (rule take_more) (use assms in simp_all)
  then have "rev (take m (rev lines)) = rev ((take k (rev lines) @ [rev lines ! k]) @ drop (Suc k) (take m (rev lines)))" by (rule arg_cong)
  then have parts: "rev (take m (rev lines)) = rev (drop (Suc k) (take m (rev lines))) @ rev lines ! k # rev (take k (rev lines))"
    by (simp only: rev_append rev.simps append_assoc append_Cons append_Nil)
  show ?thesis unfolding tail parts by (rule bytes_mono(2))
qed

lemma truncated_lines: "lines = splitLinesForCounting content \<Longrightarrow> \<not> (length lines \<le> maxLines \<and> byteLength content \<le> maxBytes) \<Longrightarrow> lines \<noteq> []"
proof -
  assume l: "lines = splitLinesForCounting content" "\<not> (length lines \<le> maxLines \<and> byteLength content \<le> maxBytes)"
  have ne: "split_lines s \<noteq> []" for s by (induction s) (auto split: list.splits)
  have two: "length (split_lines s) \<ge> 2" if "s \<noteq> []" "last s = 0x0A" for s using that
  proof (induction s)
    case (Cons c s)
    then show ?case using ne [of s] by (cases "s = []") (auto split: list.splits simp: neq_Nil_conv)
  qed simp
  have "content \<noteq> []" using l by (auto simp: splitLinesForCounting_def)
  then show "lines \<noteq> []" using l(1) ne [of content] two [of content] by (cases "split_lines content") (auto simp: splitLinesForCounting_def split: if_splits)
qed

lemma head_loop_longest:
  assumes "head_loop byteLength maxLines maxBytes lines [] 0 = (out, count, by)"
  shows "longest maxLines maxBytes head_lines lines = length out \<and> out = head_lines lines (length out) \<and> length out \<le> maxLines \<and> byteLength (join_lines out) \<le> maxBytes"
proof -
  have "0 = byteLength (join_lines [])" "0 \<le> maxBytes" "length ([] :: jsstring list) \<le> maxLines" by simp_all
  from head_loop_take [OF assms this, unfolded append_Nil]
  obtain k where k: "k \<le> length lines" "out = take k lines" "byteLength (join_lines out) \<le> maxBytes" "length out \<le> maxLines"
    "k < length lines \<longrightarrow> length out = maxLines \<or> by = ByBytes \<and> maxBytes < byteLength (join_lines (out @ [lines ! k]))"
    by blast
  have len: "length out = k" using k by simp
  have "longest maxLines maxBytes head_lines lines = k"
  proof (rule longest_eq)
    show "maxBytes < byteLength (join_lines (head_lines lines m))" if "k < m" "m \<le> length lines" "m \<le> maxLines" for m
      using k(2,5) that len head_more [OF that(1,2)] by (simp add: head_lines_def)
  qed (use k len in \<open>simp_all add: fits_def head_lines_def\<close>)
  then show ?thesis using k len by (simp add: head_lines_def)
qed

lemma tail_loop_longest:
  assumes "tail_loop byteLength fromEnd maxLines maxBytes (rev lines) [] 0 = (out, count, by, partial)" "lines \<noteq> []"
  shows "if partial then maxBytes < byteLength (last lines) \<and> 0 < maxLines \<and> out = [fromEnd (last lines) maxBytes]
    else longest maxLines maxBytes tail_lines lines = length out \<and> out = tail_lines lines (length out) \<and> length out \<le> maxLines \<and> byteLength (join_lines out) \<le> maxBytes"
proof -
  have "0 = byteLength (join_lines [])" "0 \<le> maxBytes" "length ([] :: jsstring list) \<le> maxLines" by simp_all
  note took = tail_loop_take [OF assms(1) this, unfolded append_Nil2 length_rev]
  show ?thesis
proof (cases partial)
  case True
  then obtain line rest' where "rev lines = line # rest'" "maxBytes < byteLength line" "0 < maxLines" "out = [fromEnd line maxBytes]"
    using took by blast
  then show ?thesis using True by (metis last_rev list.sel(1) rev_rev_ident)
next
  case False
  then obtain k where k: "k \<le> length lines" "out = rev (take k (rev lines))" "byteLength (join_lines out) \<le> maxBytes" "length out \<le> maxLines"
    "k < length lines \<longrightarrow> length out = maxLines \<or> maxBytes < byteLength (join_lines (rev lines ! k # out))"
    using took by blast
  have len: "length out = k" "out = tail_lines lines k" using k by (simp_all add: tail_lines_def take_rev)
  have "longest maxLines maxBytes tail_lines lines = k"
  proof (rule longest_eq)
    show "maxBytes < byteLength (join_lines (tail_lines lines m))" if "k < m" "m \<le> length lines" "m \<le> maxLines" for m
      using k(2,5) that len(1) tail_more [OF that(1,2)] by (simp add: tail_lines_def)
  qed (use k len in \<open>simp_all add: fits_def\<close>)
  then show ?thesis using False k len by simp
qed
qed

definition max_lines :: "truncation_options \<Rightarrow> nat" where
  "max_lines options = limit_or DEFAULT_MAX_LINES (to_maxLines options)"

definition max_bytes :: "truncation_options \<Rightarrow> nat" where
  "max_bytes options = limit_or DEFAULT_MAX_BYTES (to_maxBytes options)"

definition within_limits :: "jsstring \<Rightarrow> truncation_options \<Rightarrow> bool" where
  "within_limits content options \<longleftrightarrow> length (splitLinesForCounting content) \<le> max_lines options \<and> byteLength content \<le> max_bytes options"

lemma longest_zero:
  assumes "lines \<noteq> []" "maxBytes < byteLength (hd lines)"
  shows "longest maxLines maxBytes head_lines lines = 0"
proof (rule longest_eq)
  show "maxBytes < byteLength (join_lines (head_lines lines m))" if "0 < m" "m \<le> length lines" for m
    using head_more [OF that] assms by (simp add: head_lines_def hd_conv_nth)
qed (simp_all add: fits_def head_lines_def)

lemma truncate_head_longest:
  "tr_truncated (truncate_head byteLength content options) \<longleftrightarrow> \<not> within_limits content options"
  "tr_content (truncate_head byteLength content options) =
     (if within_limits content options then content
      else join_lines (head_lines (splitLinesForCounting content)
        (longest (max_lines options) (max_bytes options) head_lines (splitLinesForCounting content))))"
  "byteLength (tr_content (truncate_head byteLength content options)) \<le> max_bytes options"
  "tr_outputBytes (truncate_head byteLength content options) = byteLength (tr_content (truncate_head byteLength content options))"
  "tr_outputLines (truncate_head byteLength content options) \<le> max_lines options"
proof -
  let ?lines = "splitLinesForCounting content"
  obtain out count reason where loop: "head_loop byteLength (max_lines options) (max_bytes options) ?lines [] 0 = (out, count, reason)" by (metis prod_cases3)
  note l = head_loop_longest [OF loop]
  have zero: "longest (max_lines options) (max_bytes options) head_lines ?lines = 0" if "\<not> within_limits content options" "max_bytes options < byteLength (hd ?lines)"
    using longest_zero [OF truncated_lines [OF refl] that(2)] that(1) by (simp add: within_limits_def)
  have head: "truncate_head byteLength content options = (if within_limits content options then
        \<lparr>tr_content = content, tr_truncated = False, tr_truncatedBy = None, tr_totalLines = length ?lines, tr_totalBytes = byteLength content,
          tr_outputLines = length ?lines, tr_outputBytes = byteLength content, tr_lastLinePartial = False, tr_firstLineExceedsLimit = False,
          tr_maxLines = max_lines options, tr_maxBytes = max_bytes options\<rparr>
      else if max_bytes options < byteLength (hd ?lines) then
        \<lparr>tr_content = [], tr_truncated = True, tr_truncatedBy = Some ByBytes, tr_totalLines = length ?lines, tr_totalBytes = byteLength content,
          tr_outputLines = 0, tr_outputBytes = 0, tr_lastLinePartial = False, tr_firstLineExceedsLimit = True,
          tr_maxLines = max_lines options, tr_maxBytes = max_bytes options\<rparr>
      else
        \<lparr>tr_content = join_lines out, tr_truncated = True, tr_truncatedBy = Some (if max_lines options \<le> length out \<and> count \<le> max_bytes options then ByLines else reason),
          tr_totalLines = length ?lines, tr_totalBytes = byteLength content, tr_outputLines = length out, tr_outputBytes = byteLength (join_lines out),
          tr_lastLinePartial = False, tr_firstLineExceedsLimit = False, tr_maxLines = max_lines options, tr_maxBytes = max_bytes options\<rparr>)"
    unfolding truncate_head_def Let_def within_limits_def using loop by (simp add: max_lines_def max_bytes_def)
  show "tr_truncated (truncate_head byteLength content options) \<longleftrightarrow> \<not> within_limits content options" by (simp add: head)
  show "tr_content (truncate_head byteLength content options) = (if within_limits content options then content
      else join_lines (head_lines ?lines (longest (max_lines options) (max_bytes options) head_lines ?lines)))"
    using l zero by (simp add: head head_lines_def)
  show "byteLength (tr_content (truncate_head byteLength content options)) \<le> max_bytes options" using l by (simp add: head within_limits_def)
  show "tr_outputBytes (truncate_head byteLength content options) = byteLength (tr_content (truncate_head byteLength content options))" by (simp add: head)
  show "tr_outputLines (truncate_head byteLength content options) \<le> max_lines options" using l by (simp add: head within_limits_def)
qed

definition cuts_last_line :: "jsstring \<Rightarrow> truncation_options \<Rightarrow> bool" where
  "cuts_last_line content options \<longleftrightarrow> \<not> within_limits content options \<and> 0 < max_lines options \<and>
     max_bytes options < byteLength (last (splitLinesForCounting content))"

lemma tail_partial:
  "lines \<noteq> [] \<Longrightarrow> 0 < maxLines \<Longrightarrow> maxBytes < byteLength (last lines) \<Longrightarrow>
    tail_loop byteLength fromEnd maxLines maxBytes (rev lines) [] 0 = ([fromEnd (last lines) maxBytes], byteLength (fromEnd (last lines) maxBytes), ByBytes, True)"
  by (cases lines rule: rev_cases) (simp_all add: Let_def)

lemma truncate_tail_longest:
  fixes fromEnd content options
  defines "r \<equiv> truncate_tail byteLength fromEnd content options" and "lines \<equiv> splitLinesForCounting content"
  shows "tr_truncated r \<longleftrightarrow> \<not> within_limits content options" "tr_lastLinePartial r \<longleftrightarrow> cuts_last_line content options"
    "tr_content r = (if within_limits content options then content
       else if cuts_last_line content options then fromEnd (last lines) (max_bytes options)
       else join_lines (tail_lines lines (longest (max_lines options) (max_bytes options) tail_lines lines)))"
    "tr_outputBytes r = byteLength (tr_content r)" "tr_outputLines r \<le> max_lines options"
    "\<not> cuts_last_line content options \<Longrightarrow> byteLength (tr_content r) \<le> max_bytes options"
proof -
  obtain out count reason partial where loop: "tail_loop byteLength fromEnd (max_lines options) (max_bytes options) (rev lines) [] 0 = (out, count, reason, partial)"
    by (metis prod_cases4)
  have r: "r = (if within_limits content options then
        \<lparr>tr_content = content, tr_truncated = False, tr_truncatedBy = None, tr_totalLines = length lines, tr_totalBytes = byteLength content,
          tr_outputLines = length lines, tr_outputBytes = byteLength content, tr_lastLinePartial = False, tr_firstLineExceedsLimit = False,
          tr_maxLines = max_lines options, tr_maxBytes = max_bytes options\<rparr>
      else
        \<lparr>tr_content = join_lines out, tr_truncated = True, tr_truncatedBy = Some (if max_lines options \<le> length out \<and> count \<le> max_bytes options then ByLines else reason),
          tr_totalLines = length lines, tr_totalBytes = byteLength content, tr_outputLines = length out, tr_outputBytes = byteLength (join_lines out),
          tr_lastLinePartial = partial, tr_firstLineExceedsLimit = False, tr_maxLines = max_lines options, tr_maxBytes = max_bytes options\<rparr>)"
    unfolding r_def truncate_tail_def Let_def within_limits_def using loop by (simp add: max_lines_def max_bytes_def lines_def)
  have ne: "lines \<noteq> []" if "\<not> within_limits content options" using truncated_lines [OF lines_def [THEN meta_eq_to_obj_eq]] that unfolding within_limits_def lines_def by blast
  have part: "partial \<longleftrightarrow> cuts_last_line content options" if "\<not> within_limits content options"
    using tail_loop_longest [OF loop ne [OF that]] tail_partial [OF ne [OF that], of "max_lines options" "max_bytes options" fromEnd] loop that
    by (auto simp: cuts_last_line_def lines_def split: if_splits)
  note l = tail_loop_longest [OF loop ne]
  show "tr_truncated r \<longleftrightarrow> \<not> within_limits content options" by (simp add: r)
  show "tr_lastLinePartial r \<longleftrightarrow> cuts_last_line content options" using part by (auto simp: r cuts_last_line_def)
  show "tr_content r = (if within_limits content options then content
       else if cuts_last_line content options then fromEnd (last lines) (max_bytes options)
       else join_lines (tail_lines lines (longest (max_lines options) (max_bytes options) tail_lines lines)))"
    using l part by (auto simp: r split: if_splits)
  show "tr_outputBytes r = byteLength (tr_content r)" by (simp add: r)
  show "tr_outputLines r \<le> max_lines options" using l part by (auto simp: r within_limits_def lines_def split: if_splits)
  show "\<not> cuts_last_line content options \<Longrightarrow> byteLength (tr_content r) \<le> max_bytes options"
    using l part by (auto simp: r within_limits_def split: if_splits)
qed

lemma coding_tail: "coding_truncateTail content options = truncate_tail byteLength truncateStringToBytesFromEnd content options"
proof -
  have "tail_loop byteLength coding_truncateStringToBytesFromEnd maxLines maxBytes rest [] 0 =
      tail_loop byteLength truncateStringToBytesFromEnd maxLines maxBytes rest [] 0" for maxLines maxBytes rest
    by (rule tail_loop_cong) (simp_all add: coding_from_end)
  then show ?thesis by (simp add: coding_truncateTail_def truncate_tail_def Let_def)
qed

lemma agent_bytes: "utf8ByteLength b = byteLength"
  by (simp add: fun_eq_iff utf8ByteLength_eq)

section \<open>Properties\<close>



text \<open>
  C36. The two implementations agree: for every text and all limits, the version of the agent package, with or without a runtime
  buffer, and the version of the coding agent, which searches a byte buffer for the start of a character, return the same
  result for the head and for the tail.
\<close>

theorem truncation_versions_agree:
  "truncateHead b content options = coding_truncateHead content options \<and> truncateTail b content options = coding_truncateTail content options"
  by (simp add: truncateHead_def coding_truncateHead_def truncateTail_def coding_tail agent_bytes)

section \<open>A report that names the wrong limit\<close>

text \<open>
  A text of one line that exceeds the limit of bytes only by its final newline is reported as truncated by the limit of lines,
  although it has fewer lines than that limit.
\<close>

lemma trailing_newline_by_lines:
  "tr_truncatedBy (truncateHead True [0x61, 0x0A] \<lparr>to_maxLines = Some 2000, to_maxBytes = Some 1\<rparr>) = Some ByLines \<and>
   tr_totalLines (truncateHead True [0x61, 0x0A] \<lparr>to_maxLines = Some 2000, to_maxBytes = Some 1\<rparr>) = 1"
  by code_simp

end
