(* ===== verification/SessionState.thy ===== *)
theory SessionState
  imports KeyText
begin

text \<open>
  The materialized state of a session of the agent harness, from \<^verbatim>\<open>packages/agent/src/harness/session\<close>:
  the entries, values and writes of \<^verbatim>\<open>types.ts\<close> and \<^verbatim>\<open>values.ts\<close>, the preparation and validation of a commit
  of \<^verbatim>\<open>commit.ts\<close>, the choice of what a fork copies of \<^verbatim>\<open>fork-policy.ts\<close>, and the class \<^verbatim>\<open>InMemoryStorageState\<close>
  of \<^verbatim>\<open>in-memory-storage-state.ts\<close>, which the memory and the JSONL storages share. The numbers of a usage are of any type
  with a zero and an addition, so nothing is assumed of the rounding of costs. Sequence numbers are natural numbers.
\<close>

section \<open>Usage\<close>

record 'n usage_cost =
  cost_input :: 'n
  cost_output :: 'n
  cost_cacheRead :: 'n
  cost_cacheWrite :: 'n
  cost_total :: 'n

record 'n usage =
  us_input :: 'n
  us_output :: 'n
  us_cacheRead :: 'n
  us_cacheWrite :: 'n
  us_cacheWrite1h :: "'n option"
  us_reasoning :: "'n option"
  us_totalTokens :: 'n
  us_cost :: "'n usage_cost"

definition emptyUsage :: "'n::zero usage" where
  "emptyUsage = \<lparr>us_input = 0, us_output = 0, us_cacheRead = 0, us_cacheWrite = 0, us_cacheWrite1h = None, us_reasoning = None,
     us_totalTokens = 0, us_cost = \<lparr>cost_input = 0, cost_output = 0, cost_cacheRead = 0, cost_cacheWrite = 0, cost_total = 0\<rparr>\<rparr>"

definition add_optional :: "'n::{zero, plus} option \<Rightarrow> 'n option \<Rightarrow> 'n option" where
  "add_optional left right =
     (if left = None \<and> right = None then None
      else Some ((case left of None \<Rightarrow> 0 | Some n \<Rightarrow> n) + (case right of None \<Rightarrow> 0 | Some n \<Rightarrow> n)))"

definition addUsage :: "'n::{zero, plus} usage \<Rightarrow> 'n usage \<Rightarrow> 'n usage" where
  "addUsage left right =
     \<lparr>us_input = us_input left + us_input right,
      us_output = us_output left + us_output right,
      us_cacheRead = us_cacheRead left + us_cacheRead right,
      us_cacheWrite = us_cacheWrite left + us_cacheWrite right,
      us_cacheWrite1h = add_optional (us_cacheWrite1h left) (us_cacheWrite1h right),
      us_reasoning = add_optional (us_reasoning left) (us_reasoning right),
      us_totalTokens = us_totalTokens left + us_totalTokens right,
      us_cost =
        \<lparr>cost_input = cost_input (us_cost left) + cost_input (us_cost right),
         cost_output = cost_output (us_cost left) + cost_output (us_cost right),
         cost_cacheRead = cost_cacheRead (us_cost left) + cost_cacheRead (us_cost right),
         cost_cacheWrite = cost_cacheWrite (us_cost left) + cost_cacheWrite (us_cost right),
         cost_total = cost_total (us_cost left) + cost_total (us_cost right)\<rparr>\<rparr>"

section \<open>Entries, rows and writes\<close>

datatype entry_type = MessageType | CompactionType | BranchSummaryType | CustomType

text \<open>
  What the four kinds of entries have beside the common fields: a message and whether it terminates; a compaction with its summary,
  retained tail, tokens before, details, usage and whether it comes from a hook; the summary of a branch with the entry it comes from;
  the data of a custom entry. A message is the Json object it is at run time.
\<close>

datatype 'n entry_body =
    MessageBody json bool
  | CompactionBody jsstring "json list" 'n "json option" "'n usage option" bool
  | BranchSummaryBody "jsstring option" jsstring "json option" "'n usage option" bool
  | CustomBody "json option"

record 'n new_entry =
  ent_id :: jsstring
  ent_parentId :: "jsstring option"
  ent_customType :: "jsstring option"
  ent_body :: "'n entry_body"

record 'n entry = "'n new_entry" +
  ent_seq :: nat
  ent_timestamp :: nat

definition ent_type :: "('n, 'z) new_entry_scheme \<Rightarrow> entry_type" where
  "ent_type e = (case ent_body e of
      MessageBody _ _ \<Rightarrow> MessageType
    | CompactionBody _ _ _ _ _ _ \<Rightarrow> CompactionType
    | BranchSummaryBody _ _ _ _ _ \<Rightarrow> BranchSummaryType
    | CustomBody _ \<Rightarrow> CustomType)"

record 'n new_usage_row =
  ur_id :: jsstring
  ur_usage :: "'n usage"
  ur_entryId :: "jsstring option"
  ur_adjustment :: bool
  ur_details :: "json option"

record 'n usage_row = "'n new_usage_row" +
  ur_seq :: nat

record 'n session_stats =
  sst_messageCount :: nat
  sst_usage :: "'n usage"

record value_address =
  va_namespace :: jsstring
  va_key :: jsstring

record stored_value =
  sv_address :: value_address
  sv_value :: json
  sv_seq :: nat

record list_element =
  le_seq :: nat
  le_value :: json

record stored_list =
  sl_address :: value_address
  sl_elements :: "list_element list"

datatype 'n session_write =
    EntryWrite "'n new_entry"
  | UsageWrite "'n new_usage_row"
  | ValueSetWrite jsstring jsstring json
  | ValueDeleteWrite jsstring jsstring
  | ListAppendWrite jsstring jsstring json
  | ListDeleteWrite jsstring jsstring

text \<open>The writes that set current state, and that a fork projects: the fields of the set of a value and of the append to a list.\<close>

record current_write =
  cw_seq :: nat
  cw_namespace :: jsstring
  cw_key :: jsstring
  cw_value :: json

datatype value_kind = KindValue | KindList

datatype 'n committed_write =
    CommittedEntry "'n entry"
  | CommittedUsage "'n usage_row"
  | CommittedCurrent value_kind current_write
  | CommittedDelete value_kind nat jsstring jsstring

datatype session_error =
    EmptyNamespace
  | NamespaceHasNul
  | KeyHasNul
  | NonMonotonicSequence nat
  | DuplicateId jsstring
  | MissingParent jsstring
  | UnknownBranchStart jsstring
  | CorruptBranch
  | UnknownSourceBranch jsstring
  | CorruptSourceBranch
  | ForkEntryNotOnBranch "jsstring option"
  | UnknownReservedNamespace jsstring
  | NotAConfiguredLane jsstring
  | InvalidHighWaterMark jsnum
  | InvalidListLimit

section \<open>Addresses\<close>

definition validateAddress :: "jsstring \<Rightarrow> jsstring \<Rightarrow> (session_error, unit) result" where
  "validateAddress namespace key =
     (if namespace = [] then Inl EmptyNamespace
      else if 0 \<in> set namespace then Inl NamespaceHasNul
      else if 0 \<in> set key then Inl KeyHasNul
      else Inr ())"

text \<open>Both \<^verbatim>\<open>value\<close> and \<^verbatim>\<open>list\<close>: the address, or the error of its validation.\<close>

definition make_address :: "jsstring \<Rightarrow> jsstring \<Rightarrow> (session_error, value_address) result" where
  "make_address namespace key =
     rbind (validateAddress namespace key) (\<lambda>_. Inr \<lparr>va_namespace = namespace, va_key = key\<rparr>)"

definition setValue :: "value_address \<Rightarrow> json \<Rightarrow> 'n session_write" where
  "setValue address v = ValueSetWrite (va_namespace address) (va_key address) v"

definition deleteValue :: "value_address \<Rightarrow> 'n session_write" where
  "deleteValue address = ValueDeleteWrite (va_namespace address) (va_key address)"

definition appendList :: "value_address \<Rightarrow> json \<Rightarrow> 'n session_write" where
  "appendList address element = ListAppendWrite (va_namespace address) (va_key address) element"

definition deleteList :: "value_address \<Rightarrow> 'n session_write" where
  "deleteList address = ListDeleteWrite (va_namespace address) (va_key address)"

definition physicalKey :: "jsstring \<Rightarrow> jsstring \<Rightarrow> jsstring" where
  "physicalKey namespace key = namespace @ 0 # key"

definition branchTip :: "jsstring \<Rightarrow> (session_error, value_address) result" where
  "branchTip branch = make_address (js ''shuvpi.branch.tip'') branch"

definition laneConfig :: "jsstring \<Rightarrow> (session_error, value_address) result" where
  "laneConfig lane = make_address (js ''shuvpi.lane.config'') lane"

definition laneState :: "jsstring \<Rightarrow> (session_error, value_address) result" where
  "laneState lane = make_address (js ''shuvpi.lane.state'') lane"

definition sessionName :: "(session_error, value_address) result" where
  "sessionName = make_address (js ''shuvpi.session.name'') []"

definition entryLabel :: "jsstring \<Rightarrow> (session_error, value_address) result" where
  "entryLabel entryId = make_address (js ''shuvpi.entry.label'') entryId"

section \<open>Preparing and validating a commit\<close>

fun commitWrite :: "'n session_write \<Rightarrow> nat \<Rightarrow> nat \<Rightarrow> 'n committed_write" where
  "commitWrite (EntryWrite e) sq timestamp = CommittedEntry (new_entry.extend e \<lparr>ent_seq = sq, ent_timestamp = timestamp\<rparr>)"
| "commitWrite (UsageWrite r) sq timestamp = CommittedUsage (new_usage_row.extend r \<lparr>ur_seq = sq\<rparr>)"
| "commitWrite (ValueSetWrite namespace key v) sq timestamp =
     CommittedCurrent KindValue \<lparr>cw_seq = sq, cw_namespace = namespace, cw_key = key, cw_value = v\<rparr>"
| "commitWrite (ValueDeleteWrite namespace key) sq timestamp = CommittedDelete KindValue sq namespace key"
| "commitWrite (ListAppendWrite namespace key v) sq timestamp =
     CommittedCurrent KindList \<lparr>cw_seq = sq, cw_namespace = namespace, cw_key = key, cw_value = v\<rparr>"
| "commitWrite (ListDeleteWrite namespace key) sq timestamp = CommittedDelete KindList sq namespace key"

fun committed_seq :: "'n committed_write \<Rightarrow> nat" where
  "committed_seq (CommittedEntry e) = ent_seq e"
| "committed_seq (CommittedUsage r) = ur_seq r"
| "committed_seq (CommittedCurrent _ w) = cw_seq w"
| "committed_seq (CommittedDelete _ sq _ _) = sq"

record 'n prepared_commit =
  pc_writes :: "'n committed_write list"
  pc_firstSeq :: nat
  pc_seqs :: "nat list"
  pc_timestamp :: nat

definition prepareStorageCommit :: "'n session_write list \<Rightarrow> nat \<Rightarrow> nat \<Rightarrow> 'n prepared_commit" where
  "prepareStorageCommit writes firstSeq timestamp =
     (let committedWrites = map (\<lambda>(index, w). commitWrite w (firstSeq + index) timestamp) (enumerate 0 writes) in
      \<lparr>pc_writes = committedWrites, pc_firstSeq = firstSeq, pc_seqs = map committed_seq committedWrites, pc_timestamp = timestamp\<rparr>)"

text \<open>The loop of the validation, with the previous sequence number plus one, the ids and the entry ids of the transaction.\<close>

fun validate_loop :: "(jsstring \<Rightarrow> bool) \<Rightarrow> (jsstring \<Rightarrow> bool) \<Rightarrow> nat \<Rightarrow> jsstring list \<Rightarrow> jsstring list \<Rightarrow> 'n committed_write list \<Rightarrow>
    (session_error, unit) result" where
  "validate_loop hasEntryOrUsageId hasEntryId lowest transactionIds transactionEntryIds [] = Inr ()"
| "validate_loop hasEntryOrUsageId hasEntryId lowest transactionIds transactionEntryIds (w # rest) =
     (if committed_seq w < lowest then Inl (NonMonotonicSequence (committed_seq w))
      else (case w of
        CommittedEntry e \<Rightarrow>
          (if hasEntryOrUsageId (ent_id e) \<or> List.member transactionIds (ent_id e) then Inl (DuplicateId (ent_id e))
           else (case ent_parentId e of
             Some parent \<Rightarrow>
               (if \<not> hasEntryId parent \<and> \<not> List.member transactionEntryIds parent then Inl (MissingParent parent)
                else validate_loop hasEntryOrUsageId hasEntryId (Suc (committed_seq w)) (ent_id e # transactionIds) (ent_id e # transactionEntryIds) rest)
           | None \<Rightarrow> validate_loop hasEntryOrUsageId hasEntryId (Suc (committed_seq w)) (ent_id e # transactionIds) (ent_id e # transactionEntryIds) rest))
      | CommittedUsage r \<Rightarrow>
          (if hasEntryOrUsageId (ur_id r) \<or> List.member transactionIds (ur_id r) then Inl (DuplicateId (ur_id r))
           else validate_loop hasEntryOrUsageId hasEntryId (Suc (committed_seq w)) (ur_id r # transactionIds) transactionEntryIds rest)
      | _ \<Rightarrow> validate_loop hasEntryOrUsageId hasEntryId (Suc (committed_seq w)) transactionIds transactionEntryIds rest))"

definition validateCommittedWrites :: "'n committed_write list \<Rightarrow> nat \<Rightarrow> (jsstring \<Rightarrow> bool) \<Rightarrow> (jsstring \<Rightarrow> bool) \<Rightarrow> (session_error, unit) result" where
  "validateCommittedWrites writes firstSeq hasEntryOrUsageId hasEntryId = validate_loop hasEntryOrUsageId hasEntryId firstSeq [] [] writes"

section \<open>The choice of a fork\<close>

record fork_branch =
  fb_branch :: jsstring
  fb_entryId :: "jsstring option"
  fb_before :: bool

datatype fork_options = ForkBranch fork_branch | ForkTree

datatype fork_plan = PlanBranch jsstring "jsstring option" | PlanTree

text \<open>
  The walk of \<^verbatim>\<open>selectBranchFork\<close> from the tip of the branch to its root: whether the requested entry was met, the tip of the destination and the
  selected entries. None is a walk that does not end.
\<close>

partial_function (option) select_loop ::
    "(jsstring \<Rightarrow> jsstring option option) \<Rightarrow> jsstring option \<Rightarrow> bool \<Rightarrow> jsstring option \<Rightarrow> bool \<Rightarrow> jsstring option \<Rightarrow> jsstring list \<Rightarrow>
     (session_error, bool \<times> jsstring option \<times> jsstring list) result option" where
  "select_loop getParent requested before entryId found destinationTip selected =
     (case entryId of
        None \<Rightarrow> Some (Inr (found, destinationTip, selected))
      | Some i \<Rightarrow> (case getParent i of
          None \<Rightarrow> Some (Inl CorruptSourceBranch)
        | Some parentId \<Rightarrow>
            (if requested = Some i then
               select_loop getParent requested before parentId True (if before then parentId else Some i)
                 (if before then selected else set_add i selected)
             else select_loop getParent requested before parentId found destinationTip (if found then set_add i selected else selected))))"

text \<open>
  The tip is the value stored for the branch: a string, null, or, if something else was stored, an id that no entry has.
\<close>

definition selectBranchFork :: "fork_branch \<Rightarrow> json option \<Rightarrow> (jsstring \<Rightarrow> jsstring option option) \<Rightarrow>
    (session_error, jsstring option \<times> jsstring list) result option" where
  "selectBranchFork options tip getParent =
     (case tip of
        None \<Rightarrow> Some (Inl (UnknownSourceBranch (fb_branch options)))
      | Some v \<Rightarrow>
          let walk = (\<lambda>start.
            let requested = (case fb_entryId options of Some i \<Rightarrow> Some i | None \<Rightarrow> start) in
            map_option (\<lambda>r. rbind r (\<lambda>(found, destinationTip, selected).
                if found then Inr (destinationTip, selected) else Inl (ForkEntryNotOnBranch requested)))
              (select_loop getParent requested (fb_before options) start (requested = None) None []))
          in (case v of
            JNull \<Rightarrow> walk None
          | JStr i \<Rightarrow> walk (Some i)
          | _ \<Rightarrow> Some (Inl CorruptSourceBranch)))"

definition starts_with :: "jsstring \<Rightarrow> jsstring \<Rightarrow> bool" where
  "starts_with s prefix \<longleftrightarrow> take (length prefix) s = prefix"

definition idle_lane :: json where
  "idle_lane = JObj [(js ''currentOperationId'', JNull), (js ''lastOperationId'', JNull), (js ''inbox'', JArr [])]"

definition json_id :: "jsstring option \<Rightarrow> json" where
  "json_id i = (case i of None \<Rightarrow> JNull | Some s \<Rightarrow> JStr s)"

definition in_branch :: "fork_plan \<Rightarrow> jsstring \<Rightarrow> bool" where
  "in_branch plan key = (case plan of PlanTree \<Rightarrow> True | PlanBranch branch _ \<Rightarrow> key = branch)"

definition projectForkCurrentStateWrite :: "current_write \<Rightarrow> fork_plan \<Rightarrow> (jsstring \<Rightarrow> bool) \<Rightarrow> (session_error, current_write option) result" where
  "projectForkCurrentStateWrite w plan isEntryCopied =
     (let namespace = cw_namespace w in
      if namespace = js ''shuvpi.session.name'' then Inr (Some w)
      else if namespace = js ''shuvpi.entry.label'' then Inr (if isEntryCopied (cw_key w) then Some w else None)
      else if namespace = js ''shuvpi.branch.tip'' then
        Inr (case plan of PlanTree \<Rightarrow> Some w
             | PlanBranch branch destinationTip \<Rightarrow> if cw_key w = branch then Some (w\<lparr>cw_value := json_id destinationTip\<rparr>) else None)
      else if namespace = js ''shuvpi.lane.config'' then Inr (if in_branch plan (cw_key w) then Some w else None)
      else if namespace = js ''shuvpi.lane.state'' then Inr (if in_branch plan (cw_key w) then Some (w\<lparr>cw_value := idle_lane\<rparr>) else None)
      else if namespace = js ''shuvpi.result'' then Inr None
      else if starts_with namespace (js ''shuvpi.op.'') \<or> starts_with namespace (js ''shuvpi.pending.'') then Inr None
      else if namespace = js ''shuvpi'' \<or> starts_with namespace (js ''shuvpi.'') then Inl (UnknownReservedNamespace namespace)
      else Inr (if plan = PlanTree then Some w else None))"

section \<open>The state\<close>

record 'n session_state =
  st_entries :: "jsstring \<rightharpoonup> 'n entry"
  st_entriesBySeq :: "'n entry list"
  st_scalarValues :: "(jsstring \<times> stored_value) list"
  st_listValues :: "(jsstring \<times> stored_list) list"
  st_usage :: "(jsstring \<times> 'n usage_row) list"
  st_stats :: "'n session_stats"
  st_nextSeq :: nat

definition new_session_state :: "'n::zero session_state" where
  "new_session_state = \<lparr>st_entries = Map.empty, st_entriesBySeq = [], st_scalarValues = [], st_listValues = [], st_usage = [],
     st_stats = \<lparr>sst_messageCount = 0, sst_usage = emptyUsage\<rparr>, st_nextSeq = 1\<rparr>"

definition has_entry :: "'n session_state \<Rightarrow> jsstring \<Rightarrow> bool" where
  "has_entry s i \<longleftrightarrow> st_entries s i \<noteq> None"

definition has_id :: "'n session_state \<Rightarrow> jsstring \<Rightarrow> bool" where
  "has_id s i \<longleftrightarrow> has_entry s i \<or> map_of (st_usage s) i \<noteq> None"

definition validateCommitted :: "'n session_state \<Rightarrow> 'n committed_write list \<Rightarrow> (session_error, unit) result" where
  "validateCommitted s writes = validateCommittedWrites writes (st_nextSeq s) (has_id s) (has_entry s)"

definition prepareCommit :: "'n session_state \<Rightarrow> 'n session_write list \<Rightarrow> nat \<Rightarrow> (session_error, 'n prepared_commit) result" where
  "prepareCommit s writes timestamp =
     (let prepared = prepareStorageCommit writes (st_nextSeq s) timestamp in
      rbind (validateCommitted s (pc_writes prepared)) (\<lambda>_. Inr prepared))"

definition applyValueSetOrListAppend :: "value_kind \<Rightarrow> current_write \<Rightarrow> 'n session_state \<Rightarrow> (session_error, 'n session_state) result" where
  "applyValueSetOrListAppend kind w s =
     (let key = physicalKey (cw_namespace w) (cw_key w) in
      case kind of
        KindValue \<Rightarrow> rbind (make_address (cw_namespace w) (cw_key w)) (\<lambda>address.
          Inr (s\<lparr>st_scalarValues := map_set key \<lparr>sv_address = address, sv_value = cw_value w, sv_seq = cw_seq w\<rparr> (st_scalarValues s)\<rparr>))
      | KindList \<Rightarrow>
          let element = \<lparr>le_seq = cw_seq w, le_value = cw_value w\<rparr> in
          (case map_of (st_listValues s) key of
             None \<Rightarrow> rbind (make_address (cw_namespace w) (cw_key w)) (\<lambda>address.
               Inr (s\<lparr>st_listValues := map_set key \<lparr>sl_address = address, sl_elements = [element]\<rparr> (st_listValues s)\<rparr>))
           | Some stored \<Rightarrow>
               Inr (s\<lparr>st_listValues := map_set key (stored\<lparr>sl_elements := sl_elements stored @ [element]\<rparr>) (st_listValues s)\<rparr>)))"

definition add_entry :: "'n entry \<Rightarrow> 'n session_state \<Rightarrow> 'n session_state" where
  "add_entry e s = s\<lparr>st_entries := (st_entries s)(ent_id e \<mapsto> e), st_entriesBySeq := st_entriesBySeq s @ [e]\<rparr>"

definition apply_committed :: "'n::{zero, plus} session_state \<Rightarrow> 'n committed_write \<Rightarrow> (session_error, 'n session_state) result" where
  "apply_committed s w = (case w of
      CommittedEntry e \<Rightarrow>
        let s' = add_entry e s in
        Inr (if ent_type e = MessageType then s'\<lparr>st_stats := (st_stats s)\<lparr>sst_messageCount := sst_messageCount (st_stats s) + 1\<rparr>\<rparr> else s')
    | CommittedUsage r \<Rightarrow>
        Inr (s\<lparr>st_usage := map_set (ur_id r) r (st_usage s),
               st_stats := (st_stats s)\<lparr>sst_usage := addUsage (sst_usage (st_stats s)) (ur_usage r)\<rparr>\<rparr>)
    | CommittedDelete kind sq namespace key \<Rightarrow>
        Inr (case kind of
          KindValue \<Rightarrow> s\<lparr>st_scalarValues := map_delete (physicalKey namespace key) (st_scalarValues s)\<rparr>
        | KindList \<Rightarrow> s\<lparr>st_listValues := map_delete (physicalKey namespace key) (st_listValues s)\<rparr>)
    | CommittedCurrent kind cw \<Rightarrow> applyValueSetOrListAppend kind cw s)"

text \<open>A write that throws leaves the writes before it applied.\<close>

fun applyValidated :: "'n::{zero, plus} session_state \<Rightarrow> 'n committed_write list \<Rightarrow> 'n session_state \<times> (session_error, 'n session_stats) result" where
  "applyValidated s [] = (s, Inr (st_stats s))"
| "applyValidated s (w # rest) = (case apply_committed s w of
      Inl e \<Rightarrow> (s, Inl e)
    | Inr s' \<Rightarrow> applyValidated (s'\<lparr>st_nextSeq := committed_seq w + 1\<rparr>) rest)"

definition advanceNextSeq :: "'n session_state \<Rightarrow> jsnum \<Rightarrow> 'n session_state \<times> (session_error, unit) result" where
  "advanceNextSeq s nextSeq = (case nextSeq of
      NInt n \<Rightarrow> if isSafeInteger nextSeq \<and> 1 \<le> n then (s\<lparr>st_nextSeq := max (st_nextSeq s) (nat n)\<rparr>, Inr ())
                else (s, Inl (InvalidHighWaterMark nextSeq))
    | _ \<Rightarrow> (s, Inl (InvalidHighWaterMark nextSeq)))"

section \<open>Reading\<close>

definition getEntries :: "'n session_state \<Rightarrow> jsstring list \<Rightarrow> (jsstring \<times> 'n entry) list" where
  "getEntries s ids = foldl (\<lambda>found i. case st_entries s i of None \<Rightarrow> found | Some e \<Rightarrow> map_set i e found) [] ids"

definition getValue :: "'n session_state \<Rightarrow> value_address \<Rightarrow> stored_value option" where
  "getValue s address = map_of (st_scalarValues s) (physicalKey (va_namespace address) (va_key address))"

text \<open>The characters of a string as its iterator gives them: pairs of surrogates as one code point, a lone surrogate as itself.\<close>

fun characters :: "jsstring \<Rightarrow> nat list" where
  "characters [] = []"
| "characters [c] = [unat c]"
| "characters (c # d # rest) =
     (if is_lead c \<and> is_trail d then (0x10000 + (unat c - 0xD800) * 0x400 + (unat d - 0xDC00)) # characters rest
      else unat c # characters (d # rest))"

fun compare_points :: "nat list \<Rightarrow> nat list \<Rightarrow> int" where
  "compare_points (x # xs) (y # ys) = (if int x - int y \<noteq> 0 then int x - int y else compare_points xs ys)"
| "compare_points xs ys = int (length xs) - int (length ys)"

definition compareKeys :: "jsstring \<Rightarrow> jsstring \<Rightarrow> int" where
  "compareKeys left right = compare_points (characters left) (characters right)"

text \<open>The stable \<^verbatim>\<open>Array.prototype.sort\<close> with a comparison.\<close>

fun insert_by :: "('a \<Rightarrow> 'a \<Rightarrow> int) \<Rightarrow> 'a \<Rightarrow> 'a list \<Rightarrow> 'a list" where
  "insert_by cmp x [] = [x]"
| "insert_by cmp x (y # ys) = (if cmp x y \<le> 0 then x # y # ys else y # insert_by cmp x ys)"

definition sort_by :: "('a \<Rightarrow> 'a \<Rightarrow> int) \<Rightarrow> 'a list \<Rightarrow> 'a list" where
  "sort_by cmp xs = foldr (insert_by cmp) xs []"

definition scanValues :: "'n session_state \<Rightarrow> value_address \<Rightarrow> stored_value list" where
  "scanValues s prefix =
     sort_by (\<lambda>left right. compareKeys (va_key (sv_address left)) (va_key (sv_address right)))
       (filter (\<lambda>stored. va_namespace (sv_address stored) = va_namespace prefix \<and> starts_with (va_key (sv_address stored)) (va_key prefix))
          (map snd (st_scalarValues s)))"

record list_read_options =
  lo_cursor :: "nat option"
  lo_desc :: bool
  lo_limit :: "jsnum option"

text \<open>The resolved limit.\<close>

definition resolveListReadOptions :: "list_read_options \<Rightarrow> (session_error, nat) result" where
  "resolveListReadOptions options =
     (case (case lo_limit options of None \<Rightarrow> NInt 1000 | Some n \<Rightarrow> n) of
        NInt n \<Rightarrow> if isSafeInteger (NInt n) \<and> 0 < n then Inr (nat (min n 10000)) else Inl InvalidListLimit
      | _ \<Rightarrow> Inl InvalidListLimit)"

definition readList :: "'n session_state \<Rightarrow> value_address \<Rightarrow> list_read_options \<Rightarrow> (session_error, list_element list) result" where
  "readList s address options =
     rbind (resolveListReadOptions options) (\<lambda>limit.
       let elements = (case map_of (st_listValues s) (physicalKey (va_namespace address) (va_key address)) of
             None \<Rightarrow> [] | Some stored \<Rightarrow> sl_elements stored);
           filtered = filter (\<lambda>element. case lo_cursor options of
               None \<Rightarrow> True
             | Some c \<Rightarrow> if lo_desc options then le_seq element < c else le_seq element > c) elements;
           ordered = (if lo_desc options then rev filtered else filtered)
       in Inr (take limit ordered))"

record branch_scan =
  bs_start :: jsstring
  bs_stopAtType :: "entry_type option"
  bs_stopAtId :: "jsstring option"
  bs_type :: "entry_type option"
  bs_customType :: "jsstring option"
  bs_oldestFirst :: bool
  bs_limit :: "int option"
  bs_cursor :: "nat option"

text \<open>The walk of \<^verbatim>\<open>scanBranch\<close> from an entry to its root. None is a walk that does not end.\<close>

partial_function (option) path_loop :: "(jsstring \<rightharpoonup> 'n entry) \<Rightarrow> 'n entry \<Rightarrow> 'n entry list \<Rightarrow> (session_error, 'n entry list) result option" where
  "path_loop all e path =
     (let path' = path @ [e] in
      case ent_parentId e of
        None \<Rightarrow> Some (Inr path')
      | Some parentId \<Rightarrow> (case all parentId of None \<Rightarrow> Some (Inl CorruptBranch) | Some e' \<Rightarrow> path_loop all e' path'))"

fun stop_after :: "('a \<Rightarrow> bool) \<Rightarrow> 'a list \<Rightarrow> 'a list" where
  "stop_after P [] = []"
| "stop_after P (x # xs) = (if P x then [x] else x # stop_after P xs)"

definition wanted :: "'a option \<Rightarrow> 'a \<Rightarrow> bool" where
  "wanted query v \<longleftrightarrow> query = None \<or> query = Some v"

definition take_limit :: "int option \<Rightarrow> 'a list \<Rightarrow> 'a list" where
  "take_limit limit xs = (case limit of None \<Rightarrow> xs | Some n \<Rightarrow> take (nat (max 0 n)) xs)"

definition select_path :: "branch_scan \<Rightarrow> 'n entry list \<Rightarrow> 'n entry list" where
  "select_path query path =
     (let ordered = (if bs_oldestFirst query then rev path else path);
          stopped = stop_after (\<lambda>e. Some (ent_id e) = bs_stopAtId query \<or> Some (ent_type e) = bs_stopAtType query) ordered;
          typed = filter (\<lambda>e. wanted (bs_type query) (ent_type e)) stopped;
          custom = filter (\<lambda>e. bs_customType query = None \<or> ent_customType e = bs_customType query) typed;
          filtered = filter (\<lambda>e. case bs_cursor query of None \<Rightarrow> True
            | Some c \<Rightarrow> if bs_oldestFirst query then ent_seq e > c else ent_seq e < c) custom
      in take_limit (bs_limit query) filtered)"

definition scanBranch :: "'n session_state \<Rightarrow> branch_scan \<Rightarrow> (session_error, 'n entry list) result option" where
  "scanBranch s query = (case st_entries s (bs_start query) of
      None \<Rightarrow> Some (Inl (UnknownBranchStart (bs_start query)))
    | Some start \<Rightarrow> map_option (\<lambda>r. rbind r (\<lambda>path. Inr (select_path query path))) (path_loop (st_entries s) start []))"

record entry_structure =
  es_id :: jsstring
  es_parentId :: "jsstring option"
  es_seq :: nat
  es_timestamp :: nat
  es_type :: entry_type
  es_customType :: "jsstring option"

definition structure_of :: "'n entry \<Rightarrow> entry_structure" where
  "structure_of e = \<lparr>es_id = ent_id e, es_parentId = ent_parentId e, es_seq = ent_seq e, es_timestamp = ent_timestamp e,
     es_type = ent_type e, es_customType = ent_customType e\<rparr>"

definition scanBranchStructure :: "'n session_state \<Rightarrow> branch_scan \<Rightarrow> (session_error, entry_structure list) result option" where
  "scanBranchStructure s query = map_option (\<lambda>r. rbind r (\<lambda>found. Inr (map structure_of found))) (scanBranch s query)"

record entry_scan =
  es_query_type :: "entry_type option"
  es_query_customType :: "jsstring option"
  es_fromSeq :: "nat option"
  es_toSeq :: "nat option"
  es_desc :: bool
  es_limit :: "int option"

definition between :: "nat option \<Rightarrow> nat option \<Rightarrow> nat \<Rightarrow> bool" where
  "between fromSeq toSeq sq \<longleftrightarrow> (case fromSeq of None \<Rightarrow> True | Some n \<Rightarrow> n \<le> sq) \<and> (case toSeq of None \<Rightarrow> True | Some n \<Rightarrow> sq \<le> n)"

definition entry_matches :: "entry_scan \<Rightarrow> 'n entry \<Rightarrow> bool" where
  "entry_matches query e \<longleftrightarrow> wanted (es_query_type query) (ent_type e) \<and>
     (es_query_customType query = None \<or> ent_customType e = es_query_customType query) \<and>
     between (es_fromSeq query) (es_toSeq query) (ent_seq e)"

text \<open>The loop over the entries in the order of the query; it stops at the limit.\<close>

fun scan_entries_loop :: "entry_scan \<Rightarrow> 'n entry list \<Rightarrow> 'n entry list \<Rightarrow> 'n entry list" where
  "scan_entries_loop query [] found = found"
| "scan_entries_loop query (e # rest) found =
     (if \<not> (case es_limit query of None \<Rightarrow> True | Some n \<Rightarrow> int (length found) < max 0 n) then found
      else scan_entries_loop query rest (if entry_matches query e then found @ [e] else found))"

definition state_scanEntries :: "'n session_state \<Rightarrow> entry_scan \<Rightarrow> 'n entry list" where
  "state_scanEntries s query = scan_entries_loop query (if es_desc query then rev (st_entriesBySeq s) else st_entriesBySeq s) []"

record usage_scan =
  uq_fromSeq :: "nat option"
  uq_toSeq :: "nat option"
  uq_desc :: bool
  uq_limit :: "int option"

definition scanUsage :: "'n session_state \<Rightarrow> usage_scan \<Rightarrow> 'n usage_row list" where
  "scanUsage s query =
     (let rows = filter (\<lambda>row. between (uq_fromSeq query) (uq_toSeq query) (ur_seq row)) (map snd (st_usage s));
          sorted = sort_by (\<lambda>left right. if uq_desc query then int (ur_seq right) - int (ur_seq left) else int (ur_seq left) - int (ur_seq right)) rows
      in take_limit (uq_limit query) sorted)"

section \<open>Forking\<close>

definition parent_of :: "'n session_state \<Rightarrow> jsstring \<Rightarrow> jsstring option option" where
  "parent_of s i = map_option ent_parentId (st_entries s i)"

text \<open>The plan of a fork and the selected entries, which only a branch has.\<close>

definition configured :: "'n session_state \<Rightarrow> jsstring \<Rightarrow> (session_error, unit) result" where
  "configured s branch =
     rbind (laneConfig branch) (\<lambda>config.
       if getValue s config = None then Inl (NotAConfiguredLane branch)
       else rbind (laneState branch) (\<lambda>lane. if getValue s lane = None then Inl (NotAConfiguredLane branch) else Inr ()))"

definition selectForkPlan :: "'n session_state \<Rightarrow> fork_options \<Rightarrow> (session_error, fork_plan \<times> jsstring list) result option" where
  "selectForkPlan s options = (case options of
      ForkTree \<Rightarrow> Some (Inr (PlanTree, []))
    | ForkBranch b \<Rightarrow> (case branchTip (fb_branch b) of
        Inl e \<Rightarrow> Some (Inl e)
      | Inr tip \<Rightarrow> map_option (\<lambda>r. rbind r (\<lambda>(destinationTip, entryIds).
            rbind (configured s (fb_branch b)) (\<lambda>_. Inr (PlanBranch (fb_branch b) destinationTip, entryIds))))
          (selectBranchFork b (map_option sv_value (getValue s tip)) (parent_of s))))"

definition is_copied :: "fork_plan \<Rightarrow> jsstring list \<Rightarrow> jsstring \<Rightarrow> bool" where
  "is_copied plan entryIds i = (case plan of PlanTree \<Rightarrow> True | PlanBranch _ _ \<Rightarrow> List.member entryIds i)"

definition project :: "value_kind \<Rightarrow> fork_plan \<Rightarrow> jsstring list \<Rightarrow> 'n session_state \<Rightarrow> current_write \<Rightarrow> (session_error, 'n session_state) result" where
  "project kind plan entryIds destination w =
     rbind (projectForkCurrentStateWrite w plan (is_copied plan entryIds)) (\<lambda>projected.
       case projected of None \<Rightarrow> Inr destination | Some w' \<Rightarrow> applyValueSetOrListAppend kind w' destination)"

definition value_writes :: "'n session_state \<Rightarrow> current_write list" where
  "value_writes s = map (\<lambda>(_, stored). \<lparr>cw_seq = sv_seq stored, cw_namespace = va_namespace (sv_address stored),
     cw_key = va_key (sv_address stored), cw_value = sv_value stored\<rparr>) (st_scalarValues s)"

definition list_writes :: "'n session_state \<Rightarrow> current_write list" where
  "list_writes s = concat (map (\<lambda>(_, stored). map (\<lambda>element. \<lparr>cw_seq = le_seq element, cw_namespace = va_namespace (sl_address stored),
     cw_key = va_key (sl_address stored), cw_value = le_value element\<rparr>) (sl_elements stored)) (st_listValues s))"

definition copied_entries :: "'n::zero session_state \<Rightarrow> fork_plan \<Rightarrow> jsstring list \<Rightarrow> 'n session_state" where
  "copied_entries s plan entryIds =
     (let copied = filter (\<lambda>e. is_copied plan entryIds (ent_id e)) (st_entriesBySeq s);
          destination = foldl (\<lambda>d e. add_entry e d) new_session_state copied
      in destination\<lparr>st_stats := (st_stats destination)\<lparr>sst_messageCount := length (filter (\<lambda>e. ent_type e = MessageType) copied)\<rparr>\<rparr>)"

definition createFork :: "'n::zero session_state \<Rightarrow> fork_options \<Rightarrow> (session_error, 'n session_state) result option" where
  "createFork s options = map_option (\<lambda>r. rbind r (\<lambda>(plan, entryIds).
     rbind (rfold (project KindValue plan entryIds) (copied_entries s plan entryIds) (value_writes s)) (\<lambda>withValues.
       rbind (rfold (project KindList plan entryIds) withValues (list_writes s)) (\<lambda>withLists.
         Inr (withLists\<lparr>st_nextSeq := st_nextSeq s\<rparr>))))) (selectForkPlan s options)"

end
