(* ===== verification/SessionRuns.thy ===== *)
theory SessionRuns
  imports SessionState
begin

text \<open>
  The invariant of a session state, that every commit, replay and fork keeps it, and what a commit does to the values
  of the state seen as maps over addresses.
\<close>

section \<open>Addresses and physical keys\<close>

definition valid_address :: "jsstring \<Rightarrow> jsstring \<Rightarrow> bool" where
  "valid_address namespace key \<longleftrightarrow> namespace \<noteq> [] \<and> 0 \<notin> set namespace \<and> 0 \<notin> set key"

lemma make_address_cases:
  "valid_address namespace key \<Longrightarrow> make_address namespace key = Inr \<lparr>va_namespace = namespace, va_key = key\<rparr>"
  "\<not> valid_address namespace key \<Longrightarrow> \<exists>e. make_address namespace key = Inl e"
  by (auto simp: valid_address_def make_address_def validateAddress_def)

lemma make_address_Inr: "make_address namespace key = Inr a \<longleftrightarrow> valid_address namespace key \<and> a = \<lparr>va_namespace = namespace, va_key = key\<rparr>"
  by (cases "valid_address namespace key") (auto simp: make_address_cases dest: make_address_cases(2))

lemma physicalKey_inject:
  assumes "0 \<notin> set n" "0 \<notin> set n'"
  shows "physicalKey n k = physicalKey n' k' \<longleftrightarrow> n = n' \<and> k = k'"
proof -
  have split: "takeWhile (\<lambda>c. c \<noteq> 0) (physicalKey m l) = m" if "0 \<notin> set m" for m l :: jsstring
    using that by (induction m) (auto simp: physicalKey_def)
  show ?thesis
  proof
    assume eq: "physicalKey n k = physicalKey n' k'"
    then have "n = n'" using split [OF assms(1), of k] split [OF assms(2), of k'] by simp
    then show "n = n' \<and> k = k'" using eq by (simp add: physicalKey_def)
  qed simp
qed

section \<open>The invariant\<close>

definition address_key :: "value_address \<Rightarrow> jsstring" where
  "address_key a = physicalKey (va_namespace a) (va_key a)"

definition address_ok :: "value_address \<Rightarrow> bool" where
  "address_ok a \<longleftrightarrow> valid_address (va_namespace a) (va_key a)"

text \<open>Sequence numbers ascend and are below a bound.\<close>

definition ascends :: "nat \<Rightarrow> nat list \<Rightarrow> bool" where
  "ascends bound seqs \<longleftrightarrow> sorted_wrt (<) seqs \<and> list_all (\<lambda>n. n < bound) seqs"

lemma ascends_snoc: "ascends bound seqs \<Longrightarrow> bound \<le> n \<Longrightarrow> ascends (Suc n) (seqs @ [n])"
  by (auto simp: ascends_def sorted_wrt_append list_all_iff intro: less_trans less_le_trans)

lemma ascends_mono: "ascends bound seqs \<Longrightarrow> bound \<le> bound' \<Longrightarrow> ascends bound' seqs"
  by (auto simp: ascends_def list_all_iff)

lemma ascends_filter: "ascends bound (map f xs) \<Longrightarrow> ascends bound (map f (filter P xs))"
  by (auto simp: ascends_def sorted_wrt_map sorted_wrt_filter list_all_iff)

definition by_id :: "'n entry list \<Rightarrow> jsstring \<rightharpoonup> 'n entry" where
  "by_id es = map_of (map (\<lambda>e. (ent_id e, e)) es)"

text \<open>Every entry comes after its parent.\<close>

definition parents_ok :: "'n entry list \<Rightarrow> bool" where
  "parents_ok es \<longleftrightarrow> (\<forall>e \<in> set es. \<forall>p. ent_parentId e = Some p \<longrightarrow> (\<exists>e' \<in> set es. ent_id e' = p \<and> ent_seq e' < ent_seq e))"

definition messages :: "'n entry list \<Rightarrow> nat" where
  "messages es = length (filter (\<lambda>e. ent_type e = MessageType) es)"

definition entries_ok :: "'n session_state \<Rightarrow> bool" where
  "entries_ok s \<longleftrightarrow> distinct (map ent_id (st_entriesBySeq s)) \<and> st_entries s = by_id (st_entriesBySeq s) \<and>
     ascends (st_nextSeq s) (map ent_seq (st_entriesBySeq s)) \<and> parents_ok (st_entriesBySeq s) \<and>
     sst_messageCount (st_stats s) = messages (st_entriesBySeq s)"

text \<open>A map in insertion order: no key twice, and a property of every binding.\<close>

definition keyed :: "('k \<Rightarrow> 'v \<Rightarrow> bool) \<Rightarrow> ('k \<times> 'v) list \<Rightarrow> bool" where
  "keyed P xs \<longleftrightarrow> distinct (map fst xs) \<and> (\<forall>k v. (k, v) \<in> set xs \<longrightarrow> P k v)"

lemma keyed_set: "keyed P xs \<Longrightarrow> P k v \<Longrightarrow> keyed P (map_set k v xs)"
proof -
  have "(a, b) \<in> set (map_set k v xs) \<Longrightarrow> (a, b) = (k, v) \<or> (a, b) \<in> set xs" for a b
    by (induction k v xs rule: map_set.induct) (auto split: if_splits)
  then show "keyed P xs \<Longrightarrow> P k v \<Longrightarrow> keyed P (map_set k v xs)" by (auto simp: keyed_def distinct_map_set)
qed

lemma keyed_delete: "keyed P xs \<Longrightarrow> keyed P (map_delete k xs)"
  using distinct_map_delete [of xs k] by (auto simp: keyed_def map_delete_def)

lemma keyed_mono: "keyed P xs \<Longrightarrow> (\<And>k v. P k v \<Longrightarrow> Q k v) \<Longrightarrow> keyed Q xs"
  by (auto simp: keyed_def)

lemma keyed_map_of: "keyed P xs \<Longrightarrow> map_of xs k = Some v \<Longrightarrow> P k v"
  by (auto simp: keyed_def dest: map_of_SomeD)

definition usage_ok :: "'n::{zero, plus} session_state \<Rightarrow> bool" where
  "usage_ok s \<longleftrightarrow> keyed (\<lambda>i r. ur_id r = i \<and> \<not> has_entry s i) (st_usage s) \<and>
     ascends (st_nextSeq s) (map (ur_seq \<circ> snd) (st_usage s)) \<and>
     sst_usage (st_stats s) = foldl addUsage emptyUsage (map (ur_usage \<circ> snd) (st_usage s))"

definition value_ok :: "nat \<Rightarrow> jsstring \<Rightarrow> stored_value \<Rightarrow> bool" where
  "value_ok bound k v \<longleftrightarrow> k = address_key (sv_address v) \<and> address_ok (sv_address v) \<and> sv_seq v < bound"

definition list_ok :: "nat \<Rightarrow> jsstring \<Rightarrow> stored_list \<Rightarrow> bool" where
  "list_ok bound k l \<longleftrightarrow> k = address_key (sl_address l) \<and> address_ok (sl_address l) \<and> sl_elements l \<noteq> [] \<and> ascends bound (map le_seq (sl_elements l))"

definition values_ok :: "'n session_state \<Rightarrow> bool" where
  "values_ok s \<longleftrightarrow> keyed (value_ok (st_nextSeq s)) (st_scalarValues s) \<and> keyed (list_ok (st_nextSeq s)) (st_listValues s)"

lemma values_ok_mono:
  assumes "values_ok s" "st_nextSeq s \<le> st_nextSeq t" "st_scalarValues t = st_scalarValues s" "st_listValues t = st_listValues s"
  shows "values_ok t"
  using assms by (auto simp: values_ok_def value_ok_def list_ok_def elim!: keyed_mono intro: ascends_mono)

definition state_inv :: "'n::{zero, plus} session_state \<Rightarrow> bool" where
  "state_inv s \<longleftrightarrow> entries_ok s \<and> usage_ok s \<and> values_ok s \<and> 1 \<le> st_nextSeq s"

lemmas state_inv_defs = state_inv_def entries_ok_def usage_ok_def values_ok_def

lemma new_state_inv: "state_inv new_session_state"
  by (simp add: state_inv_defs new_session_state_def ascends_def by_id_def parents_ok_def messages_def keyed_def)

lemma by_id_snoc: "ent_id e \<notin> ent_id ` set es \<Longrightarrow> by_id (es @ [e]) = (by_id es)(ent_id e \<mapsto> e)"
  by (induction es) (auto simp: by_id_def)

lemma by_id_Some: "distinct (map ent_id es) \<Longrightarrow> by_id es i = Some e \<longleftrightarrow> e \<in> set es \<and> ent_id e = i"
  by (auto simp: by_id_def map_of_eq_Some_iff o_def image_iff)

lemma by_id_None: "by_id es i = None \<longleftrightarrow> i \<notin> ent_id ` set es"
  by (auto simp: by_id_def map_of_eq_None_iff image_image)

section \<open>Validation\<close>

text \<open>What the validation asks of one write in the state the writes before it lead to.\<close>

definition valid_next :: "'n session_state \<Rightarrow> 'n committed_write \<Rightarrow> bool" where
  "valid_next s w \<longleftrightarrow> st_nextSeq s \<le> committed_seq w \<and> (case w of
      CommittedEntry e \<Rightarrow> \<not> has_id s (ent_id e) \<and> (\<forall>p. ent_parentId e = Some p \<longrightarrow> has_entry s p)
    | CommittedUsage r \<Rightarrow> \<not> has_id s (ur_id r)
    | _ \<Rightarrow> True)"

definition advance :: "'n session_state \<Rightarrow> 'n committed_write \<Rightarrow> 'n session_state" where
  "advance s w = s\<lparr>st_nextSeq := committed_seq w + 1\<rparr>"

lemma advance_simps [simp]:
  "st_entries (advance s w) = st_entries s" "st_entriesBySeq (advance s w) = st_entriesBySeq s" "st_scalarValues (advance s w) = st_scalarValues s"
  "st_listValues (advance s w) = st_listValues s" "st_usage (advance s w) = st_usage s" "st_stats (advance s w) = st_stats s"
  "st_nextSeq (advance s w) = Suc (committed_seq w)" "has_entry (advance s w) i = has_entry s i" "has_id (advance s w) i = has_id s i"
  by (simp_all add: advance_def has_entry_def has_id_def)

lemma validate_loop_cong:
  assumes "\<And>i. H i \<or> i \<in> set T \<longleftrightarrow> H' i \<or> i \<in> set T'" "\<And>i. E i \<or> i \<in> set TE \<longleftrightarrow> E' i \<or> i \<in> set TE'"
  shows "validate_loop H E low T TE ws = validate_loop H' E' low T' TE' ws"
  using assms
proof (induction ws arbitrary: low T TE T' TE')
  case Nil
  then show ?case by simp
next
  case (Cons w ws)
  have ids: "H i \<or> i \<in> set T \<longleftrightarrow> H' i \<or> i \<in> set T'" "\<not> E i \<and> i \<notin> set TE \<longleftrightarrow> \<not> E' i \<and> i \<notin> set TE'" for i
    using Cons.prems(1) [of i] Cons.prems(2) [of i] by auto
  have "validate_loop H E l (t @ T) (u @ TE) ws = validate_loop H' E' l (t @ T') (u @ TE') ws" for l t u
    by (rule Cons.IH) (use Cons.prems in \<open>auto 4 0\<close>)
  from this [where t = "[_]" and u = "[_]"] this [where t = "[_]" and u = "[]"] this [where t = "[]" and u = "[]"]
  show ?case by (cases w) (simp_all add: ids split: option.split)
qed

text \<open>The ids and the entries a write adds.\<close>

fun adds_id :: "'n committed_write \<Rightarrow> jsstring option" where
  "adds_id (CommittedEntry e) = Some (ent_id e)"
| "adds_id (CommittedUsage r) = Some (ur_id r)"
| "adds_id _ = None"

fun adds_entry :: "'n committed_write \<Rightarrow> jsstring option" where
  "adds_entry (CommittedEntry e) = Some (ent_id e)"
| "adds_entry _ = None"

lemma value_kind_simps [simp]:
  assumes "applyValueSetOrListAppend kind w s = Inr t"
  shows "st_entries t = st_entries s" "st_entriesBySeq t = st_entriesBySeq s" "st_usage t = st_usage s" "st_stats t = st_stats s"
    "st_nextSeq t = st_nextSeq s"
  using assms by (auto simp: applyValueSetOrListAppend_def Let_def elim!: rbindE split: value_kind.splits option.splits)

lemma apply_ids:
  assumes "apply_committed s w = Inr t"
  shows "has_id t i \<longleftrightarrow> has_id s i \<or> adds_id w = Some i" "has_entry t i \<longleftrightarrow> has_entry s i \<or> adds_entry w = Some i" "st_nextSeq t = st_nextSeq s"
  using assms by (auto simp: apply_committed_def has_id_def has_entry_def add_entry_def Let_def value_kind_simps
    split: committed_write.splits if_splits value_kind.splits)

lemma validate_first: "validateCommitted s (w # ws) = Inr () \<Longrightarrow> valid_next s w"
  by (auto simp: validateCommitted_def validateCommittedWrites_def valid_next_def split: committed_write.splits if_splits option.splits)

lemma validate_Cons:
  assumes t: "apply_committed s w = Inr t"
  shows "validateCommitted s (w # ws) = Inr () \<longleftrightarrow> valid_next s w \<and> validateCommitted (advance t w) ws = Inr ()"
proof -
  let ?rest = "validate_loop (has_id s) (has_entry s) (Suc (committed_seq w)) (case adds_id w of None \<Rightarrow> [] | Some i \<Rightarrow> [i])
      (case adds_entry w of None \<Rightarrow> [] | Some i \<Rightarrow> [i]) ws"
  have "validateCommitted s (w # ws) = Inr () \<longleftrightarrow> valid_next s w \<and> ?rest = Inr ()"
    by (auto simp: validateCommitted_def validateCommittedWrites_def valid_next_def not_less split: committed_write.splits if_splits option.splits)
  moreover have "?rest = validate_loop (has_id (advance t w)) (has_entry (advance t w)) (Suc (committed_seq w)) [] [] ws"
    by (rule validate_loop_cong) (auto simp: apply_ids [OF t] split: option.splits)
  ultimately show ?thesis by (simp add: validateCommitted_def validateCommittedWrites_def)
qed

section \<open>Every write keeps the invariant\<close>

lemma values_apply:
  assumes t: "applyValueSetOrListAppend kind w s = Inr t" and ok: "values_ok s" and sq: "st_nextSeq s \<le> cw_seq w" "st_nextSeq u = Suc (cw_seq w)"
    and u: "st_scalarValues u = st_scalarValues t" "st_listValues u = st_listValues t"
  shows "values_ok u"
proof -
  let ?key = "physicalKey (cw_namespace w) (cw_key w)"
  have scalar: "keyed (value_ok (st_nextSeq u)) (st_scalarValues s)" and listed: "keyed (list_ok (st_nextSeq u)) (st_listValues s)"
    using values_ok_mono [OF ok, of "s\<lparr>st_nextSeq := st_nextSeq u\<rparr>"] sq by (auto simp: values_ok_def)
  have new: "value_ok (st_nextSeq u) ?key \<lparr>sv_address = a, sv_value = cw_value w, sv_seq = cw_seq w\<rparr>"
    "list_ok (st_nextSeq u) ?key \<lparr>sl_address = a, sl_elements = [\<lparr>le_seq = cw_seq w, le_value = cw_value w\<rparr>]\<rparr>"
    if "make_address (cw_namespace w) (cw_key w) = Inr a" for a
    using that sq by (auto simp: value_ok_def list_ok_def make_address_Inr address_key_def address_ok_def ascends_def)
  have more: "list_ok (st_nextSeq u) ?key (l\<lparr>sl_elements := sl_elements l @ [\<lparr>le_seq = cw_seq w, le_value = cw_value w\<rparr>]\<rparr>)"
    if "map_of (st_listValues s) ?key = Some l" for l
    using keyed_map_of [OF _ that, of "list_ok (st_nextSeq s)"] ok sq by (auto simp: values_ok_def list_ok_def intro: ascends_snoc)
  show ?thesis
  proof (cases kind)
    case KindValue
    then obtain a where "make_address (cw_namespace w) (cw_key w) = Inr a"
      "st_scalarValues t = map_set ?key \<lparr>sv_address = a, sv_value = cw_value w, sv_seq = cw_seq w\<rparr> (st_scalarValues s)" "st_listValues t = st_listValues s"
      using t by (auto simp: applyValueSetOrListAppend_def Let_def elim!: rbindE)
    then show ?thesis using keyed_set [OF scalar new(1)] listed u by (simp add: values_ok_def)
  next
    case KindList
    show ?thesis
    proof (cases "map_of (st_listValues s) ?key")
      case None
      then obtain a where "make_address (cw_namespace w) (cw_key w) = Inr a" "st_scalarValues t = st_scalarValues s"
        "st_listValues t = map_set ?key \<lparr>sl_address = a, sl_elements = [\<lparr>le_seq = cw_seq w, le_value = cw_value w\<rparr>]\<rparr> (st_listValues s)"
        using t KindList by (auto simp: applyValueSetOrListAppend_def Let_def elim!: rbindE)
      then show ?thesis using keyed_set [OF listed new(2)] scalar u by (simp add: values_ok_def)
    next
      case (Some l)
      then have "st_scalarValues t = st_scalarValues s"
        "st_listValues t = map_set ?key (l\<lparr>sl_elements := sl_elements l @ [\<lparr>le_seq = cw_seq w, le_value = cw_value w\<rparr>]\<rparr>) (st_listValues s)"
        using t KindList by (auto simp: applyValueSetOrListAppend_def Let_def)
      then show ?thesis using keyed_set [OF listed more [OF Some]] scalar u by (simp add: values_ok_def)
    qed
  qed
qed

lemma entries_apply:
  assumes "entries_ok s" "\<not> has_id s (ent_id e)" and parent: "\<And>p. ent_parentId e = Some p \<Longrightarrow> has_entry s p" and sq: "st_nextSeq s \<le> ent_seq e"
    and u: "st_entries u = (st_entries s)(ent_id e \<mapsto> e)" "st_entriesBySeq u = st_entriesBySeq s @ [e]" "st_nextSeq u = Suc (ent_seq e)"
      "sst_messageCount (st_stats u) = sst_messageCount (st_stats s) + (if ent_type e = MessageType then 1 else 0)"
  shows "entries_ok u"
proof -
  have new: "ent_id e \<notin> ent_id ` set (st_entriesBySeq s)"
    using assms(1,2) by_id_None [of "st_entriesBySeq s"] by (auto simp: entries_ok_def has_id_def has_entry_def)
  have "ascends (Suc (ent_seq e)) (map ent_seq (st_entriesBySeq s) @ [ent_seq e])"
    using assms(1) sq by (auto simp: entries_ok_def intro: ascends_snoc)
  moreover have "parents_ok (st_entriesBySeq s @ [e])"
  proof -
    have "\<exists>e' \<in> set (st_entriesBySeq s). ent_id e' = p \<and> ent_seq e' < ent_seq e" if par: "ent_parentId e = Some p" for p
    proof -
      obtain e' where "by_id (st_entriesBySeq s) p = Some e'"
        using assms(1) parent [OF par] by (auto simp: has_entry_def entries_ok_def)
      then have e': "e' \<in> set (st_entriesBySeq s)" "ent_id e' = p" using by_id_Some assms(1) by (auto simp: entries_ok_def)
      then have "ent_seq e' < ent_seq e" using assms(1) sq by (auto simp: entries_ok_def ascends_def list_all_iff)
      then show ?thesis using e' by blast
    qed
    then show ?thesis using assms(1) by (fastforce simp: parents_ok_def entries_ok_def)
  qed
  ultimately show ?thesis using assms(1) new u by (auto simp: entries_ok_def by_id_snoc messages_def)
qed

lemma entries_ok_mono:
  assumes "entries_ok s" "st_nextSeq s \<le> st_nextSeq t" "st_entries t = st_entries s" "st_entriesBySeq t = st_entriesBySeq s"
    "sst_messageCount (st_stats t) = sst_messageCount (st_stats s)"
  shows "entries_ok t"
  using assms by (auto simp: entries_ok_def intro: ascends_mono)

lemma usage_ok_mono:
  assumes "usage_ok s" "st_nextSeq s \<le> st_nextSeq t" "st_usage t = st_usage s" "sst_usage (st_stats t) = sst_usage (st_stats s)"
    and entries: "\<And>i. has_entry t i \<Longrightarrow> has_entry s i \<or> i \<notin> fst ` set (st_usage s)"
  shows "usage_ok t"
proof -
  have "\<not> has_entry t i" if "(i, r) \<in> set (st_usage s)" for i r
    using entries [of i] assms(1) that by (force simp: usage_ok_def keyed_def)
  then show ?thesis using assms(1-4) by (auto simp: usage_ok_def keyed_def intro: ascends_mono)
qed

lemma usage_apply:
  assumes "usage_ok s" "\<not> has_id s (ur_id r)" "st_nextSeq s \<le> ur_seq r" "st_nextSeq u = Suc (ur_seq r)" "st_entries u = st_entries s"
    "st_usage u = map_set (ur_id r) r (st_usage s)" "sst_usage (st_stats u) = addUsage (sst_usage (st_stats s)) (ur_usage r)"
  shows "usage_ok u"
proof -
  have "ur_id r \<notin> fst ` set (st_usage s)" "\<not> has_entry s (ur_id r)" using assms(2) by (auto simp: has_id_def map_of_eq_None_iff)
  moreover have "ascends (Suc (ur_seq r)) (map (ur_seq \<circ> snd) (st_usage s) @ [ur_seq r])"
    using assms(1,3) by (auto simp: usage_ok_def intro: ascends_snoc)
  ultimately show ?thesis using assms by (auto simp: usage_ok_def keyed_def has_entry_def map_set_new)
qed

lemma apply_inv:
  assumes inv: "state_inv s" and w: "valid_next s w" and t: "apply_committed s w = Inr t"
  shows "state_inv (advance t w)"
proof -
  have ok: "entries_ok s" "usage_ok s" "values_ok s" using inv by (simp_all add: state_inv_def)
  have sq: "st_nextSeq s \<le> Suc (committed_seq w)" using w by (simp add: valid_next_def)
  show ?thesis
  proof (cases w)
    case (CommittedEntry e)
    then have e: "\<not> has_id s (ent_id e)" "\<And>p. ent_parentId e = Some p \<Longrightarrow> has_entry s p" "st_nextSeq s \<le> ent_seq e"
      and t': "st_entries t = (st_entries s)(ent_id e \<mapsto> e)" "st_entriesBySeq t = st_entriesBySeq s @ [e]" "st_usage t = st_usage s"
        "st_scalarValues t = st_scalarValues s" "st_listValues t = st_listValues s" "sst_usage (st_stats t) = sst_usage (st_stats s)"
        "sst_messageCount (st_stats t) = sst_messageCount (st_stats s) + (if ent_type e = MessageType then 1 else 0)"
      using w t by (auto simp: valid_next_def apply_committed_def add_entry_def Let_def)
    have "entries_ok (advance t w)" by (rule entries_apply [OF ok(1) e]) (simp_all add: t' CommittedEntry)
    moreover have "usage_ok (advance t w)"
      by (rule usage_ok_mono [OF ok(2)]) (use sq e(1) in \<open>auto simp: t' has_entry_def has_id_def map_of_eq_None_iff split: if_splits\<close>)
    moreover have "values_ok (advance t w)" by (rule values_ok_mono [OF ok(3)]) (use sq in \<open>simp_all add: t'\<close>)
    ultimately show ?thesis by (simp add: state_inv_def)
  next
    case (CommittedUsage r)
    then have "\<not> has_id s (ur_id r)" "st_nextSeq s \<le> ur_seq r" using w by (simp_all add: valid_next_def)
    then have "usage_ok (advance t w)"
      by (rule usage_apply [OF ok(2)]) (use t CommittedUsage in \<open>auto simp: apply_committed_def\<close>)
    moreover have "entries_ok (advance t w)" "values_ok (advance t w)"
      by (rule entries_ok_mono [OF ok(1)] values_ok_mono [OF ok(3)]; use t sq CommittedUsage in \<open>auto simp: apply_committed_def\<close>)+
    ultimately show ?thesis by (simp add: state_inv_def)
  next
    case (CommittedCurrent kind cw)
    then have t': "applyValueSetOrListAppend kind cw s = Inr t" using t by (simp add: apply_committed_def)
    have "values_ok (advance t w)"
      by (rule values_apply [OF t' ok(3)]) (use w CommittedCurrent in \<open>auto simp: valid_next_def\<close>)
    moreover have "entries_ok (advance t w)" by (rule entries_ok_mono [OF ok(1)]) (use value_kind_simps [OF t'] sq in auto)
    moreover have "usage_ok (advance t w)" by (rule usage_ok_mono [OF ok(2)]) (use value_kind_simps [OF t'] sq in \<open>auto simp: has_entry_def\<close>)
    ultimately show ?thesis by (simp add: state_inv_def)
  next
    case (CommittedDelete kind sq' namespace key)
    then have t': "st_entries t = st_entries s" "st_entriesBySeq t = st_entriesBySeq s" "st_usage t = st_usage s" "st_stats t = st_stats s"
      using t by (auto simp: apply_committed_def split: value_kind.splits)
    have "values_ok (s\<lparr>st_nextSeq := Suc (committed_seq w)\<rparr>)" by (rule values_ok_mono [OF ok(3)]) (use sq in simp_all)
    then have "values_ok (advance t w)" using t CommittedDelete
      by (auto simp: values_ok_def apply_committed_def intro: keyed_delete split: value_kind.splits)
    moreover have "entries_ok (advance t w)" by (rule entries_ok_mono [OF ok(1)]) (use sq in \<open>simp_all add: t'\<close>)
    moreover have "usage_ok (advance t w)" by (rule usage_ok_mono [OF ok(2)]) (use sq in \<open>simp_all add: t' has_entry_def\<close>)
    ultimately show ?thesis by (simp add: state_inv_def)
  qed
qed

lemma applyValidated_inv: "state_inv s \<Longrightarrow> validateCommitted s ws = Inr () \<Longrightarrow> state_inv (fst (applyValidated s ws))"
proof (induction ws arbitrary: s)
  case Nil
  then show ?case by simp
next
  case (Cons w ws)
  show ?case
  proof (cases "apply_committed s w")
    case (Inl e)
    then show ?thesis using Cons.prems by simp
  next
    case (Inr t)
    have "state_inv (fst (applyValidated (advance t w) ws))"
      using Cons.IH apply_inv [OF Cons.prems(1) _ Inr] validate_Cons [OF Inr, of ws] Cons.prems(2) by blast
    then show ?thesis using Inr by (simp add: advance_def)
  qed
qed

end
