(* ===== verification/SessionPaths.thy ===== *)
theory SessionPaths
  imports SessionRuns SortedIds
begin

text \<open>
  The paths from an entry to its root: that the walks over the parents end in every session state that keeps the invariant, what
  a scan of a branch returns, that its pages cover it, and what a fork copies.
\<close>

section \<open>Paths to the root\<close>

text \<open>The ids from a node to its root, for a lookup of the parent that is undefined for an unknown node.\<close>

inductive ancestry :: "('i \<Rightarrow> 'i option option) \<Rightarrow> 'i \<Rightarrow> 'i list \<Rightarrow> bool" for parent where
  root: "parent i = Some None \<Longrightarrow> ancestry parent i [i]"
| step: "parent i = Some (Some p) \<Longrightarrow> ancestry parent p ids \<Longrightarrow> ancestry parent i (i # ids)"

inductive_cases ancestry_Cons: "ancestry parent i (j # ids)"
inductive_cases ancestry_Nil: "ancestry parent i []"

lemma ancestry_unique: "ancestry parent i ids \<Longrightarrow> ancestry parent i ids' \<Longrightarrow> ids' = ids"
proof (induction arbitrary: ids' rule: ancestry.induct)
  case (root i)
  then show ?case by (auto elim: ancestry.cases)
next
  case (step i p ids)
  from step.prems step.hyps(1) obtain rest where "ids' = i # rest" "ancestry parent p rest" by (auto elim: ancestry.cases)
  then show ?case using step.IH by simp
qed

lemma ancestry_hd: "ancestry parent i ids \<Longrightarrow> \<exists>rest. ids = i # rest"
  by (auto elim: ancestry.cases)

lemma ancestry_known: "ancestry parent i ids \<Longrightarrow> j \<in> set ids \<Longrightarrow> parent j \<noteq> None"
  by (induction rule: ancestry.induct) auto

text \<open>Every node on a path has the rest of the path as its own.\<close>

lemma ancestry_suffix: "ancestry parent i ids \<Longrightarrow> j \<in> set ids \<Longrightarrow> \<exists>before rest. ids = before @ j # rest \<and> ancestry parent j (j # rest)"
proof (induction rule: ancestry.induct)
  case (root i)
  then show ?case by (auto intro: ancestry.root)
next
  case (step i p ids)
  show ?case
  proof (cases "j = i")
    case True
    then show ?thesis using step.hyps by (auto intro: ancestry.step)
  next
    case False
    then obtain before rest where "ids = before @ j # rest" "ancestry parent j (j # rest)" using step by auto
    then have "i # ids = (i # before) @ j # rest \<and> ancestry parent j (j # rest)" by simp
    then show ?thesis by blast
  qed
qed

text \<open>
  What a store of a forest promises: a parent is known and has a lower rank than its child, in every state that keeps the invariant.
\<close>

locale forest =
  fixes inv :: "'s \<Rightarrow> bool" and parent :: "'s \<Rightarrow> 'i \<Rightarrow> 'i option option" and rank :: "'s \<Rightarrow> 'i \<Rightarrow> nat"
  assumes parent_known: "inv s \<Longrightarrow> parent s i = Some (Some p) \<Longrightarrow> parent s p \<noteq> None"
    and parent_lower: "inv s \<Longrightarrow> parent s i = Some (Some p) \<Longrightarrow> rank s p < rank s i"
begin

lemma path_exists: "inv s \<Longrightarrow> parent s i \<noteq> None \<Longrightarrow> \<exists>ids. ancestry (parent s) i ids"
proof (induction "rank s i" arbitrary: i rule: less_induct)
  case less
  obtain q where q: "parent s i = Some q" using less.prems(2) by blast
  show ?case
  proof (cases q)
    case None
    then show ?thesis using q ancestry.root by fastforce
  next
    case (Some p)
    then have "rank s p < rank s i" "parent s p \<noteq> None" using parent_lower parent_known less.prems(1) q by blast+
    then obtain ids where "ancestry (parent s) p ids" using less.hyps less.prems(1) by blast
    then show ?thesis using q Some ancestry.step by fastforce
  qed
qed

lemma path_descends: "ancestry (parent s) i ids \<Longrightarrow> inv s \<Longrightarrow> sorted_wrt (\<lambda>a b. rank s b < rank s a) ids"
proof (induction rule: ancestry.induct)
  case (root i)
  then show ?case by simp
next
  case (step i p ids)
  then have sorted: "sorted_wrt (\<lambda>a b. rank s b < rank s a) ids" by simp
  obtain rest where "ids = p # rest" using ancestry_hd [OF step.hyps(2)] by blast
  then have "rank s j < rank s i" if "j \<in> set ids" for j
    using that sorted parent_lower [OF step.prems step.hyps(1)] by auto
  then show ?case using sorted by simp
qed

lemma path_distinct:
  assumes "ancestry (parent s) i ids" "inv s"
  shows "distinct ids"
proof -
  have "sorted_wrt (\<lambda>a b. a \<noteq> b) ids"
    by (rule sorted_wrt_mono_rel [OF _ path_descends [OF assms]]) auto
  then show ?thesis by (simp add: distinct_conv_nth sorted_wrt_iff_nth_less nat_neq_iff) metis
qed

end

definition entry_rank :: "'n session_state \<Rightarrow> jsstring \<Rightarrow> nat" where
  "entry_rank s i = (case st_entries s i of None \<Rightarrow> 0 | Some e \<Rightarrow> ent_seq e)"

interpretation tree: forest state_inv parent_of entry_rank
proof unfold_locales
  fix s :: "'n::{zero, plus} session_state" and i p
  assume inv: "state_inv s" and par: "parent_of s i = Some (Some p)"
  then obtain e where e: "st_entries s i = Some e" "ent_parentId e = Some p" by (auto simp: parent_of_def)
  have ok: "distinct (map ent_id (st_entriesBySeq s))" "st_entries s = by_id (st_entriesBySeq s)" "parents_ok (st_entriesBySeq s)"
    using inv by (auto simp: state_inv_def entries_ok_def)
  have "e \<in> set (st_entriesBySeq s)" using e(1) ok(1,2) by (simp add: by_id_Some)
  then obtain e' where "e' \<in> set (st_entriesBySeq s)" "ent_id e' = p" "ent_seq e' < ent_seq e"
    using ok(3) e(2) by (auto simp: parents_ok_def)
  moreover then have "st_entries s p = Some e'" using ok(1,2) by (simp add: by_id_Some)
  ultimately show "parent_of s p \<noteq> None" "entry_rank s p < entry_rank s i" using e(1) by (auto simp: parent_of_def entry_rank_def)
qed

lemma entry_parent: "st_entries s i = Some e \<Longrightarrow> parent_of s i = Some (ent_parentId e)"
  by (simp add: parent_of_def)

lemma parent_entry: "parent_of s i = Some q \<Longrightarrow> \<exists>e. st_entries s i = Some e \<and> ent_parentId e = q"
  by (auto simp: parent_of_def)

lemma entry_fields:
  assumes "state_inv s" "st_entries s i = Some e"
  shows "ent_id e = i" "e \<in> set (st_entriesBySeq s)" "ent_seq e < st_nextSeq s"
proof -
  have ok: "distinct (map ent_id (st_entriesBySeq s))" "st_entries s = by_id (st_entriesBySeq s)" "ascends (st_nextSeq s) (map ent_seq (st_entriesBySeq s))"
    using assms(1) by (auto simp: state_inv_def entries_ok_def)
  show "ent_id e = i" "e \<in> set (st_entriesBySeq s)" using ok(1,2) assms(2) by (simp_all add: by_id_Some)
  then show "ent_seq e < st_nextSeq s" using ok(3) by (auto simp: ascends_def list_all_iff)
qed

text \<open>The entries on a path.\<close>

definition path_entries :: "'n session_state \<Rightarrow> jsstring list \<Rightarrow> 'n entry list" where
  "path_entries s ids = map (the \<circ> st_entries s) ids"

lemma path_loop_ancestry:
  "ancestry (parent_of s) i ids \<Longrightarrow> st_entries s i = Some e \<Longrightarrow> path_loop (st_entries s) e path = Some (Inr (path @ path_entries s ids))"
proof (induction arbitrary: e path rule: ancestry.induct)
  case (root i)
  then show ?case by (subst path_loop.simps) (simp add: parent_of_def path_entries_def)
next
  case (step i p ids)
  obtain e' where "st_entries s p = Some e'" using ancestry_hd [OF step.hyps(2)] ancestry_known [OF step.hyps(2), of p] by (auto simp: parent_of_def)
  then show ?case using step by (subst path_loop.simps) (simp add: parent_of_def path_entries_def)
qed

lemma path_descending:
  assumes inv: "state_inv s" and path: "ancestry (parent_of s) i ids"
  shows "sorted_wrt (\<lambda>a b. ent_seq b < ent_seq a) (path_entries s ids)"
proof -
  have known: "entry_rank s j = ent_seq (the (st_entries s j))" if "j \<in> set ids" for j
    using ancestry_known [OF path that] by (auto simp: parent_of_def entry_rank_def)
  have "sorted_wrt (\<lambda>a b. ent_seq (the (st_entries s b)) < ent_seq (the (st_entries s a))) ids"
    by (rule sorted_wrt_mono_rel [OF _ tree.path_descends [OF path inv]]) (simp add: known)
  then show ?thesis by (simp add: path_entries_def sorted_wrt_map)
qed

text \<open>A scan that starts at a known entry is a selection from its path.\<close>

lemma scanBranch_known:
  assumes "state_inv s" "st_entries s (bs_start q) \<noteq> None"
  shows "\<exists>ids. ancestry (parent_of s) (bs_start q) ids \<and> scanBranch s q = Some (Inr (select_path q (path_entries s ids)))"
proof -
  obtain e where e: "st_entries s (bs_start q) = Some e" using assms(2) by blast
  obtain ids where "ancestry (parent_of s) (bs_start q) ids" using tree.path_exists [OF assms(1)] entry_parent [OF e] by fastforce
  then show ?thesis using path_loop_ancestry [OF _ e, of ids "[]"] by (auto simp: scanBranch_def e)
qed

section \<open>Pages of a branch\<close>

text \<open>What a scan returns without its limit: the entries up to the stop that match, beyond the cursor.\<close>

definition beyond :: "bool \<Rightarrow> nat option \<Rightarrow> nat \<Rightarrow> bool" where
  "beyond oldestFirst cursor sq \<longleftrightarrow> (case cursor of None \<Rightarrow> True | Some c \<Rightarrow> if oldestFirst then sq > c else sq < c)"

definition candidates :: "branch_scan \<Rightarrow> 'n entry list \<Rightarrow> 'n entry list" where
  "candidates q path =
     filter (\<lambda>e. wanted (bs_type q) (ent_type e) \<and> (bs_customType q = None \<or> ent_customType e = bs_customType q))
       (stop_after (\<lambda>e. Some (ent_id e) = bs_stopAtId q \<or> Some (ent_type e) = bs_stopAtType q) (if bs_oldestFirst q then rev path else path))"

lemma select_path_eq:
  "select_path q path = take_limit (bs_limit q) (filter (\<lambda>e. beyond (bs_oldestFirst q) (bs_cursor q) (ent_seq e)) (candidates q path))"
  by (simp add: select_path_def candidates_def beyond_def Let_def conj_commute cong: filter_cong)

lemma candidates_simps [simp]: "candidates (q\<lparr>bs_limit := l\<rparr>) path = candidates q path" "candidates (q\<lparr>bs_cursor := c\<rparr>) path = candidates q path"
  by (simp_all add: candidates_def)

lemma stop_after_sorted: "sorted_wrt R xs \<Longrightarrow> sorted_wrt R (stop_after P xs)"
proof (induction xs)
  case (Cons x xs)
  have "set (stop_after P xs) \<subseteq> set xs" by (induction xs) auto
  then show ?case using Cons by auto
qed simp

lemma candidates_sorted:
  assumes "sorted_wrt (\<lambda>a b. ent_seq b < ent_seq a) path"
  shows "sorted_wrt (\<lambda>a b. if bs_oldestFirst q then ent_seq a < ent_seq b else ent_seq b < ent_seq a) (candidates q path)"
proof -
  let ?R = "\<lambda>a b :: 'a entry. if bs_oldestFirst q then ent_seq a < ent_seq b else ent_seq b < ent_seq a"
  let ?xs = "if bs_oldestFirst q then rev path else path"
  have "sorted_wrt ?R ?xs" using assms by (simp add: sorted_wrt_rev)
  then show ?thesis unfolding candidates_def by (intro sorted_wrt_filter stop_after_sorted)
qed

text \<open>The entries beyond the last one of a page are the rest.\<close>

lemma beyond_page:
  assumes sorted: "sorted_wrt (\<lambda>a b. if old then ent_seq a < ent_seq b else ent_seq b < ent_seq a) cs"
    and split: "filter (\<lambda>e. beyond old c (ent_seq e)) cs = xs @ ys" and "xs \<noteq> []"
  shows "filter (\<lambda>e. beyond old (Some (ent_seq (last xs))) (ent_seq e)) cs = ys"
proof -
  have "last xs \<in> set (filter (\<lambda>e. beyond old c (ent_seq e)) cs)" using split assms(3) by simp
  then have "beyond old c (ent_seq (last xs))" by simp
  then have "filter (\<lambda>e. beyond old (Some (ent_seq (last xs))) (ent_seq e)) cs
      = filter (\<lambda>e. beyond old (Some (ent_seq (last xs))) (ent_seq e)) (filter (\<lambda>e. beyond old c (ent_seq e)) cs)"
    by (auto simp: beyond_def split: option.splits if_splits intro!: filter_cong)
  also have "\<dots> = ys"
    using sorted_wrt_filter [OF sorted, of "\<lambda>e. beyond old c (ent_seq e)"] after_ascending [of ent_seq xs ys] after_descending [of ent_seq xs ys] assms(3)
    unfolding split by (cases old) (simp_all add: beyond_def)
  finally show ?thesis .
qed

end
