(* ===== verification/SessionForks.thy ===== *)
theory SessionForks
  imports SessionPaths
begin

text \<open>
  What a fork of a session copies: the entries of the selected path or of the whole tree, and the current values by the policy of
  \<^verbatim>\<open>fork-policy.ts\<close>.
\<close>

section \<open>The selected path\<close>

lemma select_loop_found:
  "ancestry parent i ids \<Longrightarrow> distinct (selected @ ids) \<Longrightarrow> requested \<notin> Some ` set ids \<Longrightarrow>
   select_loop parent requested before (Some i) True destinationTip selected = Some (Inr (True, destinationTip, selected @ ids))"
proof (induction arbitrary: selected rule: ancestry.induct)
  case (root i)
  then show ?case by (subst select_loop.simps, subst (2) select_loop.simps) (auto simp: set_add_def)
next
  case (step i p ids)
  have "select_loop parent requested before (Some p) True destinationTip (selected @ [i]) = Some (Inr (True, destinationTip, (selected @ [i]) @ ids))"
    by (rule step.IH) (use step.prems in auto)
  then show ?case using step.hyps step.prems by (subst select_loop.simps) (auto simp: set_add_def)
qed

text \<open>The path of a destination: empty for the tip null.\<close>

definition tip_path :: "('i \<Rightarrow> 'i option option) \<Rightarrow> 'i option \<Rightarrow> 'i list \<Rightarrow> bool" where
  "tip_path parent tip ids = (case tip of None \<Rightarrow> ids = [] | Some i \<Rightarrow> ancestry parent i ids)"

definition fork_tip :: "(jsstring \<Rightarrow> jsstring option option) \<Rightarrow> bool \<Rightarrow> jsstring \<Rightarrow> jsstring option" where
  "fork_tip parent before r = (if before then the (parent r) else Some r)"

lemma select_loop_requested:
  "ancestry parent i ids \<Longrightarrow> distinct ids \<Longrightarrow> r \<in> set ids \<Longrightarrow>
   \<exists>selected. tip_path parent (fork_tip parent before r) selected \<and>
     select_loop parent (Some r) before (Some i) False None [] = Some (Inr (True, fork_tip parent before r, selected))"
proof (induction rule: ancestry.induct)
  case (root i)
  then show ?case
    by (intro exI [of _ "if before then [] else [i]"])
      (auto simp: select_loop.simps tip_path_def fork_tip_def set_add_def intro: ancestry.root)
next
  case (step i p ids)
  show ?case
  proof (cases "r = i")
    case True
    have "Some r \<notin> Some ` set ids" using step.prems True by auto
    then have "select_loop parent (Some r) before (Some p) True tip selected = Some (Inr (True, tip, selected @ ids))"
      if "distinct (selected @ ids)" for tip selected
      using select_loop_found [OF step.hyps(2) that] by blast
    moreover have "ancestry parent i (i # ids)" using step.hyps by (rule ancestry.step)
    ultimately show ?thesis using step.prems True step.hyps
      by (intro exI [of _ "if before then ids else i # ids"]) (auto simp: select_loop.simps [of _ _ _ "Some i"] tip_path_def fork_tip_def set_add_def)
  next
    case False
    then show ?thesis using step by (auto simp: select_loop.simps [of _ _ _ "Some i"])
  qed
qed

lemma select_loop_missed:
  "ancestry parent i ids \<Longrightarrow> requested \<notin> Some ` set ids \<Longrightarrow>
   select_loop parent requested before (Some i) False None [] = Some (Inr (False, None, []))"
proof (induction rule: ancestry.induct)
  case (root i)
  then show ?case by (auto simp: select_loop.simps)
next
  case (step i p ids)
  then show ?case by (auto simp: select_loop.simps [of _ _ _ "Some i"])
qed

text \<open>What the choice of a branch fork returns in a state that keeps the invariant.\<close>

definition tip_of :: "json \<Rightarrow> jsstring option option" where
  "tip_of v = (case v of JNull \<Rightarrow> Some None | JStr i \<Rightarrow> Some (Some i) | _ \<Rightarrow> None)"

definition requested_entry :: "fork_branch \<Rightarrow> jsstring option \<Rightarrow> jsstring option" where
  "requested_entry b tip = (case fb_entryId b of Some i \<Rightarrow> Some i | None \<Rightarrow> tip)"

lemma selectBranchFork_path:
  assumes inv: "state_inv s" and tip: "tip_of v = Some tip" and path: "tip_path (parent_of s) tip ids"
  shows "(case requested_entry b tip of
      None \<Rightarrow> selectBranchFork b (Some v) (parent_of s) = Some (Inr (None, []))
    | Some r \<Rightarrow> if r \<in> set ids
        then \<exists>selected. tip_path (parent_of s) (fork_tip (parent_of s) (fb_before b) r) selected \<and>
          selectBranchFork b (Some v) (parent_of s) = Some (Inr (fork_tip (parent_of s) (fb_before b) r, selected))
        else selectBranchFork b (Some v) (parent_of s) = Some (Inl (ForkEntryNotOnBranch (Some r))))"
proof (cases tip)
  case None
  then have "v = JNull" "ids = []" using tip path by (auto simp: tip_of_def tip_path_def split: json.splits)
  then show ?thesis by (auto simp: selectBranchFork_def requested_entry_def None Let_def select_loop.simps split: option.splits)
next
  case (Some i)
  then have v: "v = JStr i" and anc: "ancestry (parent_of s) i ids" using tip path by (auto simp: tip_of_def tip_path_def split: json.splits)
  obtain r where r: "requested_entry b tip = Some r" by (cases "fb_entryId b") (auto simp: requested_entry_def Some)
  then have r': "(case fb_entryId b of None \<Rightarrow> Some i | Some x \<Rightarrow> Some x) = Some r" by (auto simp: requested_entry_def Some split: option.splits)
  have distinct: "distinct ids" by (rule tree.path_distinct [OF anc inv])
  show ?thesis
  proof (cases "r \<in> set ids")
    case True
    obtain selected where "tip_path (parent_of s) (fork_tip (parent_of s) (fb_before b) r) selected"
      "select_loop (parent_of s) (Some r) (fb_before b) (Some i) False None [] = Some (Inr (True, fork_tip (parent_of s) (fb_before b) r, selected))"
      using select_loop_requested [OF anc distinct True] by blast
    then show ?thesis using True by (auto simp: r v selectBranchFork_def Let_def r')
  next
    case False
    then have "Some r \<notin> Some ` set ids" by auto
    then show ?thesis using False select_loop_missed [OF anc, of "Some r" "fb_before b"] by (simp add: r v selectBranchFork_def Let_def r')
  qed
qed

text \<open>The walk returns, and what it selects is the path of the tip of the destination.\<close>

definition chosen_tip :: "'n session_state \<Rightarrow> fork_branch \<Rightarrow> jsstring option \<Rightarrow> jsstring option" where
  "chosen_tip s b tip = (case requested_entry b tip of None \<Rightarrow> None | Some r \<Rightarrow> fork_tip (parent_of s) (fb_before b) r)"

lemma selectBranchFork_result:
  assumes inv: "state_inv s"
  shows "selectBranchFork b stored (parent_of s) \<noteq> None"
    and "selectBranchFork b stored (parent_of s) = Some (Inr (t, selected)) \<Longrightarrow>
      \<exists>v tip ids. stored = Some v \<and> tip_of v = Some tip \<and> tip_path (parent_of s) tip ids \<and> requested_entry b tip \<in> insert None (Some ` set ids) \<and>
        t = chosen_tip s b tip \<and> tip_path (parent_of s) t selected"
proof -
  have "selectBranchFork b stored (parent_of s) \<noteq> None \<and> (selectBranchFork b stored (parent_of s) = Some (Inr (t, selected)) \<longrightarrow>
      (\<exists>v tip ids. stored = Some v \<and> tip_of v = Some tip \<and> tip_path (parent_of s) tip ids \<and> requested_entry b tip \<in> insert None (Some ` set ids) \<and>
        t = chosen_tip s b tip \<and> tip_path (parent_of s) t selected))"
  proof (cases stored)
    case None
    then show ?thesis by (simp add: selectBranchFork_def)
  next
    case (Some v)
    show ?thesis
    proof (cases "tip_of v")
      case None
      then show ?thesis using Some by (auto simp: selectBranchFork_def tip_of_def Let_def split: json.splits)
    next
      case tip: (Some tip)
      show ?thesis
      proof (cases "\<exists>ids. tip_path (parent_of s) tip ids")
        case True
        then obtain ids where path: "tip_path (parent_of s) tip ids" by blast
        show ?thesis
          using selectBranchFork_path [OF inv tip path, of b] tip path Some
          by (fastforce simp: chosen_tip_def tip_path_def split: option.splits if_splits)
      next
        case False
        then obtain i where i: "tip = Some i" by (auto simp: tip_path_def split: option.splits)
        then have "parent_of s i = None" using False tree.path_exists [OF inv, of i] by (cases "parent_of s i") (auto simp: tip_path_def)
        moreover have "v = JStr i" using tip i by (auto simp: tip_of_def split: json.splits)
        ultimately show ?thesis using Some by (auto simp: selectBranchFork_def Let_def select_loop.simps [of _ _ _ "Some i"])
      qed
    qed
  qed
  then show "selectBranchFork b stored (parent_of s) \<noteq> None"
    and "selectBranchFork b stored (parent_of s) = Some (Inr (t, selected)) \<Longrightarrow>
      \<exists>v tip ids. stored = Some v \<and> tip_of v = Some tip \<and> tip_path (parent_of s) tip ids \<and> requested_entry b tip \<in> insert None (Some ` set ids) \<and>
        t = chosen_tip s b tip \<and> tip_path (parent_of s) t selected" by blast+
qed

section \<open>The policy for current values\<close>

text \<open>What becomes of a value, by its address alone: an error, nothing, or the value under a function.\<close>

definition fork_policy :: "fork_plan \<Rightarrow> (jsstring \<Rightarrow> bool) \<Rightarrow> jsstring \<Rightarrow> jsstring \<Rightarrow> (session_error, (json \<Rightarrow> json) option) result" where
  "fork_policy plan copied namespace key =
     (if namespace = js ''shuvpi.session.name'' then Inr (Some id)
      else if namespace = js ''shuvpi.entry.label'' then Inr (if copied key then Some id else None)
      else if namespace = js ''shuvpi.branch.tip'' then
        Inr (case plan of PlanTree \<Rightarrow> Some id | PlanBranch branch tip \<Rightarrow> if key = branch then Some (\<lambda>_. json_id tip) else None)
      else if namespace = js ''shuvpi.lane.config'' then Inr (if in_branch plan key then Some id else None)
      else if namespace = js ''shuvpi.lane.state'' then Inr (if in_branch plan key then Some (\<lambda>_. idle_lane) else None)
      else if namespace = js ''shuvpi.result'' then Inr None
      else if starts_with namespace (js ''shuvpi.op.'') \<or> starts_with namespace (js ''shuvpi.pending.'') then Inr None
      else if namespace = js ''shuvpi'' \<or> starts_with namespace (js ''shuvpi.'') then Inl (UnknownReservedNamespace namespace)
      else Inr (if plan = PlanTree then Some id else None))"

lemma project_policy:
  "projectForkCurrentStateWrite w plan copied =
     rbind (fork_policy plan copied (cw_namespace w) (cw_key w)) (\<lambda>policy. Inr (map_option (\<lambda>f. w\<lparr>cw_value := f (cw_value w)\<rparr>) policy))"
  by (auto simp: projectForkCurrentStateWrite_def fork_policy_def Let_def split: fork_plan.splits)

definition value_write :: "stored_value \<Rightarrow> current_write" where
  "value_write v = \<lparr>cw_seq = sv_seq v, cw_namespace = va_namespace (sv_address v), cw_key = va_key (sv_address v), cw_value = sv_value v\<rparr>"

definition element_write :: "value_address \<Rightarrow> list_element \<Rightarrow> current_write" where
  "element_write a x = \<lparr>cw_seq = le_seq x, cw_namespace = va_namespace a, cw_key = va_key a, cw_value = le_value x\<rparr>"

definition policy_at :: "fork_plan \<Rightarrow> jsstring list \<Rightarrow> value_address \<Rightarrow> (session_error, (json \<Rightarrow> json) option) result" where
  "policy_at plan ids a = fork_policy plan (is_copied plan ids) (va_namespace a) (va_key a)"

fun fork_values :: "fork_plan \<Rightarrow> jsstring list \<Rightarrow> (jsstring \<times> stored_value) list \<Rightarrow> (jsstring \<times> stored_value) list" where
  "fork_values plan ids [] = []"
| "fork_values plan ids ((k, v) # kvs) = (case policy_at plan ids (sv_address v) of
      Inr (Some f) \<Rightarrow> (k, v\<lparr>sv_value := f (sv_value v)\<rparr>) # fork_values plan ids kvs
    | _ \<Rightarrow> fork_values plan ids kvs)"

fun fork_lists :: "fork_plan \<Rightarrow> jsstring list \<Rightarrow> (jsstring \<times> stored_list) list \<Rightarrow> (jsstring \<times> stored_list) list" where
  "fork_lists plan ids [] = []"
| "fork_lists plan ids ((k, l) # kls) = (case policy_at plan ids (sl_address l) of
      Inr (Some f) \<Rightarrow> (k, l\<lparr>sl_elements := map (\<lambda>x. x\<lparr>le_value := f (le_value x)\<rparr>) (sl_elements l)\<rparr>) # fork_lists plan ids kls
    | _ \<Rightarrow> fork_lists plan ids kls)"

lemma project_value:
  assumes "value_ok bound k v" "k \<notin> fst ` set (st_scalarValues d)" "project KindValue plan ids d (value_write v) = Inr d'"
  shows "d' = d\<lparr>st_scalarValues := st_scalarValues d @ fork_values plan ids [(k, v)]\<rparr>" "\<exists>p. policy_at plan ids (sv_address v) = Inr p"
proof -
  have k: "k = physicalKey (va_namespace (sv_address v)) (va_key (sv_address v))"
    and a: "make_address (va_namespace (sv_address v)) (va_key (sv_address v)) = Inr (sv_address v)"
    using assms(1) by (auto simp: value_ok_def address_key_def address_ok_def make_address_Inr)
  obtain p where p: "policy_at plan ids (sv_address v) = Inr p"
    using assms(3) by (auto simp: project_def project_policy value_write_def policy_at_def elim!: rbindE)
  then show "\<exists>p. policy_at plan ids (sv_address v) = Inr p" by blast
  show "d' = d\<lparr>st_scalarValues := st_scalarValues d @ fork_values plan ids [(k, v)]\<rparr>"
    using assms(2,3) p a by (cases p) (auto simp: project_def project_policy value_write_def policy_at_def applyValueSetOrListAppend_def k map_set_new)
qed

lemma project_values:
  assumes "keyed (value_ok bound) kvs" "fst ` set kvs \<inter> fst ` set (st_scalarValues d) = {}"
    "rfold (project KindValue plan ids) d (map (\<lambda>kv. value_write (snd kv)) kvs) = Inr d'"
  shows "d' = d\<lparr>st_scalarValues := st_scalarValues d @ fork_values plan ids kvs\<rparr> \<and> (\<forall>(k, v) \<in> set kvs. \<exists>p. policy_at plan ids (sv_address v) = Inr p)"
  using assms
proof (induction kvs arbitrary: d)
  case Nil
  then show ?case by simp
next
  case (Cons kv kvs)
  obtain k v where kv: "kv = (k, v)" by (cases kv)
  have ok: "value_ok bound k v" "k \<notin> fst ` set (st_scalarValues d)" using Cons.prems(1,2) by (auto simp: kv keyed_def)
  obtain d1 where d1: "project KindValue plan ids d (value_write v) = Inr d1"
    "rfold (project KindValue plan ids) d1 (map (\<lambda>kv. value_write (snd kv)) kvs) = Inr d'"
    using Cons.prems(3) by (auto simp: kv elim!: rbindE)
  note first = project_value [OF ok d1(1)]
  have "fst ` set (fork_values plan ids [(k, v)]) \<subseteq> {k}" by (auto split: sum.splits option.splits)
  then have "fst ` set kvs \<inter> fst ` set (st_scalarValues d1) = {}"
    using Cons.prems(1,2) first(1) by (auto simp: kv keyed_def image_iff)
  then have "d' = d1\<lparr>st_scalarValues := st_scalarValues d1 @ fork_values plan ids kvs\<rparr> \<and> (\<forall>(k, v) \<in> set kvs. \<exists>p. policy_at plan ids (sv_address v) = Inr p)"
    using Cons.IH [OF _ _ d1(2)] Cons.prems(1) by (auto simp: keyed_def)
  then show ?case using first by (auto simp: kv split: sum.splits option.splits)
qed

lemma map_set_last: "k \<notin> fst ` set pre \<Longrightarrow> map_set k v (pre @ [(k, u)]) = pre @ [(k, v)]"
  by (induction pre) auto

definition map_element :: "(json \<Rightarrow> json) \<Rightarrow> list_element \<Rightarrow> list_element" where
  "map_element f x = x\<lparr>le_value := f (le_value x)\<rparr>"

lemma project_elements:
  assumes "policy_at plan ids a = Inr (Some f)" "st_listValues d = pre @ [(address_key a, l)]" "address_key a \<notin> fst ` set pre"
  shows "rfold (project KindList plan ids) d (map (element_write a) xs)
    = Inr (d\<lparr>st_listValues := pre @ [(address_key a, l\<lparr>sl_elements := sl_elements l @ map (map_element f) xs\<rparr>)]\<rparr>)"
  using assms
proof (induction xs arbitrary: d l)
  case Nil
  then show ?case by simp
next
  case (Cons x xs)
  have found: "map_of (st_listValues d) (address_key a) = Some l"
    using Cons.prems(2,3) by (auto simp: map_of_eq_None_iff map_add_Some_iff intro: map_add_find_right)
  let ?l = "l\<lparr>sl_elements := sl_elements l @ [map_element f x]\<rparr>"
  have "project KindList plan ids d (element_write a x) = Inr (d\<lparr>st_listValues := pre @ [(address_key a, ?l)]\<rparr>)"
    using Cons.prems found map_set_last [of "address_key a" pre]
    by (simp add: project_def project_policy element_write_def policy_at_def applyValueSetOrListAppend_def Let_def map_element_def address_key_def)
  then show ?case using Cons.IH [of "d\<lparr>st_listValues := pre @ [(address_key a, ?l)]\<rparr>" ?l] Cons.prems by simp
qed

lemma project_list:
  assumes "list_ok bound k l" "k \<notin> fst ` set (st_listValues d)"
    "rfold (project KindList plan ids) d (map (element_write (sl_address l)) (sl_elements l)) = Inr d'"
  shows "d' = d\<lparr>st_listValues := st_listValues d @ fork_lists plan ids [(k, l)]\<rparr> \<and> (\<exists>p. policy_at plan ids (sl_address l) = Inr p)"
proof -
  let ?a = "sl_address l"
  have k: "k = address_key ?a" and a: "make_address (va_namespace ?a) (va_key ?a) = Inr ?a"
    using assms(1) by (auto simp: list_ok_def address_ok_def make_address_Inr)
  obtain x xs where xs: "sl_elements l = x # xs" using assms(1) by (auto simp: list_ok_def neq_Nil_conv)
  have none: "map_of (st_listValues d) (address_key ?a) = None" using assms(2) k by (auto simp: map_of_eq_None_iff)
  obtain d1 where d1: "project KindList plan ids d (element_write ?a x) = Inr d1" "rfold (project KindList plan ids) d1 (map (element_write ?a) xs) = Inr d'"
    using assms(3) by (auto simp: xs elim!: rbindE)
  then obtain p where p: "policy_at plan ids ?a = Inr p"
    by (auto simp: project_def project_policy element_write_def policy_at_def elim!: rbindE)
  show ?thesis
  proof (cases p)
    case None
    then have "rfold (project KindList plan ids) e (map (element_write ?a) ys) = Inr e" for e :: "'a session_state" and ys
      using p by (induction ys) (simp_all add: project_def project_policy element_write_def policy_at_def)
    moreover have "d1 = d" using d1(1) p None by (simp add: project_def project_policy element_write_def policy_at_def)
    ultimately show ?thesis using d1(2) p None by simp
  next
    case (Some f)
    have "d1 = d\<lparr>st_listValues := st_listValues d @ [(address_key ?a, \<lparr>sl_address = ?a, sl_elements = [map_element f x]\<rparr>)]\<rparr>"
      using d1(1) p Some none a assms(2) k
      by (auto simp: project_def project_policy element_write_def policy_at_def applyValueSetOrListAppend_def address_key_def map_set_new map_element_def)
    then have "d' = d\<lparr>st_listValues := st_listValues d @ [(k, l\<lparr>sl_elements := map (map_element f) (x # xs)\<rparr>)]\<rparr>"
      using d1(2) project_elements [of plan ids ?a f d1 "st_listValues d" _ xs] p Some assms(2) k xs by (cases l) auto
    then show ?thesis using p Some xs by (simp add: map_element_def)
  qed
qed

lemma project_lists:
  assumes "keyed (list_ok bound) kls" "fst ` set kls \<inter> fst ` set (st_listValues d) = {}"
    "rfold (project KindList plan ids) d (concat (map (\<lambda>kl. map (element_write (sl_address (snd kl))) (sl_elements (snd kl))) kls)) = Inr d'"
  shows "d' = d\<lparr>st_listValues := st_listValues d @ fork_lists plan ids kls\<rparr> \<and> (\<forall>(k, l) \<in> set kls. \<exists>p. policy_at plan ids (sl_address l) = Inr p)"
  using assms
proof (induction kls arbitrary: d)
  case Nil
  then show ?case by simp
next
  case (Cons kl kls)
  obtain k l where kl: "kl = (k, l)" by (cases kl)
  have ok: "list_ok bound k l" "k \<notin> fst ` set (st_listValues d)" using Cons.prems(1,2) by (auto simp: kl keyed_def)
  obtain d1 where d1: "rfold (project KindList plan ids) d (map (element_write (sl_address l)) (sl_elements l)) = Inr d1"
    "rfold (project KindList plan ids) d1 (concat (map (\<lambda>kl. map (element_write (sl_address (snd kl))) (sl_elements (snd kl))) kls)) = Inr d'"
    using Cons.prems(3) by (auto simp: kl rfold_append elim!: rbindE)
  note first = project_list [OF ok d1(1)]
  have "fst ` set (fork_lists plan ids [(k, l)]) \<subseteq> {k}" by (auto split: sum.splits option.splits)
  then have "fst ` set kls \<inter> fst ` set (st_listValues d1) = {}"
    using Cons.prems(1,2) first by (auto simp: kl keyed_def image_iff)
  then have "d' = d1\<lparr>st_listValues := st_listValues d1 @ fork_lists plan ids kls\<rparr> \<and> (\<forall>(k, l) \<in> set kls. \<exists>p. policy_at plan ids (sl_address l) = Inr p)"
    using Cons.IH [OF _ _ d1(2)] Cons.prems(1) by (auto simp: keyed_def)
  then show ?case using first by (auto simp: kl split: sum.splits option.splits)
qed

section \<open>The fork\<close>

lemma copied_fields:
  fixes s :: "'n::zero session_state"
  defines "copied \<equiv> \<lambda>plan ids. filter (\<lambda>e. is_copied plan ids (ent_id e)) (st_entriesBySeq s)"
  assumes "distinct (map ent_id (st_entriesBySeq s))"
  shows "st_entriesBySeq (copied_entries s plan ids) = copied plan ids" "st_entries (copied_entries s plan ids) = by_id (copied plan ids)"
    "st_scalarValues (copied_entries s plan ids) = []" "st_listValues (copied_entries s plan ids) = []" "st_usage (copied_entries s plan ids) = []"
    "st_stats (copied_entries s plan ids) = \<lparr>sst_messageCount = messages (copied plan ids), sst_usage = emptyUsage\<rparr>"
proof -
  have fold: "foldl (\<lambda>d e. add_entry e d) d es = d\<lparr>st_entries := by_id (st_entriesBySeq d @ es), st_entriesBySeq := st_entriesBySeq d @ es\<rparr>"
    if "distinct (map ent_id (st_entriesBySeq d @ es))" "st_entries d = by_id (st_entriesBySeq d)" for d :: "'n session_state" and es
    using that
  proof (induction es arbitrary: d)
    case Nil
    then show ?case by simp
  next
    case (Cons e es)
    have "ent_id e \<notin> ent_id ` set (st_entriesBySeq d)" using Cons.prems(1) by auto
    then have "st_entries (add_entry e d) = by_id (st_entriesBySeq (add_entry e d))" using Cons.prems(2) by (simp add: add_entry_def by_id_snoc)
    moreover have "distinct (map ent_id (st_entriesBySeq (add_entry e d) @ es))" using Cons.prems(1) by (auto simp: add_entry_def)
    ultimately show ?case using Cons.IH [of "add_entry e d"] by (simp add: add_entry_def)
  qed
  have "distinct (map ent_id (copied plan ids))" using assms(2) by (auto simp: copied_def intro: distinct_map_filter)
  then have d: "foldl (\<lambda>d e. add_entry e d) new_session_state (copied plan ids)
      = new_session_state\<lparr>st_entries := by_id (copied plan ids), st_entriesBySeq := copied plan ids\<rparr>"
    using fold [of new_session_state "copied plan ids"] by (simp add: new_session_state_def by_id_def)
  show "st_entriesBySeq (copied_entries s plan ids) = copied plan ids" "st_entries (copied_entries s plan ids) = by_id (copied plan ids)"
    "st_scalarValues (copied_entries s plan ids) = []" "st_listValues (copied_entries s plan ids) = []" "st_usage (copied_entries s plan ids) = []"
    "st_stats (copied_entries s plan ids) = \<lparr>sst_messageCount = messages (copied plan ids), sst_usage = emptyUsage\<rparr>"
    using d by (simp_all add: copied_entries_def copied_def Let_def new_session_state_def messages_def)
qed

text \<open>The fields of a fork.\<close>

definition forked :: "'n::{zero, plus} session_state \<Rightarrow> fork_plan \<Rightarrow> jsstring list \<Rightarrow> 'n session_state \<Rightarrow> bool" where
  "forked s plan ids d \<longleftrightarrow>
     st_entriesBySeq d = filter (\<lambda>e. is_copied plan ids (ent_id e)) (st_entriesBySeq s) \<and> st_entries d = by_id (st_entriesBySeq d) \<and>
     st_scalarValues d = fork_values plan ids (st_scalarValues s) \<and> st_listValues d = fork_lists plan ids (st_listValues s) \<and> st_usage d = [] \<and>
     st_stats d = \<lparr>sst_messageCount = messages (st_entriesBySeq d), sst_usage = emptyUsage\<rparr> \<and> st_nextSeq d = st_nextSeq s"

lemma createFork_forked:
  assumes inv: "state_inv s" and fork: "createFork s options = Some (Inr d)"
  shows "\<exists>plan ids. selectForkPlan s options = Some (Inr (plan, ids)) \<and> forked s plan ids d \<and>
    (\<forall>(k, v) \<in> set (st_scalarValues s). \<exists>p. policy_at plan ids (sv_address v) = Inr p)"
proof -
  obtain plan ids d1 d2 where plan: "selectForkPlan s options = Some (Inr (plan, ids))"
    and d1: "rfold (project KindValue plan ids) (copied_entries s plan ids) (value_writes s) = Inr d1"
    and d2: "rfold (project KindList plan ids) d1 (list_writes s) = Inr d2" and d: "d = d2\<lparr>st_nextSeq := st_nextSeq s\<rparr>"
    using fork by (auto simp: createFork_def elim!: rbindE)
  have ok: "distinct (map ent_id (st_entriesBySeq s))" "keyed (value_ok (st_nextSeq s)) (st_scalarValues s)" "keyed (list_ok (st_nextSeq s)) (st_listValues s)"
    using inv by (auto simp: state_inv_def entries_ok_def values_ok_def)
  have "value_writes s = map (\<lambda>kv. value_write (snd kv)) (st_scalarValues s)" by (auto simp: value_writes_def value_write_def)
  then have e1: "d1 = (copied_entries s plan ids)\<lparr>st_scalarValues := fork_values plan ids (st_scalarValues s)\<rparr>"
    and policies: "\<forall>(k, v) \<in> set (st_scalarValues s). \<exists>p. policy_at plan ids (sv_address v) = Inr p"
    using project_values [OF ok(2) _ d1 [unfolded \<open>value_writes s = _\<close>]] copied_fields [OF ok(1), of plan ids] by auto
  have "list_writes s = concat (map (\<lambda>kl. map (element_write (sl_address (snd kl))) (sl_elements (snd kl))) (st_listValues s))"
    by (auto simp: list_writes_def element_write_def split_def fun_eq_iff intro!: arg_cong [of _ _ concat])
  then have "d2 = d1\<lparr>st_listValues := fork_lists plan ids (st_listValues s)\<rparr>"
    using project_lists [OF ok(3) _ d2 [unfolded \<open>list_writes s = _\<close>]] copied_fields [OF ok(1), of plan ids] e1 by auto
  then have "forked s plan ids d" using copied_fields [OF ok(1), of plan ids] e1 d by (simp add: forked_def)
  then show ?thesis using plan policies by blast
qed

text \<open>The plan of a fork: the whole tree, or the path of the tip of the destination.\<close>

lemma selectForkPlan_result:
  assumes "state_inv s"
  shows "selectForkPlan s options \<noteq> None"
    and "selectForkPlan s (ForkBranch b) = Some (Inr (plan, ids)) \<Longrightarrow> \<exists>a v tip path. branchTip (fb_branch b) = Inr a \<and>
      map_option sv_value (getValue s a) = Some v \<and> tip_of v = Some tip \<and> tip_path (parent_of s) tip path \<and>
      requested_entry b tip \<in> insert None (Some ` set path) \<and> plan = PlanBranch (fb_branch b) (chosen_tip s b tip) \<and>
      tip_path (parent_of s) (chosen_tip s b tip) ids \<and> configured s (fb_branch b) = Inr ()"
proof -
  show "selectForkPlan s options \<noteq> None"
    using selectBranchFork_result(1) [OF assms] by (auto simp: selectForkPlan_def split: fork_options.splits sum.splits)
  assume "selectForkPlan s (ForkBranch b) = Some (Inr (plan, ids))"
  then obtain a t where a: "branchTip (fb_branch b) = Inr a" "plan = PlanBranch (fb_branch b) t" "configured s (fb_branch b) = Inr ()"
    "selectBranchFork b (map_option sv_value (getValue s a)) (parent_of s) = Some (Inr (t, ids))"
    by (auto simp: selectForkPlan_def elim!: rbindE split: sum.splits)
  then show "\<exists>a v tip path. branchTip (fb_branch b) = Inr a \<and>
      map_option sv_value (getValue s a) = Some v \<and> tip_of v = Some tip \<and> tip_path (parent_of s) tip path \<and>
      requested_entry b tip \<in> insert None (Some ` set path) \<and> plan = PlanBranch (fb_branch b) (chosen_tip s b tip) \<and>
      tip_path (parent_of s) (chosen_tip s b tip) ids \<and> configured s (fb_branch b) = Inr ()"
    using selectBranchFork_result(2) [OF assms a(4)] by fastforce
qed

text \<open>What is copied holds the parents of what is copied.\<close>

definition closed_plan :: "'n session_state \<Rightarrow> fork_plan \<Rightarrow> jsstring list \<Rightarrow> bool" where
  "closed_plan s plan ids \<longleftrightarrow> (\<forall>i p. is_copied plan ids i \<longrightarrow> parent_of s i = Some (Some p) \<longrightarrow> is_copied plan ids p)"

lemma ancestry_closed: "ancestry parent i ids \<Longrightarrow> j \<in> set ids \<Longrightarrow> parent j = Some (Some p) \<Longrightarrow> p \<in> set ids"
proof (induction rule: ancestry.induct)
  case (root i)
  then show ?case by simp
next
  case (step i q ids)
  then show ?case using ancestry_hd [OF step.hyps(2)] by auto
qed

lemma plan_closed: "state_inv s \<Longrightarrow> selectForkPlan s options = Some (Inr (plan, ids)) \<Longrightarrow> closed_plan s plan ids"
proof (cases options)
  case ForkTree
  assume "selectForkPlan s options = Some (Inr (plan, ids))"
  then show ?thesis using ForkTree by (auto simp: selectForkPlan_def closed_plan_def is_copied_def)
next
  case (ForkBranch b)
  assume "state_inv s" "selectForkPlan s options = Some (Inr (plan, ids))"
  then obtain t where "plan = PlanBranch (fb_branch b) t" "tip_path (parent_of s) t ids"
    using selectForkPlan_result(2) [of s b plan ids] ForkBranch by blast
  then show ?thesis using ancestry_closed [of "parent_of s" _ ids]
    by (auto simp: closed_plan_def is_copied_def tip_path_def split: option.splits)
qed

lemma fork_values_element: "(k, u) \<in> set (fork_values plan ids kvs) \<Longrightarrow> \<exists>v f. (k, v) \<in> set kvs \<and> u = v\<lparr>sv_value := f (sv_value v)\<rparr>"
  by (induction plan ids kvs rule: fork_values.induct) (auto split: sum.splits option.splits)

lemma fork_values_keyed:
  assumes "keyed (value_ok bound) kvs"
  shows "keyed (value_ok bound) (fork_values plan ids kvs)"
proof -
  have "distinct (map fst kvs) \<Longrightarrow> distinct (map fst (fork_values plan ids kvs))" for kvs
  proof (induction plan ids kvs rule: fork_values.induct)
    case (2 plan ids k v kvs)
    then have "k \<notin> fst ` set (fork_values plan ids kvs)" by (force dest: fork_values_element)
    then show ?case using 2 by (auto split: sum.splits option.splits)
  qed simp
  then show ?thesis using assms by (fastforce simp: keyed_def value_ok_def o_def dest: fork_values_element)
qed

lemma fork_lists_element: "(k, u) \<in> set (fork_lists plan ids kvs) \<Longrightarrow> \<exists>v f. (k, v) \<in> set kvs \<and> u = v\<lparr>sl_elements := map (\<lambda>x. x\<lparr>le_value := f (le_value x)\<rparr>) (sl_elements v)\<rparr>"
  by (induction plan ids kvs rule: fork_lists.induct) (auto split: sum.splits option.splits)

lemma fork_lists_keyed:
  assumes "keyed (list_ok bound) kvs"
  shows "keyed (list_ok bound) (fork_lists plan ids kvs)"
proof -
  have "distinct (map fst kvs) \<Longrightarrow> distinct (map fst (fork_lists plan ids kvs))" for kvs
  proof (induction plan ids kvs rule: fork_lists.induct)
    case (2 plan ids k v kvs)
    then have "k \<notin> fst ` set (fork_lists plan ids kvs)" by (force dest: fork_lists_element)
    then show ?case using 2 by (auto split: sum.splits option.splits)
  qed simp
  then show ?thesis using assms by (fastforce simp: keyed_def list_ok_def o_def dest: fork_lists_element)
qed

lemma fork_inv:
  assumes inv: "state_inv s" and fork: "forked s plan ids d" and closed: "closed_plan s plan ids"
  shows "state_inv d"
proof -
  let ?c = "filter (\<lambda>e. is_copied plan ids (ent_id e)) (st_entriesBySeq s)"
  have ok: "distinct (map ent_id (st_entriesBySeq s))" "st_entries s = by_id (st_entriesBySeq s)"
    "ascends (st_nextSeq s) (map ent_seq (st_entriesBySeq s))" "parents_ok (st_entriesBySeq s)"
    using inv by (auto simp: state_inv_def entries_ok_def)
  have "parents_ok ?c"
    unfolding parents_ok_def
  proof (intro ballI allI impI)
    fix e p
    assume e: "e \<in> set ?c" and p: "ent_parentId e = Some p"
    then obtain e' where e': "e' \<in> set (st_entriesBySeq s)" "ent_id e' = p" "ent_seq e' < ent_seq e" using ok(4) by (auto simp: parents_ok_def)
    have "st_entries s (ent_id e) = Some e" using e ok(1,2) by (simp add: by_id_Some)
    then have "parent_of s (ent_id e) = Some (Some p)" using p by (simp add: parent_of_def)
    then have "is_copied plan ids p" using closed e by (auto simp: closed_plan_def)
    then show "\<exists>e' \<in> set ?c. ent_id e' = p \<and> ent_seq e' < ent_seq e" using e' by auto
  qed
  moreover have "distinct (map ent_id ?c)" using ok(1) by (rule distinct_map_filter)
  moreover have "ascends (st_nextSeq s) (map ent_seq ?c)" using ok(3) by (rule ascends_filter)
  ultimately have "entries_ok d" using fork by (simp add: entries_ok_def forked_def)
  moreover have "values_ok d" using inv fork by (simp add: state_inv_def values_ok_def forked_def fork_values_keyed fork_lists_keyed)
  moreover have "usage_ok d" using fork by (simp add: usage_ok_def keyed_def forked_def ascends_def)
  ultimately show ?thesis using inv fork by (simp add: state_inv_def forked_def)
qed

lemma createFork_inv: "state_inv s \<Longrightarrow> createFork s options = Some (Inr d) \<Longrightarrow> state_inv d"
  using createFork_forked plan_closed fork_inv by blast

text \<open>The entries of a fork.\<close>

lemma by_id_filter:
  assumes "distinct (map ent_id es)"
  shows "by_id (filter (\<lambda>e. P (ent_id e)) es) i = (if P i then by_id es i else None)"
proof (cases "by_id es i")
  case None
  then have "by_id (filter (\<lambda>e. P (ent_id e)) es) i = None" by (auto simp: by_id_None)
  then show ?thesis using None by simp
next
  case (Some e)
  then have e: "e \<in> set es" "ent_id e = i" using by_id_Some [OF assms] by auto
  show ?thesis
  proof (cases "P i")
    case True
    then have "by_id (filter (\<lambda>e. P (ent_id e)) es) i = Some e" using e by (simp add: by_id_Some distinct_map_filter assms)
    then show ?thesis using True Some by simp
  next
    case False
    then show ?thesis using by_id_None [of "filter (\<lambda>e. P (ent_id e)) es" i] by auto
  qed
qed

lemma forked_entry:
  assumes "state_inv s" "forked s plan ids d"
  shows "st_entries d i = (if is_copied plan ids i then st_entries s i else None)"
  using assms by (simp add: forked_def state_inv_def entries_ok_def by_id_filter)

lemma ancestry_cong: "ancestry parent i ids \<Longrightarrow> (\<And>j. j \<in> set ids \<Longrightarrow> parent' j = parent j) \<Longrightarrow> ancestry parent' i ids"
  by (induction rule: ancestry.induct) (auto intro: ancestry.intros)

lemma path_copied:
  assumes "closed_plan s plan ids"
  shows "ancestry (parent_of s) i path \<Longrightarrow> is_copied plan ids i \<Longrightarrow> j \<in> set path \<Longrightarrow> is_copied plan ids j"
proof (induction rule: ancestry.induct)
  case (root i)
  then show ?case by simp
next
  case (step i p path)
  then show ?case using assms by (auto simp: closed_plan_def)
qed

lemma forked_scan:
  assumes inv: "state_inv s" and fork: "forked s plan ids d" and closed: "closed_plan s plan ids" and start: "is_copied plan ids (bs_start q)"
  shows "scanBranch d q = scanBranch s q"
proof (cases "st_entries s (bs_start q)")
  case None
  then show ?thesis using forked_entry [OF inv fork] by (simp add: scanBranch_def)
next
  case (Some e)
  note entry = forked_entry [OF inv fork]
  have "st_entries s (bs_start q) \<noteq> None" "st_entries d (bs_start q) \<noteq> None" using Some start entry by simp_all
  then obtain path path' where path: "ancestry (parent_of s) (bs_start q) path" "scanBranch s q = Some (Inr (select_path q (path_entries s path)))"
    and path': "ancestry (parent_of d) (bs_start q) path'" "scanBranch d q = Some (Inr (select_path q (path_entries d path')))"
    using scanBranch_known [OF inv, of q] scanBranch_known [OF fork_inv [OF inv fork closed], of q] by blast
  have copied: "is_copied plan ids j" if "j \<in> set path" for j by (rule path_copied [OF closed path(1) start that])
  then have "ancestry (parent_of d) (bs_start q) path" using ancestry_cong [OF path(1), of "parent_of d"] by (simp add: parent_of_def entry)
  then have "path' = path" using ancestry_unique [OF _ path'(1)] by blast
  moreover have "path_entries d path = path_entries s path" using copied by (simp add: path_entries_def entry)
  ultimately show ?thesis using path(2) path'(2) by simp
qed

text \<open>The values of a fork.\<close>

lemma map_of_fork_values:
  "distinct (map fst kvs) \<Longrightarrow> map_of (fork_values plan ids kvs) k = (case map_of kvs k of None \<Rightarrow> None
     | Some v \<Rightarrow> (case policy_at plan ids (sv_address v) of Inr (Some f) \<Rightarrow> Some (v\<lparr>sv_value := f (sv_value v)\<rparr>) | _ \<Rightarrow> None))"
proof (induction plan ids kvs rule: fork_values.induct)
  case (1 plan ids)
  then show ?case by simp
next
  case (2 plan ids a v kvs)
  show ?case
  proof (cases "k = a")
    case True
    then have "map_of kvs k = None" using 2(4) by (auto simp: map_of_eq_None_iff)
    then show ?thesis using 2 True by (simp split: sum.splits option.splits)
  next
    case False
    then show ?thesis using 2 by (simp split: sum.splits option.splits)
  qed
qed

lemma address_key_inject: "address_ok a \<Longrightarrow> address_ok b \<Longrightarrow> address_key a = address_key b \<longleftrightarrow> a = b"
  by (cases a; cases b) (auto simp: address_key_def address_ok_def valid_address_def physicalKey_inject)

lemma getValue_address:
  assumes "state_inv s" "address_ok a" "getValue s a = Some v"
  shows "sv_address v = a"
proof -
  have "keyed (value_ok (st_nextSeq s)) (st_scalarValues s)" using assms(1) by (simp add: state_inv_def values_ok_def)
  then have "value_ok (st_nextSeq s) (address_key a) v"
    by (rule keyed_map_of) (use assms(3) in \<open>simp add: getValue_def address_key_def\<close>)
  then show ?thesis using address_key_inject [OF assms(2)] by (auto simp: value_ok_def)
qed

lemma forked_value:
  assumes inv: "state_inv s" and fork: "forked s plan ids d" and a: "address_ok a"
  shows "getValue d a = (case getValue s a of None \<Rightarrow> None
     | Some v \<Rightarrow> (case policy_at plan ids a of Inr (Some f) \<Rightarrow> Some (v\<lparr>sv_value := f (sv_value v)\<rparr>) | _ \<Rightarrow> None))"
proof -
  have "distinct (map fst (st_scalarValues s))" using inv by (simp add: state_inv_def values_ok_def keyed_def)
  then show ?thesis using map_of_fork_values getValue_address [OF inv a] fork
    by (auto simp: forked_def getValue_def split: option.splits)
qed

end
