(* ===== verification/SessionStorage.thy ===== *)
theory SessionStorage
  imports SessionForks
begin

text \<open>
  The \<^verbatim>\<open>MemoryStorage\<close> of \<^verbatim>\<open>packages/agent/src/harness/session/memory.ts\<close>: commits and forks are queued and run one after the other,
  reads see the state between them, and closing lets the queue run out. What commits and forks guarantee is stated here.
\<close>

section \<open>The storage\<close>

datatype storage_status = Open | Closing | Closed

record 'n commit_result =
  cr_firstSeq :: nat
  cr_seqs :: "nat list"
  cr_timestamp :: nat
  cr_stats :: "'n session_stats"

datatype 'n job = CommitJob "'n session_write list" | ForkJob fork_options

datatype 'n outcome = Committed "(session_error, 'n commit_result) result" | Forked "(session_error, 'n session_state) result option"

text \<open>The queue holds the jobs whose turn has not come; a close is waiting until it is empty.\<close>

record 'n memory_storage =
  mst_state :: "'n session_state"
  mst_queue :: "'n job list"
  mst_status :: storage_status

definition new_memory_storage :: "'n::zero memory_storage" where
  "new_memory_storage = \<lparr>mst_state = new_session_state, mst_queue = [], mst_status = Open\<rparr>"

definition commit_job :: "'n::{zero, plus} session_state \<Rightarrow> 'n session_write list \<Rightarrow> nat \<Rightarrow> 'n session_state \<times> (session_error, 'n commit_result) result" where
  "commit_job s writes now = (case prepareCommit s writes now of
      Inl e \<Rightarrow> (s, Inl e)
    | Inr prepared \<Rightarrow> (case applyValidated s (pc_writes prepared) of (s', r) \<Rightarrow>
        (s', rbind r (\<lambda>stats. Inr \<lparr>cr_firstSeq = pc_firstSeq prepared, cr_seqs = pc_seqs prepared, cr_timestamp = pc_timestamp prepared, cr_stats = stats\<rparr>))))"

fun run_job :: "'n::{zero, plus} session_state \<Rightarrow> 'n job \<Rightarrow> nat \<Rightarrow> 'n session_state \<times> 'n outcome" where
  "run_job s (CommitJob writes) now = (case commit_job s writes now of (s', r) \<Rightarrow> (s', Committed r))"
| "run_job s (ForkJob options) now = (s, Forked (createFork s options))"

text \<open>A call is refused, or its job is queued.\<close>

definition storage_call :: "'n memory_storage \<Rightarrow> 'n job \<Rightarrow> 'n memory_storage \<times> bool" where
  "storage_call m job = (if mst_status m \<noteq> Open then (m, False) else (m\<lparr>mst_queue := mst_queue m @ [job]\<rparr>, True))"

definition mst_close :: "'n memory_storage \<Rightarrow> 'n memory_storage" where
  "mst_close m = (if mst_status m = Open then m\<lparr>mst_status := Closing\<rparr> else m)"

text \<open>The next turn of the queue at a time: the oldest job, or the end of a close.\<close>

definition storage_turn :: "'n::{zero, plus} memory_storage \<Rightarrow> nat \<Rightarrow> 'n memory_storage \<times> 'n outcome option" where
  "storage_turn m now = (case mst_queue m of
      [] \<Rightarrow> (if mst_status m = Closing then m\<lparr>mst_status := Closed\<rparr> else m, None)
    | job # rest \<Rightarrow> (case run_job (mst_state m) job now of (s', r) \<Rightarrow> (m\<lparr>mst_state := s', mst_queue := rest\<rparr>, Some r)))"

text \<open>A read: refused unless the storage is open, else of the state as it is.\<close>

definition storage_read :: "'n memory_storage \<Rightarrow> ('n session_state \<Rightarrow> 'a) \<Rightarrow> 'a option" where
  "storage_read m read = (if mst_status m \<noteq> Open then None else Some (read (mst_state m)))"

section \<open>Any order of calls and turns\<close>

datatype 'n storage_event = Call "'n job" | Close | Turn nat

text \<open>The storage after the events, the calls it accepted, and the jobs it ran with their times and outcomes.\<close>

record 'n storage_history =
  sh_storage :: "'n memory_storage"
  sh_accepted :: "'n job list"
  sh_done :: "('n job \<times> nat \<times> 'n outcome) list"

fun storage_react :: "'n::{zero, plus} storage_history \<Rightarrow> 'n storage_event \<Rightarrow> 'n storage_history" where
  "storage_react h (Call job) = (case storage_call (sh_storage h) job of (m, accepted) \<Rightarrow>
     h\<lparr>sh_storage := m, sh_accepted := (if accepted then sh_accepted h @ [job] else sh_accepted h)\<rparr>)"
| "storage_react h Close = h\<lparr>sh_storage := mst_close (sh_storage h)\<rparr>"
| "storage_react h (Turn now) = (case storage_turn (sh_storage h) now of (m, r) \<Rightarrow>
     h\<lparr>sh_storage := m,
       sh_done := (case r of None \<Rightarrow> sh_done h | Some outcome \<Rightarrow> sh_done h @ [(hd (mst_queue (sh_storage h)), now, outcome)])\<rparr>)"

definition storage_events :: "'n::{zero, plus} storage_event list \<Rightarrow> 'n storage_history" where
  "storage_events events = foldl storage_react \<lparr>sh_storage = new_memory_storage, sh_accepted = [], sh_done = []\<rparr> events"

text \<open>The specification: jobs run one after the other.\<close>

fun serially :: "'n::{zero, plus} session_state \<Rightarrow> ('n job \<times> nat) list \<Rightarrow> 'n session_state \<times> 'n outcome list" where
  "serially s [] = (s, [])"
| "serially s ((job, now) # rest) = (case run_job s job now of (s', r) \<Rightarrow> (case serially s' rest of (t, rs) \<Rightarrow> (t, r # rs)))"

fun calls_before_close :: "'n storage_event list \<Rightarrow> 'n job list" where
  "calls_before_close [] = []"
| "calls_before_close (Call job # events) = job # calls_before_close events"
| "calls_before_close (Close # events) = []"
| "calls_before_close (Turn now # events) = calls_before_close events"

lemma serially_snoc: "serially s (jobs @ [(job, now)]) = (case serially s jobs of (t, rs) \<Rightarrow> (case run_job t job now of (u, r) \<Rightarrow> (u, rs @ [r])))"
  by (induction s jobs rule: serially.induct) (auto split: prod.splits)

lemma calls_before_close_append:
  "calls_before_close (events @ later) = calls_before_close events @ (if Close \<in> set events then [] else calls_before_close later)"
  by (induction events rule: calls_before_close.induct) auto

text \<open>
  What holds after any events: the jobs done had the outcomes of a serial run and left its state, the accepted calls are the jobs done
  and those in the queue, and they are the calls before the first close.
\<close>

definition history_ok :: "'n::{zero, plus} storage_event list \<Rightarrow> 'n storage_history \<Rightarrow> bool" where
  "history_ok events h \<longleftrightarrow>
     serially new_session_state (map (\<lambda>d. (fst d, fst (snd d))) (sh_done h)) = (mst_state (sh_storage h), map (\<lambda>d. snd (snd d)) (sh_done h)) \<and>
     sh_accepted h = map fst (sh_done h) @ mst_queue (sh_storage h) \<and> sh_accepted h = calls_before_close events \<and>
     (mst_status (sh_storage h) = Open \<longleftrightarrow> Close \<notin> set events) \<and> (mst_status (sh_storage h) = Closed \<longrightarrow> mst_queue (sh_storage h) = [])"

lemma storage_react_ok: "history_ok events h \<Longrightarrow> history_ok (events @ [e]) (storage_react h e)"
proof (cases e)
  case (Call job)
  assume "history_ok events h"
  then show ?thesis using Call by (auto simp: history_ok_def storage_call_def calls_before_close_append)
next
  case Close
  assume "history_ok events h"
  then show ?thesis using Close by (auto simp: history_ok_def mst_close_def calls_before_close_append)
next
  case (Turn now)
  assume ok: "history_ok events h"
  show ?thesis
  proof (cases "mst_queue (sh_storage h)")
    case Nil
    then show ?thesis using ok Turn by (auto simp: history_ok_def storage_turn_def calls_before_close_append)
  next
    case (Cons job rest)
    obtain s r where "run_job (mst_state (sh_storage h)) job now = (s, r)" by fastforce
    then show ?thesis using ok Turn Cons by (auto simp: history_ok_def storage_turn_def calls_before_close_append serially_snoc)
  qed
qed

lemma storage_events_ok: "history_ok events (storage_events events)"
proof (induction events rule: rev_induct)
  case Nil
  then show ?case by (simp add: history_ok_def storage_events_def new_memory_storage_def)
next
  case (snoc e events)
  then show ?case using storage_react_ok [OF snoc] by (simp add: storage_events_def)
qed

section \<open>Any sequence of operations\<close>

datatype 'n session_op = Commit "'n session_write list" nat | Replay "'n committed_write list" | Advance jsnum | ForkOff fork_options

fun session_do :: "'n::{zero, plus} session_state \<Rightarrow> 'n session_op \<Rightarrow> 'n session_state" where
  "session_do s (Commit writes now) = fst (commit_job s writes now)"
| "session_do s (Replay writes) = (case validateCommitted s writes of Inl e \<Rightarrow> s | Inr _ \<Rightarrow> fst (applyValidated s writes))"
| "session_do s (Advance n) = fst (advanceNextSeq s n)"
| "session_do s (ForkOff options) = (case createFork s options of Some (Inr d) \<Rightarrow> d | _ \<Rightarrow> s)"

definition session_after :: "'n::{zero, plus} session_op list \<Rightarrow> 'n session_state" where
  "session_after ops = foldl session_do new_session_state ops"

lemma commit_job_state: "fst (commit_job s writes now) = s \<or>
    (\<exists>ws. validateCommitted s ws = Inr () \<and> fst (commit_job s writes now) = fst (applyValidated s ws))"
  by (auto simp: commit_job_def prepareCommit_def Let_def elim!: rbindE split: sum.splits prod.splits)

lemma advance_inv: "state_inv s \<Longrightarrow> state_inv (fst (advanceNextSeq s n))"
proof (cases "fst (advanceNextSeq s n) = s")
  case False
  assume inv: "state_inv s"
  obtain m where m: "fst (advanceNextSeq s n) = s\<lparr>st_nextSeq := max (st_nextSeq s) m\<rparr>"
    using False by (auto simp: advanceNextSeq_def split: jsnum.splits if_splits)
  have "entries_ok (s\<lparr>st_nextSeq := max (st_nextSeq s) m\<rparr>)" by (rule entries_ok_mono) (use inv in \<open>auto simp: state_inv_def\<close>)
  moreover have "usage_ok (s\<lparr>st_nextSeq := max (st_nextSeq s) m\<rparr>)"
    by (rule usage_ok_mono) (use inv in \<open>auto simp: state_inv_def has_entry_def\<close>)
  moreover have "values_ok (s\<lparr>st_nextSeq := max (st_nextSeq s) m\<rparr>)" by (rule values_ok_mono) (use inv in \<open>auto simp: state_inv_def\<close>)
  ultimately show ?thesis using inv m by (simp add: state_inv_def le_max_iff_disj)
qed simp

lemma session_do_inv:
  assumes inv: "state_inv s"
  shows "state_inv (session_do s op)"
proof (cases op)
  case (Commit writes now)
  then show ?thesis using inv commit_job_state [of s writes now] applyValidated_inv [OF inv] by auto
next
  case (Replay writes)
  then show ?thesis using inv applyValidated_inv [OF inv, of writes] by (auto split: sum.splits)
next
  case (Advance n)
  then show ?thesis using inv advance_inv by simp
next
  case (ForkOff options)
  then show ?thesis using inv createFork_inv [OF inv, of options] by (auto split: option.splits sum.splits)
qed

lemma session_after_inv: "state_inv (session_after ops)"
proof (induction ops rule: rev_induct)
  case Nil
  then show ?case by (simp add: session_after_def new_state_inv)
next
  case (snoc op ops)
  then show ?case by (simp add: session_after_def session_do_inv)
qed

section \<open>What a commit does\<close>

text \<open>
  The specification: a log of entries and of usage rows, a value and a list for every address, and the next sequence number.
\<close>

record 'n session_view =
  view_entries :: "'n entry list"
  view_usage :: "'n usage_row list"
  view_value :: "value_address \<Rightarrow> (nat \<times> json) option"
  view_list :: "value_address \<Rightarrow> list_element list"
  view_next :: nat

definition view_of :: "'n session_state \<Rightarrow> 'n session_view" where
  "view_of s = \<lparr>view_entries = st_entriesBySeq s, view_usage = map snd (st_usage s),
     view_value = (\<lambda>a. if address_ok a then map_option (\<lambda>v. (sv_seq v, sv_value v)) (getValue s a) else None),
     view_list = (\<lambda>a. if address_ok a then (case map_of (st_listValues s) (address_key a) of None \<Rightarrow> [] | Some l \<Rightarrow> sl_elements l) else []),
     view_next = st_nextSeq s\<rparr>"

definition the_address :: "jsstring \<Rightarrow> jsstring \<Rightarrow> value_address" where
  "the_address namespace key = \<lparr>va_namespace = namespace, va_key = key\<rparr>"

fun view_write :: "'n session_view \<Rightarrow> 'n session_write \<Rightarrow> nat \<Rightarrow> 'n session_view" where
  "view_write v (EntryWrite e) now = v\<lparr>view_entries := view_entries v @ [new_entry.extend e \<lparr>ent_seq = view_next v, ent_timestamp = now\<rparr>],
     view_next := view_next v + 1\<rparr>"
| "view_write v (UsageWrite r) now = v\<lparr>view_usage := view_usage v @ [new_usage_row.extend r \<lparr>ur_seq = view_next v\<rparr>], view_next := view_next v + 1\<rparr>"
| "view_write v (ValueSetWrite n k x) now = v\<lparr>view_value := (view_value v)(the_address n k \<mapsto> (view_next v, x)), view_next := view_next v + 1\<rparr>"
| "view_write v (ValueDeleteWrite n k) now = v\<lparr>view_value := (view_value v)(the_address n k := None), view_next := view_next v + 1\<rparr>"
| "view_write v (ListAppendWrite n k x) now =
     v\<lparr>view_list := (view_list v)(the_address n k := view_list v (the_address n k) @ [\<lparr>le_seq = view_next v, le_value = x\<rparr>]), view_next := view_next v + 1\<rparr>"
| "view_write v (ListDeleteWrite n k) now = v\<lparr>view_list := (view_list v)(the_address n k := []), view_next := view_next v + 1\<rparr>"

fun write_address_ok :: "'n session_write \<Rightarrow> bool" where
  "write_address_ok (ValueSetWrite n k _) = valid_address n k"
| "write_address_ok (ValueDeleteWrite n k) = valid_address n k"
| "write_address_ok (ListAppendWrite n k _) = valid_address n k"
| "write_address_ok (ListDeleteWrite n k) = valid_address n k"
| "write_address_ok _ = True"

definition view_has_id :: "'n session_view \<Rightarrow> jsstring \<Rightarrow> bool" where
  "view_has_id v i \<longleftrightarrow> i \<in> ent_id ` set (view_entries v) \<or> i \<in> ur_id ` set (view_usage v)"

text \<open>The writes a commit accepts: new ids, and parents that are there before them.\<close>

fun acceptable :: "'n session_view \<Rightarrow> 'n session_write list \<Rightarrow> nat \<Rightarrow> bool" where
  "acceptable v [] now = True"
| "acceptable v (w # ws) now = ((case w of
      EntryWrite e \<Rightarrow> \<not> view_has_id v (ent_id e) \<and> (case ent_parentId e of None \<Rightarrow> True | Some p \<Rightarrow> p \<in> ent_id ` set (view_entries v))
    | UsageWrite r \<Rightarrow> \<not> view_has_id v (ur_id r)
    | _ \<Rightarrow> True) \<and> acceptable (view_write v w now) ws now)"

lemma address_key_the: "address_key (the_address n k) = physicalKey n k" "address_ok (the_address n k) = valid_address n k"
  by (simp_all add: address_key_def address_ok_def the_address_def)

lemma getValue_key: "getValue s a = map_of (st_scalarValues s) (address_key a)"
  by (simp add: getValue_def address_key_def)

lemma key_the_address: "valid_address n k \<Longrightarrow> address_ok a \<Longrightarrow> address_key a = physicalKey n k \<longleftrightarrow> a = the_address n k"
  using address_key_inject [of a "the_address n k"] by (simp add: address_key_the)

lemma view_write_refines:
  assumes inv: "state_inv s" and ok: "write_address_ok w" and valid: "valid_next s (commitWrite w (st_nextSeq s) now)"
  shows "\<exists>t. apply_committed s (commitWrite w (st_nextSeq s) now) = Inr t \<and> view_of (advance t (commitWrite w (st_nextSeq s) now)) = view_write (view_of s) w now"
proof (cases w)
  case (EntryWrite e)
  then show ?thesis by (auto simp: apply_committed_def add_entry_def Let_def view_of_def getValue_def fun_eq_iff new_entry.defs)
next
  case (UsageWrite r)
  then have "ur_id r \<notin> fst ` set (st_usage s)" using valid by (auto simp: valid_next_def has_id_def map_of_eq_None_iff new_usage_row.defs)
  then show ?thesis using UsageWrite by (auto simp: apply_committed_def view_of_def getValue_def fun_eq_iff map_set_new new_usage_row.defs)
next
  case (ValueSetWrite n k x)
  then show ?thesis using ok
    by (auto simp: apply_committed_def applyValueSetOrListAppend_def Let_def make_address_cases view_of_def getValue_key fun_eq_iff key_the_address address_key_the)
next
  case (ValueDeleteWrite n k)
  then show ?thesis using ok by (auto simp: apply_committed_def view_of_def getValue_key fun_eq_iff key_the_address address_key_the)
next
  case (ListAppendWrite n k x)
  then show ?thesis using ok
    by (auto simp: apply_committed_def applyValueSetOrListAppend_def Let_def make_address_cases view_of_def getValue_key fun_eq_iff key_the_address address_key_the
      split: option.splits)
next
  case (ListDeleteWrite n k)
  then show ?thesis using ok by (auto simp: apply_committed_def view_of_def getValue_key fun_eq_iff key_the_address address_key_the)
qed

text \<open>The writes of a commit with their sequence numbers.\<close>

fun stamped :: "nat \<Rightarrow> nat \<Rightarrow> 'n session_write list \<Rightarrow> 'n committed_write list" where
  "stamped n now [] = []"
| "stamped n now (w # ws) = commitWrite w n now # stamped (Suc n) now ws"

lemma committed_seq_commitWrite [simp]: "committed_seq (commitWrite w n now) = n"
  by (cases w) (simp_all add: new_entry.defs new_usage_row.defs)

lemma prepare_stamped: "pc_writes (prepareStorageCommit ws n now) = stamped n now ws" "pc_seqs (prepareStorageCommit ws n now) = [n..<n + length ws]"
proof -
  have "map (\<lambda>(i, w). commitWrite w (n + i) now) (enumerate m ws) = stamped (n + m) now ws" for m
    by (induction ws arbitrary: m) simp_all
  then show "pc_writes (prepareStorageCommit ws n now) = stamped n now ws" by (simp add: prepareStorageCommit_def Let_def)
  moreover have "map committed_seq (stamped n now ws) = [n..<n + length ws]"
    by (induction ws arbitrary: n) (simp_all add: upt_rec)
  ultimately show "pc_seqs (prepareStorageCommit ws n now) = [n..<n + length ws]" by (simp add: prepareStorageCommit_def Let_def)
qed

lemma valid_next_view:
  assumes "state_inv s"
  shows "valid_next s (commitWrite w (st_nextSeq s) now) \<longleftrightarrow> (case w of
      EntryWrite e \<Rightarrow> \<not> view_has_id (view_of s) (ent_id e) \<and> (case ent_parentId e of None \<Rightarrow> True | Some p \<Rightarrow> p \<in> ent_id ` set (view_entries (view_of s)))
    | UsageWrite r \<Rightarrow> \<not> view_has_id (view_of s) (ur_id r)
    | _ \<Rightarrow> True)"
proof -
  have entry: "has_entry s i \<longleftrightarrow> i \<in> ent_id ` set (st_entriesBySeq s)" for i
    using assms by_id_None [of "st_entriesBySeq s" i] by (auto simp: has_entry_def state_inv_def entries_ok_def)
  have "map_of (st_usage s) i \<noteq> None \<longleftrightarrow> i \<in> ur_id ` snd ` set (st_usage s)" for i
    using assms by (force simp: state_inv_def usage_ok_def keyed_def map_of_eq_None_iff)
  then have "has_id s i \<longleftrightarrow> view_has_id (view_of s) i" for i by (simp add: has_id_def entry view_has_id_def view_of_def)
  then show ?thesis by (cases w) (auto simp: valid_next_def entry view_of_def new_entry.defs new_usage_row.defs split: option.splits)
qed

lemma apply_view:
  assumes "state_inv s" "list_all write_address_ok ws"
  shows "(validateCommitted s (stamped (st_nextSeq s) now ws) = Inr () \<longleftrightarrow> acceptable (view_of s) ws now) \<and>
    (acceptable (view_of s) ws now \<longrightarrow> (\<exists>t. applyValidated s (stamped (st_nextSeq s) now ws) = (t, Inr (st_stats t)) \<and>
       view_of t = foldl (\<lambda>v w. view_write v w now) (view_of s) ws))"
  using assms
proof (induction ws arbitrary: s)
  case Nil
  then show ?case by (simp add: validateCommitted_def validateCommittedWrites_def)
next
  case (Cons w ws)
  let ?w = "commitWrite w (st_nextSeq s) now"
  show ?case
  proof (cases "valid_next s ?w")
    case True
    obtain t where t: "apply_committed s ?w = Inr t" "view_of (advance t ?w) = view_write (view_of s) w now"
      using view_write_refines [OF Cons.prems(1) _ True] Cons.prems(2) by auto
    have inv: "state_inv (advance t ?w)" by (rule apply_inv [OF Cons.prems(1) True t(1)])
    have "list_all write_address_ok ws" using Cons.prems(2) by simp
    then show ?thesis using Cons.IH [OF inv] validate_Cons [OF t(1)] t True valid_next_view [OF Cons.prems(1), of w now]
      by (auto simp: advance_def)
  next
    case False
    then show ?thesis using validate_first [of s ?w] valid_next_view [OF Cons.prems(1), of w now] by auto
  qed
qed

lemma commit_job_view:
  assumes inv: "state_inv s" and ok: "list_all write_address_ok ws"
  shows "if acceptable (view_of s) ws now
    then \<exists>t. commit_job s ws now = (t, Inr \<lparr>cr_firstSeq = st_nextSeq s, cr_seqs = [st_nextSeq s..<st_nextSeq s + length ws], cr_timestamp = now, cr_stats = st_stats t\<rparr>) \<and>
      view_of t = foldl (\<lambda>v w. view_write v w now) (view_of s) ws
    else \<exists>e. commit_job s ws now = (s, Inl e)"
proof (cases "validateCommitted s (stamped (st_nextSeq s) now ws)")
  case (Inl e)
  then show ?thesis using apply_view [OF inv ok, of now] by (auto simp: commit_job_def prepareCommit_def Let_def prepare_stamped)
next
  case (Inr u)
  then have acc: "acceptable (view_of s) ws now" using apply_view [OF inv ok, of now] by simp
  then obtain t where t: "applyValidated s (stamped (st_nextSeq s) now ws) = (t, Inr (st_stats t))" "view_of t = foldl (\<lambda>v w. view_write v w now) (view_of s) ws"
    using apply_view [OF inv ok, of now] by blast
  have "pc_firstSeq (prepareStorageCommit ws (st_nextSeq s) now) = st_nextSeq s" "pc_timestamp (prepareStorageCommit ws (st_nextSeq s) now) = now"
    by (simp_all add: prepareStorageCommit_def Let_def)
  then show ?thesis using t acc Inr by (simp add: commit_job_def prepareCommit_def Let_def prepare_stamped)
qed

section \<open>Properties of a session\<close>

text \<open>What the policy makes of the values and the lists of a view.\<close>

definition policy_values :: "fork_plan \<Rightarrow> jsstring list \<Rightarrow> (value_address \<Rightarrow> (nat \<times> json) option) \<Rightarrow> value_address \<Rightarrow> (nat \<times> json) option" where
  "policy_values plan ids values a = (case policy_at plan ids a of Inr (Some f) \<Rightarrow> map_option (map_prod id f) (values a) | _ \<Rightarrow> None)"

definition policy_lists :: "fork_plan \<Rightarrow> jsstring list \<Rightarrow> (value_address \<Rightarrow> list_element list) \<Rightarrow> value_address \<Rightarrow> list_element list" where
  "policy_lists plan ids elements a = (case policy_at plan ids a of Inr (Some f) \<Rightarrow> map (map_element f) (elements a) | _ \<Rightarrow> [])"

lemma map_of_fork_lists:
  "distinct (map fst kls) \<Longrightarrow> map_of (fork_lists plan ids kls) k = (case map_of kls k of None \<Rightarrow> None
     | Some l \<Rightarrow> (case policy_at plan ids (sl_address l) of Inr (Some f) \<Rightarrow> Some (l\<lparr>sl_elements := map (map_element f) (sl_elements l)\<rparr>) | _ \<Rightarrow> None))"
proof (induction plan ids kls rule: fork_lists.induct)
  case (1 plan ids)
  then show ?case by simp
next
  case (2 plan ids a l kls)
  show ?case
  proof (cases "k = a")
    case True
    then have "map_of kls k = None" using 2(4) by (auto simp: map_of_eq_None_iff)
    then show ?thesis using 2 True by (simp add: map_element_def split: sum.splits option.splits)
  next
    case False
    then show ?thesis using 2 by (simp split: sum.splits option.splits)
  qed
qed

lemma forked_view:
  assumes inv: "state_inv s" and fork: "forked s plan ids d"
  shows "view_value (view_of d) = policy_values plan ids (view_value (view_of s))" "view_list (view_of d) = policy_lists plan ids (view_list (view_of s))"
proof -
  show "view_value (view_of d) = policy_values plan ids (view_value (view_of s))"
    using forked_value [OF inv fork] by (auto simp: view_of_def policy_values_def fun_eq_iff split: option.splits sum.splits)
  have keyed: "keyed (list_ok (st_nextSeq s)) (st_listValues s)" using inv by (simp add: state_inv_def values_ok_def)
  have address: "sl_address l = a" if "address_ok a" "map_of (st_listValues s) (address_key a) = Some l" for a l
    using keyed_map_of [OF keyed that(2)] address_key_inject [OF that(1)] by (auto simp: list_ok_def)
  have "distinct (map fst (st_listValues s))" "st_listValues d = fork_lists plan ids (st_listValues s)" using keyed fork by (simp_all add: keyed_def forked_def)
  then have "view_list (view_of d) a = policy_lists plan ids (view_list (view_of s)) a" for a
    using address [of a] by (cases "map_of (st_listValues s) (address_key a)")
      (auto simp: view_of_def policy_lists_def map_of_fork_lists split: option.splits sum.splits)
  then show "view_list (view_of d) = policy_lists plan ids (view_list (view_of s))" by blast
qed

text \<open>The tip of a branch: undefined, null or an entry.\<close>

definition tip_value :: "'n session_state \<Rightarrow> jsstring \<Rightarrow> jsstring option option" where
  "tip_value s branch = (case view_value (view_of s) (the_address (js ''shuvpi.branch.tip'') branch) of None \<Rightarrow> None | Some (_, v) \<Rightarrow> tip_of v)"

lemma branchTip_valid: "branchTip b = Inr a \<longleftrightarrow> 0 \<notin> set b \<and> a = the_address (js ''shuvpi.branch.tip'') b"
  by (auto simp: branchTip_def make_address_Inr valid_address_def the_address_def js_def)

lemma tip_of_json_id [simp]: "tip_of (json_id t) = Some t"
  by (cases t) (simp_all add: tip_of_def json_id_def)

lemma createFork_branch:
  assumes inv: "state_inv s" and made: "createFork s (ForkBranch b) = Some (Inr d)"
  shows "\<exists>tip path ids. tip_value s (fb_branch b) = Some tip \<and> tip_path (parent_of s) tip path \<and> requested_entry b tip \<in> insert None (Some ` set path) \<and>
    tip_path (parent_of s) (chosen_tip s b tip) ids \<and> tip_value d (fb_branch b) = Some (chosen_tip s b tip) \<and>
    st_entries d = (\<lambda>i. if i \<in> set ids then st_entries s i else None) \<and>
    (\<forall>q. scanBranch d q = (if bs_start q \<in> set ids then scanBranch s q else Some (Inl (UnknownBranchStart (bs_start q))))) \<and>
    view_value (view_of d) = policy_values (PlanBranch (fb_branch b) (chosen_tip s b tip)) ids (view_value (view_of s)) \<and>
    view_list (view_of d) = policy_lists (PlanBranch (fb_branch b) (chosen_tip s b tip)) ids (view_list (view_of s)) \<and> st_usage d = []"
proof -
  obtain plan ids where plan: "selectForkPlan s (ForkBranch b) = Some (Inr (plan, ids))" and fork: "forked s plan ids d"
    using createFork_forked [OF inv made] by blast
  then obtain a v tip path where a: "branchTip (fb_branch b) = Inr a" "map_option sv_value (getValue s a) = Some v" "tip_of v = Some tip"
    and path: "tip_path (parent_of s) tip path" "requested_entry b tip \<in> insert None (Some ` set path)"
    and t: "plan = PlanBranch (fb_branch b) (chosen_tip s b tip)" "tip_path (parent_of s) (chosen_tip s b tip) ids"
    using selectForkPlan_result(2) [OF inv plan] by blast
  let ?a = "the_address (js ''shuvpi.branch.tip'') (fb_branch b)"
  have address: "a = ?a" "address_ok ?a" using a(1) by (auto simp: branchTip_valid address_key_the valid_address_def js_def)
  have "view_value (view_of s) ?a = map_option (\<lambda>v. (sv_seq v, sv_value v)) (getValue s ?a)" using address(2) by (simp add: view_of_def)
  then obtain n where stored: "view_value (view_of s) ?a = Some (n, v)" using a(2) address(1) by auto
  have entry: "st_entries d = (\<lambda>i. if i \<in> set ids then st_entries s i else None)"
    using forked_entry [OF inv fork] by (simp add: fun_eq_iff t(1) is_copied_def)
  have "policy_at plan ids ?a = Inr (Some (\<lambda>_. json_id (chosen_tip s b tip)))" by (simp add: policy_at_def fork_policy_def the_address_def t(1))
  then have "tip_value d (fb_branch b) = Some (chosen_tip s b tip)" using stored by (simp add: tip_value_def forked_view(1) [OF inv fork] policy_values_def)
  moreover have "tip_value s (fb_branch b) = Some tip" using stored a(3) by (simp add: tip_value_def)
  moreover have "scanBranch d q = (if bs_start q \<in> set ids then scanBranch s q else Some (Inl (UnknownBranchStart (bs_start q))))" for q
    using forked_scan [OF inv fork plan_closed [OF inv plan], of q] by (auto simp: t(1) is_copied_def entry scanBranch_def [of d])
  moreover have "st_usage d = []" using fork by (simp add: forked_def)
  ultimately show ?thesis using path t entry forked_view [OF inv fork] by blast
qed

text \<open>What a fork refuses: a branch with no tip, an entry that is not on it, a branch that is no configured lane, and a reserved namespace without a policy.\<close>

definition reserved_left :: "'n session_state \<Rightarrow> session_error \<Rightarrow> bool" where
  "reserved_left s e \<longleftrightarrow> (\<exists>a. (view_value (view_of s) a \<noteq> None \<or> view_list (view_of s) a \<noteq> []) \<and> policy_at PlanTree [] a = Inl e)"

definition branch_refused :: "'n session_state \<Rightarrow> fork_branch \<Rightarrow> session_error \<Rightarrow> bool" where
  "branch_refused s b e \<longleftrightarrow>
     (case tip_value s (fb_branch b) of
        None \<Rightarrow> True
      | Some tip \<Rightarrow> \<not> (\<exists>path. tip_path (parent_of s) tip path \<and> requested_entry b tip \<in> insert None (Some ` set path))) \<or>
     configured s (fb_branch b) = Inl e \<or> reserved_left s e"

lemma rfold_Inl: "rfold f s xs = Inl e \<Longrightarrow> \<exists>x \<in> set xs. \<exists>s'. f s' x = Inl e"
  by (induction xs arbitrary: s) (auto simp: rbind_Inl_iff)

lemma policy_plan: "policy_at plan ids a = Inl e \<longleftrightarrow> policy_at PlanTree [] a = Inl e"
  by (auto simp: policy_at_def fork_policy_def split: if_splits)

lemma project_refused:
  assumes "project kind plan ids d w = Inl e" "address_ok (the_address (cw_namespace w) (cw_key w))"
  shows "policy_at PlanTree [] (the_address (cw_namespace w) (cw_key w)) = Inl e"
proof (cases "policy_at plan ids (the_address (cw_namespace w) (cw_key w))")
  case (Inl e')
  then show ?thesis
    using assms(1) policy_plan [of plan ids "the_address (cw_namespace w) (cw_key w)" e]
    by (simp add: project_def project_policy policy_at_def the_address_def)
next
  case (Inr p)
  have "make_address (cw_namespace w) (cw_key w) = Inr (the_address (cw_namespace w) (cw_key w))"
    using assms(2) by (auto simp: address_ok_def make_address_Inr the_address_def)
  then have "applyValueSetOrListAppend kind (w\<lparr>cw_value := v\<rparr>) d \<noteq> Inl e" for v
    by (cases kind) (simp_all add: applyValueSetOrListAppend_def Let_def split: option.split)
  then show ?thesis using assms(1) Inr by (cases p) (auto simp: project_def project_policy policy_at_def the_address_def)
qed

lemma createFork_refused:
  fixes s :: "'n::{zero, plus} session_state"
  assumes inv: "state_inv s" and plan: "selectForkPlan s options = Some (Inr (plan, ids))" and refused: "createFork s options = Some (Inl e)"
  shows "reserved_left s e"
proof -
  have ok: "keyed (value_ok (st_nextSeq s)) (st_scalarValues s)" "keyed (list_ok (st_nextSeq s)) (st_listValues s)"
    using inv by (auto simp: state_inv_def values_ok_def)
  obtain kind w and d :: "'n session_state" where w: "project kind plan ids d w = Inl e" "w \<in> set (value_writes s) \<or> w \<in> set (list_writes s)"
  proof (cases "rfold (project KindValue plan ids) (copied_entries s plan ids) (value_writes s)")
    case (Inl e')
    then have "e' = e" using refused plan by (simp add: createFork_def)
    then show ?thesis using that rfold_Inl [OF Inl] by blast
  next
    case (Inr d1)
    then have lists: "rfold (project KindList plan ids) d1 (list_writes s) = Inl e" using refused plan by (auto simp: createFork_def rbind_Inl_iff)
    show ?thesis using that rfold_Inl [OF lists] by blast
  qed
  let ?a = "the_address (cw_namespace w) (cw_key w)"
  have "address_ok ?a \<and> (view_value (view_of s) ?a \<noteq> None \<or> view_list (view_of s) ?a \<noteq> [])"
    using w(2)
  proof
    assume "w \<in> set (value_writes s)"
    then obtain k v where v: "(k, v) \<in> set (st_scalarValues s)" "?a = sv_address v"
      by (auto simp: value_writes_def the_address_def)
    then have "value_ok (st_nextSeq s) k v" "map_of (st_scalarValues s) k = Some v" using ok(1) by (auto simp: keyed_def)
    then show ?thesis using v(2) by (auto simp: value_ok_def view_of_def getValue_def address_key_def)
  next
    assume "w \<in> set (list_writes s)"
    then obtain k l where l: "(k, l) \<in> set (st_listValues s)" "?a = sl_address l"
      by (auto simp: list_writes_def the_address_def)
    then have "list_ok (st_nextSeq s) k l" "map_of (st_listValues s) k = Some l" using ok(2) by (auto simp: keyed_def)
    then show ?thesis using l(2) by (auto simp: list_ok_def view_of_def address_key_def)
  qed
  then show ?thesis using project_refused [OF w(1)] by (auto simp: reserved_left_def)
qed

lemma createFork_branch_refused:
  assumes inv: "state_inv s" and refused: "createFork s (ForkBranch b) = Some (Inl e)"
  shows "branch_refused s b e"
proof (cases "\<exists>plan ids. selectForkPlan s (ForkBranch b) = Some (Inr (plan, ids))")
  case True
  then show ?thesis using createFork_refused [OF inv _ refused] by (auto simp: branch_refused_def)
next
  case False
  show ?thesis
  proof (rule ccontr)
    assume "\<not> branch_refused s b e"
    then obtain tip path where tip: "tip_value s (fb_branch b) = Some tip" and path: "tip_path (parent_of s) tip path" "requested_entry b tip \<in> insert None (Some ` set path)"
      and lane: "configured s (fb_branch b) \<noteq> Inl e"
      by (auto simp: branch_refused_def split: option.splits)
    let ?a = "the_address (js ''shuvpi.branch.tip'') (fb_branch b)"
    obtain v where v: "getValue s ?a = Some v" "tip_of (sv_value v) = Some tip" "address_ok ?a"
      using tip by (auto simp: tip_value_def view_of_def split: option.splits if_splits)
    then have address: "branchTip (fb_branch b) = Inr ?a" by (auto simp: branchTip_valid address_ok_def valid_address_def the_address_def)
    have "\<exists>t ids. selectBranchFork b (Some (sv_value v)) (parent_of s) = Some (Inr (t, ids))"
      using selectBranchFork_path [OF inv v(2) path(1), of b] path(2) by (auto split: option.splits if_splits)
    then show False using False refused lane v address
      by (cases "configured s (fb_branch b)") (auto simp: selectForkPlan_def createFork_def)
  qed
qed

text \<open>
  C37. After any sequence of commits, replayed writes, advances of the high-water mark and forks, and also after a commit that throws,
  the tables of a session agree: the entries by id are the entries in order, ids are unique over entries and usage rows, sequence numbers
  ascend and stay below the next one, every parent is an earlier entry, no two addresses share a physical key, and the
  statistics are the count of messages and the sum of the usage rows.
\<close>

theorem session_invariant: "state_inv (session_after ops)"
  by (rule session_after_inv)

text \<open>
  C4. A commit whose addresses are valid either is refused and changes nothing, exactly when an id is taken or a parent is missing, or does to
  the logs, the values and the lists what the writes say in their order, with consecutive sequence numbers, and returns the totals after it.
\<close>

theorem commit_refines:
  assumes "list_all write_address_ok ws"
  shows "let s = session_after ops; v = foldl (\<lambda>v w. view_write v w now) (view_of s) ws in
    if acceptable (view_of s) ws now
    then \<exists>t. view_of t = v \<and> commit_job s ws now = (t, Inr \<lparr>cr_firstSeq = st_nextSeq s, cr_seqs = [st_nextSeq s..<st_nextSeq s + length ws], cr_timestamp = now,
      cr_stats = \<lparr>sst_messageCount = messages (view_entries v), sst_usage = foldl addUsage emptyUsage (map ur_usage (view_usage v))\<rparr>\<rparr>)
    else \<exists>e. commit_job s ws now = (s, Inl e)"
proof -
  let ?s = "session_after ops"
  have stats: "st_stats t = \<lparr>sst_messageCount = messages (view_entries (view_of t)), sst_usage = foldl addUsage emptyUsage (map ur_usage (view_usage (view_of t)))\<rparr>"
    if "state_inv t" for t :: "'a session_state"
    using that by (simp add: state_inv_def entries_ok_def usage_ok_def view_of_def o_def)
  have "state_inv t" if "commit_job ?s ws now = (t, r)" for t r
    using session_do_inv [OF session_after_inv, of ops "Commit ws now"] that by simp
  then show ?thesis using commit_job_view [OF session_after_inv [of ops] assms, of now] stats by (auto simp: Let_def split: if_splits)
qed

text \<open>
  C40. Whatever the order of calls and turns of the queue, the jobs that ran had the outcomes of a serial run in the order of the calls,
  at the times they ran, and left its state; the accepted calls are those before the first close, and a storage is closed only when all of them ran.
\<close>

theorem storage_serial:
  "let h = storage_events events; m = sh_storage h in
    serially new_session_state (map (\<lambda>d. (fst d, fst (snd d))) (sh_done h)) = (mst_state m, map (\<lambda>d. snd (snd d)) (sh_done h)) \<and>
    map fst (sh_done h) @ mst_queue m = calls_before_close events \<and>
    (mst_status m = Open) = (Close \<notin> set events) \<and> (case mst_status m of Closed \<Rightarrow> mst_queue m = [] | _ \<Rightarrow> True)"
  using storage_events_ok [of events] by (auto simp: Let_def history_ok_def split: storage_status.splits)

text \<open>
  C39. A scan of a branch returns: an error for an unknown start, otherwise the entries on the path from the start to its root, newest or oldest first, up to
  and with the first one that the query stops at, of those that match and lie beyond the cursor the first within the limit.
\<close>

theorem scan_branch_exact:
  "let s = session_after ops in (case st_entries s (bs_start q) of
      None \<Rightarrow> scanBranch s q = Some (Inl (UnknownBranchStart (bs_start q)))
    | Some e \<Rightarrow> \<exists>ids. ancestry (parent_of s) (bs_start q) ids \<and> sorted_wrt (\<lambda>a b. ent_seq b < ent_seq a) (path_entries s ids) \<and>
        scanBranch s q = Some (Inr (take_limit (bs_limit q)
          (filter (\<lambda>e. beyond (bs_oldestFirst q) (bs_cursor q) (ent_seq e)) (candidates q (path_entries s ids))))))"
proof (cases "st_entries (session_after ops) (bs_start q)")
  case None
  then show ?thesis by (simp add: Let_def scanBranch_def)
next
  case (Some e)
  then show ?thesis using scanBranch_known [OF session_after_inv, of ops q] path_descending [OF session_after_inv]
    by (fastforce simp: Let_def select_path_eq)
qed

text \<open>
  Paging through a branch loses and repeats nothing: with a limit a scan returns the first entries of the unlimited scan, and with the last
  of them as the cursor the rest.
\<close>

lemma branch_pages:
  "let s = session_after ops in (case scanBranch s (q\<lparr>bs_limit := None\<rparr>) of
      Some (Inr xs) \<Rightarrow> scanBranch s (q\<lparr>bs_limit := Some (int (Suc n))\<rparr>) = Some (Inr (take (Suc n) xs)) \<and>
        (xs = [] \<or> scanBranch s (q\<lparr>bs_limit := None, bs_cursor := Some (ent_seq (last (take (Suc n) xs)))\<rparr>) = Some (Inr (drop (Suc n) xs)))
    | r \<Rightarrow> r = Some (Inl (UnknownBranchStart (bs_start q))))"
proof (cases "st_entries (session_after ops) (bs_start q)")
  case None
  then show ?thesis by (simp add: Let_def scanBranch_def)
next
  case (Some e)
  let ?s = "session_after ops"
  obtain ids where path: "ancestry (parent_of ?s) (bs_start q) ids" using scanBranch_known [OF session_after_inv, of ops q] Some by auto
  let ?cs = "candidates q (path_entries ?s ids)" and ?old = "bs_oldestFirst q"
  let ?xs = "filter (\<lambda>e. beyond ?old (bs_cursor q) (ent_seq e)) ?cs"
  have scan: "scanBranch ?s q' = Some (Inr (select_path q' (path_entries ?s ids)))" if "bs_start q' = bs_start q" for q'
    using path_loop_ancestry [OF path Some, of "[]"] Some that by (simp add: scanBranch_def)
  have "sorted_wrt (\<lambda>a b. if ?old then ent_seq a < ent_seq b else ent_seq b < ent_seq a) ?cs"
    by (rule candidates_sorted [OF path_descending [OF session_after_inv path]])
  then have "?xs = [] \<or> filter (\<lambda>e. beyond ?old (Some (ent_seq (last (take (Suc n) ?xs)))) (ent_seq e)) ?cs = drop (Suc n) ?xs"
    using beyond_page [of ?old ?cs "bs_cursor q" "take (Suc n) ?xs" "drop (Suc n) ?xs"] by (cases "?xs = []") simp_all
  moreover have "scanBranch ?s (q\<lparr>bs_limit := None\<rparr>) = Some (Inr ?xs)" "scanBranch ?s (q\<lparr>bs_limit := Some (int (Suc n))\<rparr>) = Some (Inr (take (Suc n) ?xs))"
    "scanBranch ?s (q\<lparr>bs_limit := None, bs_cursor := Some c\<rparr>) = Some (Inr (filter (\<lambda>e. beyond ?old (Some c) (ent_seq e)) ?cs))" for c
    by (simp_all add: scan select_path_eq take_limit_def del: of_nat_Suc)
  ultimately show ?thesis by (simp add: Let_def del: of_nat_Suc)
qed

text \<open>
  C12. A fork of a branch returns; it refuses only a branch without a tip, an entry that is not on it, a branch that is no configured lane, or a stored
  reserved namespace without a policy. A fork that is made holds exactly the path of its tip: the requested entry, or its parent when the
  fork is before it; scans of that path agree with the source, and everything else is unknown. The tip of the branch is that tip, the values and lists are
  those the policy keeps, and no usage is copied.
\<close>

theorem fork_branch_exact:
  "let s = session_after ops in (case createFork s (ForkBranch b) of
      None \<Rightarrow> False
    | Some (Inl e) \<Rightarrow> branch_refused s b e
    | Some (Inr d) \<Rightarrow> \<exists>tip path ids. tip_value s (fb_branch b) = Some tip \<and> tip_path (parent_of s) tip path \<and>
        requested_entry b tip \<in> insert None (Some ` set path) \<and>
        (let t = chosen_tip s b tip; plan = PlanBranch (fb_branch b) t in
          tip_path (parent_of s) t ids \<and> tip_value d (fb_branch b) = Some t \<and>
          st_entries d = (\<lambda>i. if i \<in> set ids then st_entries s i else None) \<and>
          (\<forall>q. scanBranch d q = (if bs_start q \<in> set ids then scanBranch s q else Some (Inl (UnknownBranchStart (bs_start q))))) \<and>
          view_value (view_of d) = policy_values plan ids (view_value (view_of s)) \<and>
          view_list (view_of d) = policy_lists plan ids (view_list (view_of s)) \<and> st_usage d = []))"
proof -
  let ?s = "session_after ops"
  have inv: "state_inv ?s" by (rule session_after_inv)
  have returns: "createFork ?s (ForkBranch b) \<noteq> None" using selectForkPlan_result(1) [OF inv] by (simp add: createFork_def)
  show ?thesis
  proof (cases "createFork ?s (ForkBranch b)")
    case None
    then show ?thesis using returns by blast
  next
    case (Some r)
    show ?thesis
    proof (cases r)
      case (Inl e)
      then show ?thesis using createFork_branch_refused [OF inv] Some by (simp add: Let_def)
    next
      case (Inr d)
      then show ?thesis using createFork_branch [OF inv, of b d] Some by (simp add: Let_def)
    qed
  qed
qed

text \<open>
  A fork of the tree returns; it refuses only a stored reserved namespace without a policy. A fork that is made has every entry in its order, so that every scan of entries and of branches agrees with
  the source, the values and lists the policy keeps, and no usage.
\<close>

lemma fork_tree_exact:
  "let s = session_after ops in (case createFork s ForkTree of
      None \<Rightarrow> False
    | Some (Inl e) \<Rightarrow> reserved_left s e
    | Some (Inr d) \<Rightarrow> st_entries d = st_entries s \<and> (\<forall>q. scanBranch d q = scanBranch s q) \<and> (\<forall>q. state_scanEntries d q = state_scanEntries s q) \<and>
        view_value (view_of d) = policy_values PlanTree [] (view_value (view_of s)) \<and>
        view_list (view_of d) = policy_lists PlanTree [] (view_list (view_of s)) \<and>
        st_usage d = [] \<and> st_stats d = \<lparr>sst_messageCount = sst_messageCount (st_stats s), sst_usage = emptyUsage\<rparr>)"
proof -
  let ?s = "session_after ops"
  have inv: "state_inv ?s" by (rule session_after_inv)
  have plan: "selectForkPlan ?s ForkTree = Some (Inr (PlanTree, []))" by (simp add: selectForkPlan_def)
  show ?thesis
  proof (cases "createFork ?s ForkTree")
    case None
    then show ?thesis using plan by (simp add: createFork_def)
  next
    case (Some r)
    show ?thesis
    proof (cases r)
      case (Inl e)
      then show ?thesis using createFork_refused [OF inv plan] Some by (simp add: Let_def)
    next
      case (Inr d)
      then have fork: "forked ?s PlanTree [] d" using createFork_forked [OF inv, of ForkTree d] plan Some by auto
      then have same: "st_entriesBySeq d = st_entriesBySeq ?s" "st_entries d = st_entries ?s"
        using inv by (simp_all add: forked_def is_copied_def state_inv_def entries_ok_def)
      then have "scanBranch d q = scanBranch ?s q" "state_scanEntries d q' = state_scanEntries ?s q'" for q q'
        by (simp_all add: scanBranch_def state_scanEntries_def split: option.split)
      moreover have "st_usage d = []" "st_stats d = \<lparr>sst_messageCount = sst_messageCount (st_stats ?s), sst_usage = emptyUsage\<rparr>"
        using fork same inv by (simp_all add: forked_def state_inv_def entries_ok_def)
      ultimately show ?thesis using Some Inr same forked_view [OF inv fork] by (simp add: Let_def)
    qed
  qed
qed

section \<open>Examples\<close>

definition sample_message :: "jsstring \<Rightarrow> jsstring option \<Rightarrow> int session_write" where
  "sample_message i parent = EntryWrite \<lparr>ent_id = i, ent_parentId = parent, ent_customType = None, ent_body = MessageBody JNull False\<rparr>"

definition sample_writes :: "int session_write list" where
  "sample_writes = [sample_message (js ''a'') None, sample_message (js ''b'') (Some (js ''a'')), ValueSetWrite (js ''shuvpi.branch.tip'') (js ''main'') (JStr (js ''b''))]"

lemma sample_commit_accepted: "acceptable (view_of (session_after [])) sample_writes 7"
  by (simp add: session_after_def sample_writes_def sample_message_def view_of_def new_session_state_def view_has_id_def new_entry.defs)

lemma commit_refines_witness:
  "list_all write_address_ok sample_writes \<and> (\<exists>t. commit_job (session_after []) sample_writes 7 = (t, Inr \<lparr>cr_firstSeq = 1, cr_seqs = [1, 2, 3], cr_timestamp = 7,
     cr_stats = \<lparr>sst_messageCount = 2, sst_usage = emptyUsage\<rparr>\<rparr>))"
proof -
  have ok: "list_all write_address_ok sample_writes" by code_simp
  have "st_nextSeq (session_after [] :: int session_state) = 1" "view_entries (view_of (session_after [] :: int session_state)) = []"
    "view_usage (view_of (session_after [] :: int session_state)) = []"
    by (simp_all add: session_after_def new_session_state_def view_of_def)
  moreover have "[1..<4] = [1, 2, 3::nat]" by code_simp
  ultimately show ?thesis using commit_refines [OF ok, of "[]" 7] sample_commit_accepted ok
    by (auto simp: Let_def sample_writes_def sample_message_def messages_def ent_type_def new_entry.defs)
qed

end
