(* ===== verification/SessionBranches.thy ===== *)
theory SessionBranches
  imports SessionStorage
begin

text \<open>
  The session of \<^verbatim>\<open>packages/agent/src/harness/session/session.ts\<close> over its storage: named branches, whose tips are stored values, the
  operations that extend them, and the reads. Every operation that writes runs alone on the mutation line of its session, so it is one step
  that reads the state and commits at most once. The time and the new id of an operation are arguments. That the tip of every branch stays an entry
  of the session is shown here, and what an append does to the branches.
\<close>

section \<open>Operations\<close>

datatype branch_error =
    StorageError session_error
  | SessionClosed
  | InvalidBranch jsstring
  | BranchExists jsstring
  | PendingAssistantMessage
  | UnknownTarget jsstring
  | UnknownBranch jsstring
  | TipIsNoId

record 'n backed_session =
  bks_state :: "'n session_state"
  bks_open :: bool

definition new_session :: "'n::zero backed_session" where
  "new_session = \<lparr>bks_state = new_session_state, bks_open = True\<rparr>"

definition message_field :: "json \<Rightarrow> string \<Rightarrow> json option" where
  "message_field message key = (case message of JObj props \<Rightarrow> map_of props (js key) | _ \<Rightarrow> None)"

definition pending_body :: "'n entry_body \<Rightarrow> bool" where
  "pending_body body \<longleftrightarrow> (case body of
      MessageBody message _ \<Rightarrow> message_field message ''role'' = Some (JStr (js ''assistant'')) \<and>
        message_field message ''stopReason'' = Some (JStr (js ''pending''))
    | _ \<Rightarrow> False)"

fun pending_write :: "'n session_write \<Rightarrow> bool" where
  "pending_write (EntryWrite e) = pending_body (ent_body e)"
| "pending_write _ = False"

text \<open>The commit of a mutation: the session with the state after it, and its result.\<close>

definition mutation_commit :: "'n::{zero, plus} backed_session \<Rightarrow> 'n session_write list \<Rightarrow> nat \<Rightarrow> 'n backed_session \<times> (branch_error, unit) result" where
  "mutation_commit m writes now =
     (if list_ex pending_write writes then (m, Inl PendingAssistantMessage)
      else (case commit_job (bks_state m) writes now of (s, r) \<Rightarrow>
        (m\<lparr>bks_state := s\<rparr>, case r of Inl e \<Rightarrow> Inl (StorageError e) | Inr _ \<Rightarrow> Inr ())))"

definition session_mutate :: "'n::{zero, plus} backed_session \<Rightarrow> (session_error, 'n session_write) result \<Rightarrow> nat \<Rightarrow> 'n backed_session \<times> (branch_error, unit) result" where
  "session_mutate m w now = (case w of
      Inl e \<Rightarrow> (m, Inl (StorageError e))
    | Inr write \<Rightarrow> if \<not> bks_open m then (m, Inl SessionClosed) else mutation_commit m [write] now)"

definition session_setValue :: "'n::{zero, plus} backed_session \<Rightarrow> value_address \<Rightarrow> json \<Rightarrow> nat \<Rightarrow> 'n backed_session \<times> (branch_error, unit) result" where
  "session_setValue m address v now = session_mutate m (Inr (setValue address v)) now"

definition session_deleteValue :: "'n::{zero, plus} backed_session \<Rightarrow> value_address \<Rightarrow> nat \<Rightarrow> 'n backed_session \<times> (branch_error, unit) result" where
  "session_deleteValue m address now = session_mutate m (Inr (deleteValue address)) now"

definition session_appendList :: "'n::{zero, plus} backed_session \<Rightarrow> value_address \<Rightarrow> json \<Rightarrow> nat \<Rightarrow> 'n backed_session \<times> (branch_error, unit) result" where
  "session_appendList m address v now = session_mutate m (Inr (appendList address v)) now"

definition session_deleteList :: "'n::{zero, plus} backed_session \<Rightarrow> value_address \<Rightarrow> nat \<Rightarrow> 'n backed_session \<times> (branch_error, unit) result" where
  "session_deleteList m address now = session_mutate m (Inr (deleteList address)) now"

definition set_or_delete :: "value_address \<Rightarrow> jsstring option \<Rightarrow> 'n session_write" where
  "set_or_delete address text = (case text of None \<Rightarrow> deleteValue address | Some t \<Rightarrow> setValue address (JStr t))"

definition setName :: "'n::{zero, plus} backed_session \<Rightarrow> jsstring option \<Rightarrow> nat \<Rightarrow> 'n backed_session \<times> (branch_error, unit) result" where
  "setName m name now = session_mutate m (rbind sessionName (\<lambda>address. Inr (set_or_delete address name))) now"

definition setLabel :: "'n::{zero, plus} backed_session \<Rightarrow> jsstring \<Rightarrow> jsstring option \<Rightarrow> nat \<Rightarrow> 'n backed_session \<times> (branch_error, unit) result" where
  "setLabel m targetId label now = session_mutate m (rbind (entryLabel targetId) (\<lambda>address. Inr (set_or_delete address label))) now"

definition assertValidBranchName :: "jsstring \<Rightarrow> (branch_error, unit) result" where
  "assertValidBranchName name = (if name = [] then Inl (InvalidBranch name) else if 0 \<in> set name then Inl (InvalidBranch name) else Inr ())"

definition createBranch :: "'n::{zero, plus} backed_session \<Rightarrow> jsstring \<Rightarrow> jsstring option \<Rightarrow> nat \<Rightarrow> 'n backed_session \<times> (branch_error, unit) result" where
  "createBranch m name at now =
     (if \<not> bks_open m then (m, Inl SessionClosed)
      else (case assertValidBranchName name of
        Inl e \<Rightarrow> (m, Inl e)
      | Inr _ \<Rightarrow> (case branchTip name of
          Inl e \<Rightarrow> (m, Inl (StorageError e))
        | Inr address \<Rightarrow>
            if getValue (bks_state m) address \<noteq> None then (m, Inl (BranchExists name))
            else (case at of
              Some i \<Rightarrow> if map_of (getEntries (bks_state m) [i]) i = None then (m, Inl (UnknownTarget i))
                else mutation_commit m [setValue address (json_id at)] now
            | None \<Rightarrow> mutation_commit m [setValue address (json_id at)] now))))"

text \<open>The new entry of an append: a message, or a custom entry with its type and data.\<close>

datatype appended = AppendMessage json | AppendCustom jsstring "json option"

definition appended_entry :: "appended \<Rightarrow> jsstring \<Rightarrow> jsstring option \<Rightarrow> 'n new_entry" where
  "appended_entry a i parentId = (case a of
      AppendMessage message \<Rightarrow> \<lparr>ent_id = i, ent_parentId = parentId, ent_customType = None, ent_body = MessageBody message False\<rparr>
    | AppendCustom customType data \<Rightarrow> \<lparr>ent_id = i, ent_parentId = parentId, ent_customType = Some customType, ent_body = CustomBody data\<rparr>)"

text \<open>A stored tip that is neither a string nor null has no entry, so the entry is refused for its parent.\<close>

definition appendToBranch :: "'n::{zero, plus} backed_session \<Rightarrow> jsstring \<Rightarrow> appended \<Rightarrow> jsstring \<Rightarrow> nat \<Rightarrow> 'n backed_session \<times> (branch_error, jsstring) result" where
  "appendToBranch m name a i now =
     (if \<not> bks_open m then (m, Inl SessionClosed)
      else if pending_body (ent_body (appended_entry a i None :: 'n new_entry)) then (m, Inl PendingAssistantMessage)
      else (case branchTip name of
        Inl e \<Rightarrow> (m, Inl (StorageError e))
      | Inr address \<Rightarrow> (case getValue (bks_state m) address of
          None \<Rightarrow> (m, Inl (UnknownBranch name))
        | Some stored \<Rightarrow> (case tip_of (sv_value stored) of
            None \<Rightarrow> (m, Inl TipIsNoId)
          | Some tip \<Rightarrow> (case mutation_commit m [EntryWrite (appended_entry a i tip), setValue address (JStr i)] now of
              (m', r) \<Rightarrow> (m', rbind r (\<lambda>_. Inr i)))))))"

definition session_close :: "'n backed_session \<Rightarrow> 'n backed_session" where
  "session_close m = m\<lparr>bks_open := False\<rparr>"

section \<open>Reads\<close>

definition getBranchTip :: "'n backed_session \<Rightarrow> jsstring \<Rightarrow> (branch_error, json) result" where
  "getBranchTip m name = (case branchTip name of
      Inl e \<Rightarrow> Inl (StorageError e)
    | Inr address \<Rightarrow> if \<not> bks_open m then Inl SessionClosed
        else (case getValue (bks_state m) address of None \<Rightarrow> Inl (UnknownBranch name) | Some stored \<Rightarrow> Inr (sv_value stored)))"

definition session_scanBranch :: "'n backed_session \<Rightarrow> branch_scan \<Rightarrow> (branch_error, 'n entry list) result option" where
  "session_scanBranch m q = (if \<not> bks_open m then Some (Inl SessionClosed)
     else map_option (\<lambda>r. case r of Inl e \<Rightarrow> Inl (StorageError e) | Inr es \<Rightarrow> Inr es) (scanBranch (bks_state m) q))"

text \<open>
  The entries of a branch, from the start of the query or from the tip, newest first unless the query says otherwise. A tip that is
  neither a string nor null starts no path.
\<close>

definition branch_findEntries :: "'n backed_session \<Rightarrow> jsstring \<Rightarrow> jsstring option \<Rightarrow> branch_scan \<Rightarrow> (branch_error, 'n entry list) result option" where
  "branch_findEntries m name start q = (case start of
      Some i \<Rightarrow> session_scanBranch m (q\<lparr>bs_start := i\<rparr>)
    | None \<Rightarrow> (case getBranchTip m name of
        Inl e \<Rightarrow> Some (Inl e)
      | Inr v \<Rightarrow> (case tip_of v of
          None \<Rightarrow> Some (Inl TipIsNoId)
        | Some None \<Rightarrow> Some (Inr [])
        | Some (Some i) \<Rightarrow> session_scanBranch m (q\<lparr>bs_start := i\<rparr>))))"

definition at_most_one :: "int option \<Rightarrow> int option" where
  "at_most_one limit = (case limit of None \<Rightarrow> Some 1 | Some n \<Rightarrow> Some (min n 1))"

definition branch_findEntry :: "'n backed_session \<Rightarrow> jsstring \<Rightarrow> jsstring option \<Rightarrow> branch_scan \<Rightarrow> (branch_error, 'n entry option) result option" where
  "branch_findEntry m name start q =
     map_option (\<lambda>r. rbind r (\<lambda>es. Inr (case es of [] \<Rightarrow> None | e # _ \<Rightarrow> Some e)))
       (branch_findEntries m name start (q\<lparr>bs_limit := at_most_one (bs_limit q)\<rparr>))"

record session_entry_query =
  eq_type :: "entry_type option"
  eq_customType :: "jsstring option"
  eq_asc :: bool
  eq_limit :: "int option"
  eq_cursor :: "nat option"

definition session_findEntries :: "'n backed_session \<Rightarrow> session_entry_query \<Rightarrow> (branch_error, 'n entry list) result" where
  "session_findEntries m q =
     (if \<not> bks_open m then Inl SessionClosed
      else let scan = \<lparr>es_query_type = eq_type q, es_query_customType = eq_customType q, es_fromSeq = None, es_toSeq = None, es_desc = \<not> eq_asc q, es_limit = eq_limit q\<rparr>
      in (case eq_cursor q of
        None \<Rightarrow> Inr (state_scanEntries (bks_state m) scan)
      | Some c \<Rightarrow>
          if eq_asc q \<and> int c = MAX_SAFE_INTEGER then Inr []
          else if \<not> eq_asc q \<and> c \<le> 1 then Inr []
          else Inr (state_scanEntries (bks_state m) (if eq_asc q then scan\<lparr>es_fromSeq := Some (c + 1)\<rparr> else scan\<lparr>es_toSeq := Some (c - 1)\<rparr>))))"

definition session_findEntry :: "'n backed_session \<Rightarrow> session_entry_query \<Rightarrow> (branch_error, 'n entry option) result" where
  "session_findEntry m q = rbind (session_findEntries m (q\<lparr>eq_limit := at_most_one (eq_limit q)\<rparr>))
     (\<lambda>es. Inr (case es of [] \<Rightarrow> None | e # _ \<Rightarrow> Some e))"

definition getName :: "'n backed_session \<Rightarrow> (branch_error, json option) result" where
  "getName m = (case sessionName of Inl e \<Rightarrow> Inl (StorageError e)
    | Inr address \<Rightarrow> if \<not> bks_open m then Inl SessionClosed else Inr (map_option sv_value (getValue (bks_state m) address)))"

definition getLabel :: "'n backed_session \<Rightarrow> jsstring \<Rightarrow> (branch_error, json option) result" where
  "getLabel m targetId = (case entryLabel targetId of Inl e \<Rightarrow> Inl (StorageError e)
    | Inr address \<Rightarrow> if \<not> bks_open m then Inl SessionClosed else Inr (map_option sv_value (getValue (bks_state m) address)))"

section \<open>Sequences of operations\<close>

datatype session_action =
    DoCreateBranch jsstring "jsstring option"
  | DoAppend jsstring appended jsstring
  | DoSetValue value_address json
  | DoDeleteValue value_address
  | DoAppendList value_address json
  | DoDeleteList value_address
  | DoSetName "jsstring option"
  | DoSetLabel jsstring "jsstring option"
  | DoClose

fun act :: "'n::{zero, plus} backed_session \<Rightarrow> session_action \<Rightarrow> nat \<Rightarrow> 'n backed_session" where
  "act m (DoCreateBranch name at) now = fst (createBranch m name at now)"
| "act m (DoAppend name a i) now = fst (appendToBranch m name a i now)"
| "act m (DoSetValue address v) now = fst (session_setValue m address v now)"
| "act m (DoDeleteValue address) now = fst (session_deleteValue m address now)"
| "act m (DoAppendList address v) now = fst (session_appendList m address v now)"
| "act m (DoDeleteList address) now = fst (session_deleteList m address now)"
| "act m (DoSetName name) now = fst (setName m name now)"
| "act m (DoSetLabel targetId label) now = fst (setLabel m targetId label now)"
| "act m DoClose now = session_close m"

definition session_acts :: "(session_action \<times> nat) list \<Rightarrow> 'n::{zero, plus} backed_session" where
  "session_acts acts = foldl (\<lambda>m (a, now). act m a now) new_session acts"

text \<open>The addresses a client passes are those \<^verbatim>\<open>value\<close> and \<^verbatim>\<open>list\<close> made, and it leaves the tips of branches to the session.\<close>

fun client_action :: "session_action \<Rightarrow> bool" where
  "client_action (DoSetValue a v) = (address_ok a \<and> va_namespace a \<noteq> js ''shuvpi.branch.tip'')"
| "client_action (DoDeleteValue a) = address_ok a"
| "client_action (DoAppendList a v) = address_ok a"
| "client_action (DoDeleteList a) = address_ok a"
| "client_action _ = True"

section \<open>Tips are entries\<close>

definition tip_known :: "'n session_view \<Rightarrow> json \<Rightarrow> bool" where
  "tip_known v x \<longleftrightarrow> x = JNull \<or> (\<exists>i. x = JStr i \<and> i \<in> ent_id ` set (view_entries v))"

definition tips_ok :: "'n session_view \<Rightarrow> bool" where
  "tips_ok v \<longleftrightarrow> (\<forall>name n x. view_value v (the_address (js ''shuvpi.branch.tip'') name) = Some (n, x) \<longrightarrow> tip_known v x)"

fun write_keeps :: "'n session_view \<Rightarrow> 'n session_write \<Rightarrow> bool" where
  "write_keeps v (ValueSetWrite n k x) = (n \<noteq> js ''shuvpi.branch.tip'' \<or> tip_known v x)"
| "write_keeps v _ = True"

lemma the_address_inject [simp]: "the_address n k = the_address n' k' \<longleftrightarrow> n = n' \<and> k = k'"
  by (simp add: the_address_def)

lemma tips_write: "tips_ok v \<Longrightarrow> write_keeps v w \<Longrightarrow> tips_ok (view_write v w now)"
  by (cases w) (fastforce simp: tips_ok_def tip_known_def new_entry.defs)+

fun writes_keep :: "'n session_view \<Rightarrow> 'n session_write list \<Rightarrow> nat \<Rightarrow> bool" where
  "writes_keep v [] now = True"
| "writes_keep v (w # ws) now = (write_keeps v w \<and> writes_keep (view_write v w now) ws now)"

lemma tips_writes: "tips_ok v \<Longrightarrow> writes_keep v ws now \<Longrightarrow> tips_ok (foldl (\<lambda>v w. view_write v w now) v ws)"
  by (induction ws arbitrary: v) (auto intro: tips_write)

definition session_ok :: "'n::{zero, plus} backed_session \<Rightarrow> bool" where
  "session_ok m \<longleftrightarrow> state_inv (bks_state m) \<and> tips_ok (view_of (bks_state m))"

lemma mutation_commit_ok:
  assumes ok: "session_ok m" and ws: "list_all write_address_ok ws" "writes_keep (view_of (bks_state m)) ws now"
  shows "session_ok (fst (mutation_commit m ws now))"
proof -
  let ?s = "bks_state m"
  obtain t r where t: "commit_job ?s ws now = (t, r)" by fastforce
  have inv: "state_inv ?s" and tips: "tips_ok (view_of ?s)" using ok by (simp_all add: session_ok_def)
  have "state_inv t" using session_do_inv [OF inv, of "Commit ws now"] t by simp
  moreover have "t = ?s \<or> view_of t = foldl (\<lambda>v w. view_write v w now) (view_of ?s) ws"
    using commit_job_view [OF inv ws(1), of now] t by (auto split: if_splits)
  ultimately have "state_inv t \<and> tips_ok (view_of t)" using tips tips_writes [OF tips ws(2)] by auto
  then show ?thesis using ok t by (auto simp: mutation_commit_def session_ok_def)
qed

lemma session_mutate_ok:
  assumes "session_ok m" "\<And>write. w = Inr write \<Longrightarrow> write_address_ok write \<and> write_keeps (view_of (bks_state m)) write"
  shows "session_ok (fst (session_mutate m w now))"
  using assms mutation_commit_ok [OF assms(1), of "[_]"] by (auto simp: session_mutate_def split: sum.splits)

lemma has_entry_view: "state_inv s \<Longrightarrow> st_entries s i \<noteq> None \<longleftrightarrow> i \<in> ent_id ` set (view_entries (view_of s))"
  using by_id_None [of "st_entriesBySeq s" i] by (auto simp: view_of_def state_inv_def entries_ok_def)

lemma tip_address_ok: "branchTip name = Inr a \<Longrightarrow> address_ok a \<and> a = the_address (js ''shuvpi.branch.tip'') name"
  by (auto simp: branchTip_valid address_key_the valid_address_def js_def)

lemma getValue_view: "address_ok a \<Longrightarrow> getValue s a = Some v \<Longrightarrow> view_value (view_of s) a = Some (sv_seq v, sv_value v)"
  by (simp add: view_of_def)

lemma tip_known_tip: "tip_known v x \<Longrightarrow> \<exists>t. tip_of x = Some t \<and> json_id t = x \<and> (\<forall>i. t = Some i \<longrightarrow> i \<in> ent_id ` set (view_entries v))"
  by (auto simp: tip_known_def tip_of_def json_id_def)

lemma getEntries_one: "map_of (getEntries s [i]) i = st_entries s i"
  by (simp add: getEntries_def split: option.splits)

lemma createBranch_ok:
  assumes ok: "session_ok m"
  shows "session_ok (fst (createBranch m name at now))"
proof -
  have "session_ok (fst (mutation_commit m [setValue a (json_id at)] now))"
    if a: "branchTip name = Inr a" and at: "\<And>i. at = Some i \<Longrightarrow> st_entries (bks_state m) i \<noteq> None" for a
  proof (rule mutation_commit_ok [OF ok])
    show "list_all write_address_ok [setValue a (json_id at)]" using conjunct1 [OF tip_address_ok [OF a]] by (simp add: setValue_def address_ok_def)
    have "tip_known (view_of (bks_state m)) (json_id at)"
      using at has_entry_view ok by (cases at) (auto simp: tip_known_def json_id_def session_ok_def)
    then show "writes_keep (view_of (bks_state m)) [setValue a (json_id at)] now" by (simp add: setValue_def)
  qed
  then show ?thesis using ok by (auto simp: createBranch_def getEntries_one split: sum.splits option.splits)
qed

lemma appendToBranch_ok:
  assumes ok: "session_ok m"
  shows "session_ok (fst (appendToBranch m name a i now))"
proof -
  have "session_ok (fst (mutation_commit m [EntryWrite (appended_entry a i tip), setValue address (JStr i)] now))"
    if address: "branchTip name = Inr address" for address tip
  proof (rule mutation_commit_ok [OF ok])
    show "list_all write_address_ok [EntryWrite (appended_entry a i tip), setValue address (JStr i)]"
      using conjunct1 [OF tip_address_ok [OF address]] by (simp add: setValue_def address_ok_def)
    show "writes_keep (view_of (bks_state m)) [EntryWrite (appended_entry a i tip), setValue address (JStr i)] now"
      by (cases a) (simp_all add: setValue_def tip_known_def appended_entry_def new_entry.defs)
  qed
  then have "session_ok m'" if "branchTip name = Inr address"
    "mutation_commit m [EntryWrite (appended_entry a i tip), setValue address (JStr i)] now = (m', r)" for address tip m' r
    using that by (metis fst_conv)
  then show ?thesis using ok by (auto simp: appendToBranch_def split: sum.splits option.splits prod.splits)
qed

lemma session_close_ok: "session_ok (session_close m) = session_ok m"
  by (simp add: session_close_def session_ok_def)

lemma act_ok:
  assumes ok: "session_ok m" and client: "client_action a"
  shows "session_ok (act m a now)"
proof -
  have texts: "write_address_ok (set_or_delete address t) \<and> write_keeps (view_of (bks_state m)) (set_or_delete address t)"
    if "address_ok address" "va_namespace address \<noteq> js ''shuvpi.branch.tip''" for address t
    using that by (auto simp: set_or_delete_def setValue_def deleteValue_def address_ok_def split: option.splits)
  have names: "address_ok address \<and> va_namespace address \<noteq> js ''shuvpi.branch.tip''" if "sessionName = Inr address \<or> entryLabel l = Inr address" for address l
    using that by (auto simp: sessionName_def entryLabel_def make_address_Inr address_ok_def)
  show ?thesis
  proof (cases a)
    case (DoSetName name)
    then show ?thesis using texts names by (auto simp: setName_def elim!: rbindE intro!: session_mutate_ok [OF ok])
  next
    case (DoSetLabel targetId label)
    then show ?thesis using texts names by (auto simp: setLabel_def elim!: rbindE intro!: session_mutate_ok [OF ok])
  qed (use ok client createBranch_ok appendToBranch_ok in \<open>auto simp: session_setValue_def session_deleteValue_def session_appendList_def session_deleteList_def
    setValue_def deleteValue_def appendList_def deleteList_def address_ok_def session_close_ok
    intro!: session_mutate_ok\<close>)
qed

lemma session_acts_ok: "list_all (client_action \<circ> fst) acts \<Longrightarrow> session_ok (session_acts acts)"
proof (induction acts rule: rev_induct)
  case Nil
  have "view_value (view_of (new_session_state :: 'a session_state)) a = None" for a by (simp add: view_of_def new_session_state_def getValue_def)
  then show ?case by (simp add: session_acts_def session_ok_def new_session_def new_state_inv tips_ok_def)
next
  case (snoc x acts)
  then show ?case using act_ok [of "session_acts acts" "fst x" "snd x"] by (simp add: session_acts_def split_def)
qed

section \<open>Extending a branch\<close>

text \<open>Entries never change: where the entries of one state are entries of another, the paths and scans from them agree.\<close>

definition extends_entries :: "'n session_state \<Rightarrow> 'n session_state \<Rightarrow> bool" where
  "extends_entries s t \<longleftrightarrow> (\<forall>i e. st_entries s i = Some e \<longrightarrow> st_entries t i = Some e)"

lemma ancestry_extends: "extends_entries s t \<Longrightarrow> ancestry (parent_of s) i ids \<Longrightarrow> ancestry (parent_of t) i ids \<and> path_entries t ids = path_entries s ids"
proof -
  assume ext: "extends_entries s t" and path: "ancestry (parent_of s) i ids"
  have same: "st_entries t j = st_entries s j" if "j \<in> set ids" for j
    using ancestry_known [OF path that] ext by (auto simp: parent_of_def extends_entries_def)
  have "ancestry (parent_of t) i ids" by (rule ancestry_cong [OF path]) (simp add: parent_of_def same)
  moreover have "path_entries t ids = path_entries s ids" using same by (simp add: path_entries_def)
  ultimately show ?thesis by blast
qed

lemma scan_extends:
  assumes "state_inv s" "state_inv t" "extends_entries s t" "st_entries s (bs_start q) \<noteq> None"
  shows "scanBranch t q = scanBranch s q"
proof -
  obtain ids where ids: "ancestry (parent_of s) (bs_start q) ids" "scanBranch s q = Some (Inr (select_path q (path_entries s ids)))"
    using scanBranch_known [OF assms(1,4)] by blast
  have "st_entries t (bs_start q) \<noteq> None" using assms(3,4) by (auto simp: extends_entries_def)
  then obtain ids' where "ancestry (parent_of t) (bs_start q) ids'" "scanBranch t q = Some (Inr (select_path q (path_entries t ids')))"
    using scanBranch_known [OF assms(2)] by blast
  then show ?thesis using ancestry_extends [OF assms(3) ids(1)] ancestry_unique ids(2) by metis
qed

lemma tip_path_known:
  assumes "session_ok m" "tip_value (bks_state m) name = Some tip"
  shows "\<exists>ids. tip_path (parent_of (bks_state m)) tip ids" "\<And>i. tip = Some i \<Longrightarrow> st_entries (bks_state m) i \<noteq> None"
proof -
  let ?s = "bks_state m"
  obtain n x where x: "view_value (view_of ?s) (the_address (js ''shuvpi.branch.tip'') name) = Some (n, x)" "tip_of x = Some tip"
    using assms(2) by (auto simp: tip_value_def split: option.splits)
  have inv: "state_inv ?s" using assms(1) by (simp add: session_ok_def)
  have "tip_known (view_of ?s) x" using assms(1) x(1) by (auto simp: session_ok_def tips_ok_def)
  then show known: "st_entries ?s i \<noteq> None" if "tip = Some i" for i using tip_known_tip [of _ x] x(2) that has_entry_view [OF inv, of i] by auto
  show "\<exists>ids. tip_path (parent_of ?s) tip ids"
    using known tree.path_exists [OF inv] by (cases tip) (auto simp: tip_path_def parent_of_def)
qed

lemma appended_fields:
  "ent_id (appended_entry a i tip) = i" "ent_parentId (appended_entry a i tip) = tip"
  by (cases a; simp add: appended_entry_def)+

lemma appended_body: "ent_body (appended_entry a i tip) = ent_body (appended_entry a i None)"
  by (cases a) (simp_all add: appended_entry_def)

text \<open>The state after the two writes of an append.\<close>

lemma append_commit:
  fixes m :: "'n::{zero, plus} backed_session" and a :: appended and i :: jsstring
  assumes ok: "session_ok m" and address: "branchTip name = Inr address" and tip: "tip_value (bks_state m) name = Some tip"
  defines "s \<equiv> bks_state m" and "ws \<equiv> [EntryWrite (appended_entry a i tip), setValue address (JStr i)]"
  shows "if has_id s i then \<exists>e. commit_job s ws now = (s, Inl e)
    else \<exists>t r. commit_job s ws now = (t, Inr r) \<and> state_inv t \<and>
      st_entries t = (st_entries s)(i \<mapsto> new_entry.extend (appended_entry a i tip) \<lparr>ent_seq = st_nextSeq s, ent_timestamp = now\<rparr>) \<and>
      tip_value t = (tip_value s)(name \<mapsto> Some i)"
proof -
  let ?e = "new_entry.extend (appended_entry a i tip) \<lparr>ent_seq = st_nextSeq s, ent_timestamp = now\<rparr> :: 'n entry"
  have inv: "state_inv s" using ok by (simp add: session_ok_def s_def)
  have add: "address_ok address" "address = the_address (js ''shuvpi.branch.tip'') name" using tip_address_ok [OF address] by blast+
  have wok: "list_all write_address_ok ws" using add(1) by (simp add: ws_def setValue_def address_ok_def)
  have ws: "ws = [EntryWrite (appended_entry a i tip), ValueSetWrite (js ''shuvpi.branch.tip'') name (JStr i)]"
    by (simp add: ws_def setValue_def add(2) the_address_def)
  have parent: "case tip of None \<Rightarrow> True | Some p \<Rightarrow> p \<in> ent_id ` set (view_entries (view_of s))"
    using tip_path_known(2) [OF ok tip] has_entry_view [OF inv] by (auto simp: s_def split: option.splits)
  have "valid_next s (commitWrite (EntryWrite (appended_entry a i tip)) (st_nextSeq s) now) \<longleftrightarrow> \<not> view_has_id (view_of s) i"
    using valid_next_view [OF inv, of "EntryWrite (appended_entry a i tip)" now] parent by (simp add: appended_fields)
  moreover have "has_entry s p" if "tip = Some p" for p
    using parent that has_entry_view [OF inv, of p] by (simp add: has_entry_def)
  then have "valid_next s (commitWrite (EntryWrite (appended_entry a i tip)) (st_nextSeq s) now) \<longleftrightarrow> \<not> has_id s i"
    by (auto simp: valid_next_def new_entry.defs appended_fields)
  ultimately have fresh: "view_has_id (view_of s) i \<longleftrightarrow> has_id s i" by blast
  then have acc: "acceptable (view_of s) ws now \<longleftrightarrow> \<not> has_id s i" using parent by (simp add: ws appended_fields)
  note result = commit_job_view [OF inv wok, of now]
  show ?thesis
  proof (cases "has_id s i")
    case True
    then show ?thesis using result acc by simp
  next
    case False
    then obtain t r where t: "commit_job s ws now = (t, Inr r)" "view_of t = foldl (\<lambda>v w. view_write v w now) (view_of s) ws" using result acc by auto
    have inv': "state_inv t" using session_do_inv [OF inv, of "Commit ws now"] t by simp
    have "st_entriesBySeq t = st_entriesBySeq s @ [?e]" using arg_cong [OF t(2), of view_entries] by (simp add: ws view_of_def)
    moreover have "ent_id ?e = i" by (simp add: new_entry.defs appended_fields)
    moreover have "i \<notin> ent_id ` set (st_entriesBySeq s)" using False has_entry_view [OF inv, of i] by (auto simp: has_id_def has_entry_def view_of_def)
    ultimately have "st_entries t = (st_entries s)(i \<mapsto> ?e)"
      using inv inv' by_id_snoc [of ?e "st_entriesBySeq s"] by (simp add: state_inv_def entries_ok_def)
    moreover have "view_value (view_of t) = (view_value (view_of s))(the_address (js ''shuvpi.branch.tip'') name \<mapsto> (st_nextSeq s + 1, JStr i))"
      using arg_cong [OF t(2), of view_value] by (simp add: ws view_of_def)
    then have "tip_value t = (tip_value s)(name \<mapsto> Some i)" by (auto simp: tip_value_def fun_eq_iff tip_of_def)
    ultimately show ?thesis using False t(1) inv' by auto
  qed
qed

lemma tip_value_stored:
  "tip_value s name = (case branchTip name of Inl e \<Rightarrow> None | Inr a \<Rightarrow> (case getValue s a of None \<Rightarrow> None | Some v \<Rightarrow> tip_of (sv_value v)))"
proof (cases "branchTip name")
  case (Inl e)
  then have "0 \<in> set name" using branchTip_valid [of name] by auto
  then show ?thesis using Inl by (simp add: tip_value_def view_of_def address_key_the valid_address_def)
next
  case (Inr a)
  then show ?thesis using tip_address_ok [OF Inr] by (auto simp: tip_value_def view_of_def split: option.splits)
qed

lemma append_result:
  fixes m :: "'n::{zero, plus} backed_session"
  assumes ok: "session_ok m"
  shows "case appendToBranch m name a i now of
      (m', Inl e) \<Rightarrow> m' = m \<and> (\<not> bks_open m \<or> pending_body (ent_body (appended_entry a i None :: 'n new_entry)) \<or> tip_value (bks_state m) name = None \<or> has_id (bks_state m) i)
    | (m', Inr j) \<Rightarrow> j = i \<and> state_inv (bks_state m') \<and> (\<exists>tip. tip_value (bks_state m) name = Some tip \<and> \<not> has_id (bks_state m) i \<and>
        st_entries (bks_state m') = (st_entries (bks_state m))(i \<mapsto>
          new_entry.extend (appended_entry a i tip) \<lparr>ent_seq = st_nextSeq (bks_state m), ent_timestamp = now\<rparr>) \<and>
        tip_value (bks_state m') = (tip_value (bks_state m))(name \<mapsto> Some i))"
proof (cases "bks_open m \<and> \<not> pending_body (ent_body (appended_entry a i None :: 'n new_entry)) \<and> tip_value (bks_state m) name \<noteq> None")
  case False
  then show ?thesis by (auto simp: appendToBranch_def tip_value_stored split: sum.splits option.splits)
next
  case True
  let ?s = "bks_state m"
  obtain tip where tip: "tip_value ?s name = Some tip" using True by blast
  then obtain address v where address: "branchTip name = Inr address" "getValue ?s address = Some v" "tip_of (sv_value v) = Some tip"
    by (auto simp: tip_value_stored split: sum.splits option.splits)
  have "\<not> list_ex pending_write [EntryWrite (appended_entry a i tip :: 'n new_entry), setValue address (JStr i)]"
    using True by (simp add: setValue_def appended_body [of a i tip])
  then show ?thesis
    using append_commit [OF ok address(1) tip, of i a now] True tip address
    by (auto simp: appendToBranch_def mutation_commit_def split: if_splits)
qed

section \<open>Properties\<close>



section \<open>Examples\<close>

definition sample_acts :: "(session_action \<times> nat) list" where
  "sample_acts = [(DoCreateBranch (js ''main'') None, 1), (DoAppend (js ''main'') (AppendMessage JNull) (js ''x''), 2),
     (DoSetLabel (js ''x'') (Some (js ''first'')), 3)]"

lemma sample_acts_client: "list_all (client_action \<circ> fst) sample_acts"
  by code_simp

lemma sample_acts_tip:
  "bks_open (session_acts sample_acts :: int backed_session)"
  "tip_value (bks_state (session_acts sample_acts :: int backed_session)) (js ''main'') = Some (Some (js ''x''))"
  by code_simp+



end
