(* ===== verification/AssistantFrames.thy ===== *)
theory AssistantFrames
  imports JsValues
begin

text \<open>
  The frames of an assistant message, from \<^verbatim>\<open>packages/ai/src/utils/assistant-message-frame.ts\<close>: the encoder that turns the events of a
  streamed message into compact frames, and the reducer that replays them. The message inside an event is shared and live: a provider goes on changing it
  while events wait in a queue. The parser of unfinished Json and the serializer of arguments are arguments of the definitions.
\<close>

section \<open>Messages, events and frames\<close>

record text_content =
  tc_text :: jsstring
  tc_signature :: "jsstring option"

record thinking_content =
  th_thinking :: jsstring
  th_signature :: "jsstring option"
  th_redacted :: "bool option"

record tool_call =
  tl_id :: jsstring
  tl_name :: jsstring
  tl_arguments :: json
  tl_thoughtSignature :: "jsstring option"
  tl_namespace :: "jsstring option"

datatype block = Text text_content | Thinking thinking_content | Tool tool_call

record assistant_message =
  am_content :: "block list"
  am_api :: jsstring
  am_provider :: jsstring
  am_model :: jsstring
  am_responseModel :: "jsstring option"
  am_responseId :: "jsstring option"
  am_providerThinkingLevel :: "jsstring option"
  am_diagnostics :: "json option"
  am_usage :: json
  am_stopReason :: jsstring
  am_deferred :: "json option"
  am_errorMessage :: "jsstring option"
  am_rawStopReason :: "jsstring option"
  am_endTurn :: "bool option"
  am_timestamp :: jsnum

datatype message_event =
    EvStart assistant_message
  | EvTextStart jsnum assistant_message
  | EvTextDelta jsnum jsstring assistant_message
  | EvTextEnd jsnum jsstring assistant_message
  | EvThinkingStart jsnum assistant_message
  | EvThinkingDelta jsnum jsstring assistant_message
  | EvThinkingEnd jsnum jsstring assistant_message
  | EvToolStart jsnum assistant_message
  | EvToolDelta jsnum jsstring assistant_message
  | EvToolEnd jsnum tool_call assistant_message
  | EvDone assistant_message
  | EvError assistant_message

datatype message_frame =
    FrStart assistant_message
  | FrTextStart jsnum text_content
  | FrTextDelta jsnum jsstring
  | FrTextEnd jsnum jsstring "jsstring option"
  | FrThinkingStart jsnum thinking_content
  | FrThinkingDelta jsnum jsstring
  | FrThinkingEnd jsnum jsstring "jsstring option" "bool option"
  | FrToolStart jsnum tool_call
  | FrToolCheckpoint jsnum jsstring
  | FrToolDelta jsnum jsstring
  | FrToolEnd jsnum jsstring jsstring json "jsstring option" "jsstring option"

datatype block_kind = TextKind | ThinkingKind | ToolKind

datatype replay_error =
    InvalidContentIndex
  | NoContentBlock
  | WrongBlock
  | AfterTerminal
  | SecondStart
  | BeforeStart
  | StartsTwice
  | NotStarted
  | AlreadyExists
  | LeavesGap
  | AfterEnd

fun kind_of :: "block \<Rightarrow> block_kind" where
  "kind_of (Text _) = TextKind"
| "kind_of (Thinking _) = ThinkingKind"
| "kind_of (Tool _) = ToolKind"

definition assertContentIndex :: "jsnum \<Rightarrow> (replay_error, nat) result" where
  "assertContentIndex n = (case n of
      NInt i \<Rightarrow> if isSafeInteger n \<and> 0 \<le> i then Inr (nat i) else Inl InvalidContentIndex
    | NNegZero \<Rightarrow> Inr 0
    | _ \<Rightarrow> Inl InvalidContentIndex)"

definition cloneStartMessage :: "assistant_message \<Rightarrow> assistant_message" where
  "cloneStartMessage m = m\<lparr>am_content := [], am_stopReason := js ''pending'', am_deferred := None, am_errorMessage := None, am_rawStopReason := None,
     am_endTurn := None\<rparr>"

definition eventBlock :: "jsnum \<Rightarrow> assistant_message \<Rightarrow> (replay_error, nat \<times> block) result" where
  "eventBlock index partial = rbind (assertContentIndex index) (\<lambda>i.
     if i < length (am_content partial) then Inr (i, am_content partial ! i) else Inl NoContentBlock)"

text \<open>Whether a snapshot of arguments can grow into the current ones.\<close>

function (sequential) isJsonPrefix :: "json \<Rightarrow> json \<Rightarrow> bool" where
  "isJsonPrefix (JStr s) current = (case current of JStr t \<Rightarrow> take (length s) t = s | _ \<Rightarrow> False)"
| "isJsonPrefix (JArr xs) current = (case current of
      JArr ys \<Rightarrow> length xs \<le> length ys \<and> list_all (\<lambda>(x, y). isJsonPrefix x y) (zip xs ys)
    | _ \<Rightarrow> False)"
| "isJsonPrefix (JObj ps) current = (case current of
      JObj qs \<Rightarrow> list_all (\<lambda>p. case map_of qs (fst p) of None \<Rightarrow> False | Some v \<Rightarrow> isJsonPrefix (snd p) v) ps
    | _ \<Rightarrow> False)"
| "isJsonPrefix snapshot current = (snapshot = current)"
  by pat_completeness auto
termination
  by (relation "measure (size \<circ> fst)")
    (force dest: set_zip_leftD simp: less_Suc_eq_le intro: size_list_estimation' termination_simp)+

section \<open>The encoder\<close>

datatype encoder_block =
    EncText nat nat
  | EncThinking nat nat
  | EncTool bool jsstring jsstring

fun encoder_kind :: "encoder_block \<Rightarrow> block_kind" where
  "encoder_kind (EncText _ _) = TextKind"
| "encoder_kind (EncThinking _ _) = ThinkingKind"
| "encoder_kind (EncTool _ _ _) = ToolKind"

record frame_encoder =
  fe_started :: bool
  fe_terminal :: bool
  fe_blocks :: "nat \<rightharpoonup> encoder_block"

definition new_frame_encoder :: frame_encoder where
  "new_frame_encoder = \<lparr>fe_started = False, fe_terminal = False, fe_blocks = Map.empty\<rparr>"

definition startBlock :: "frame_encoder \<Rightarrow> nat \<Rightarrow> encoder_block \<Rightarrow> (replay_error, frame_encoder) result" where
  "startBlock e i state = (if fe_blocks e i \<noteq> None then Inl StartsTwice else Inr (e\<lparr>fe_blocks := (fe_blocks e)(i \<mapsto> state)\<rparr>))"

definition get_block :: "frame_encoder \<Rightarrow> jsnum \<Rightarrow> block_kind \<Rightarrow> (replay_error, nat \<times> encoder_block) result" where
  "get_block e index kind = rbind (assertContentIndex index) (\<lambda>i. case fe_blocks e i of
      None \<Rightarrow> Inl NotStarted
    | Some state \<Rightarrow> if encoder_kind state \<noteq> kind then Inl WrongBlock else Inr (i, state))"

definition endBlock :: "frame_encoder \<Rightarrow> jsnum \<Rightarrow> block_kind \<Rightarrow> (replay_error, frame_encoder) result" where
  "endBlock e index kind = rbind (get_block e index kind) (\<lambda>(i, _). Inr (e\<lparr>fe_blocks := (fe_blocks e)(i := None)\<rparr>))"

text \<open>The part of a delta that the block did not hold when it started.\<close>

definition uncovered :: "nat \<Rightarrow> nat \<Rightarrow> jsstring \<Rightarrow> jsstring option" where
  "uncovered coveredChars deltaStart delta =
     (let covered = coveredChars - deltaStart in
      if covered \<ge> length delta then None else if covered = 0 then Some delta else Some (drop covered delta))"

definition encodeTextDelta :: "frame_encoder \<Rightarrow> jsnum \<Rightarrow> jsstring \<Rightarrow> block_kind \<Rightarrow> (replay_error, frame_encoder \<times> message_frame option) result" where
  "encodeTextDelta e index delta kind = rbind (get_block e index kind) (\<lambda>(i, state). case state of
      EncText coveredChars deltaChars \<Rightarrow>
        Inr (e\<lparr>fe_blocks := (fe_blocks e)(i \<mapsto> EncText coveredChars (deltaChars + length delta))\<rparr>, map_option (FrTextDelta index) (uncovered coveredChars deltaChars delta))
    | EncThinking coveredChars deltaChars \<Rightarrow>
        Inr (e\<lparr>fe_blocks := (fe_blocks e)(i \<mapsto> EncThinking coveredChars (deltaChars + length delta))\<rparr>, map_option (FrThinkingDelta index) (uncovered coveredChars deltaChars delta))
    | EncTool _ _ _ \<Rightarrow> Inl WrongBlock)"

definition encodeToolDelta :: "(jsstring \<Rightarrow> json) \<Rightarrow> (json \<Rightarrow> jsstring) \<Rightarrow> frame_encoder \<Rightarrow> jsnum \<Rightarrow> jsstring \<Rightarrow> (replay_error, frame_encoder \<times> message_frame option) result" where
  "encodeToolDelta parse serialize e index delta = rbind (get_block e index ToolKind) (\<lambda>(i, state). case state of
      EncTool caughtUp catchupJson snapshotArguments \<Rightarrow>
        if caughtUp then Inr (e, if delta = [] then None else Some (FrToolDelta index delta))
        else let catchup = catchupJson @ delta; argumentsValue = parse catchup in
          if serialize argumentsValue \<noteq> snapshotArguments \<and> \<not> isJsonPrefix (parse snapshotArguments) argumentsValue
          then Inr (e\<lparr>fe_blocks := (fe_blocks e)(i \<mapsto> EncTool False catchup snapshotArguments)\<rparr>, None)
          else Inr (e\<lparr>fe_blocks := (fe_blocks e)(i \<mapsto> EncTool True [] [])\<rparr>, if catchup = [] then None else Some (FrToolCheckpoint index catchup))
    | _ \<Rightarrow> Inl WrongBlock)"

definition starting :: "frame_encoder \<Rightarrow> nat \<Rightarrow> encoder_block \<Rightarrow> message_frame \<Rightarrow> (replay_error, frame_encoder \<times> message_frame option) result" where
  "starting e i state frame = rbind (startBlock e i state) (\<lambda>e'. Inr (e', Some frame))"

definition ending :: "frame_encoder \<Rightarrow> jsnum \<Rightarrow> block_kind \<Rightarrow> message_frame \<Rightarrow> (replay_error, frame_encoder \<times> message_frame option) result" where
  "ending e index kind frame = rbind (endBlock e index kind) (\<lambda>e'. Inr (e', Some frame))"

fun encode_started :: "(jsstring \<Rightarrow> json) \<Rightarrow> (json \<Rightarrow> jsstring) \<Rightarrow> frame_encoder \<Rightarrow> message_event \<Rightarrow> (replay_error, frame_encoder \<times> message_frame option) result" where
  "encode_started parse serialize e (EvTextStart index partial) = rbind (eventBlock index partial) (\<lambda>(i, content). case content of
      Text t \<Rightarrow> starting e i (EncText (length (tc_text t)) 0) (FrTextStart index t)
    | _ \<Rightarrow> Inl WrongBlock)"
| "encode_started parse serialize e (EvTextDelta index delta partial) = encodeTextDelta e index delta TextKind"
| "encode_started parse serialize e (EvTextEnd index content partial) = rbind (eventBlock index partial) (\<lambda>(i, b). case b of
      Text t \<Rightarrow> ending e index TextKind (FrTextEnd index content (tc_signature t))
    | _ \<Rightarrow> Inl WrongBlock)"
| "encode_started parse serialize e (EvThinkingStart index partial) = rbind (eventBlock index partial) (\<lambda>(i, content). case content of
      Thinking t \<Rightarrow> starting e i (EncThinking (length (th_thinking t)) 0) (FrThinkingStart index t)
    | _ \<Rightarrow> Inl WrongBlock)"
| "encode_started parse serialize e (EvThinkingDelta index delta partial) = encodeTextDelta e index delta ThinkingKind"
| "encode_started parse serialize e (EvThinkingEnd index content partial) = rbind (eventBlock index partial) (\<lambda>(i, b). case b of
      Thinking t \<Rightarrow> ending e index ThinkingKind (FrThinkingEnd index content (th_signature t) (th_redacted t))
    | _ \<Rightarrow> Inl WrongBlock)"
| "encode_started parse serialize e (EvToolStart index partial) = rbind (eventBlock index partial) (\<lambda>(i, content). case content of
      Tool t \<Rightarrow> let snapshotArguments = serialize (tl_arguments t); caughtUp = (snapshotArguments = serialize (parse [])) in
        starting e i (EncTool caughtUp [] (if caughtUp then [] else snapshotArguments)) (FrToolStart index t)
    | _ \<Rightarrow> Inl WrongBlock)"
| "encode_started parse serialize e (EvToolDelta index delta partial) = encodeToolDelta parse serialize e index delta"
| "encode_started parse serialize e (EvToolEnd index toolCall partial) = rbind (eventBlock index partial) (\<lambda>(i, b). case b of
      Tool t \<Rightarrow> ending e index ToolKind
        (FrToolEnd index (tl_id toolCall) (tl_name toolCall) (tl_arguments toolCall) (tl_thoughtSignature toolCall) (tl_namespace toolCall))
    | _ \<Rightarrow> Inl WrongBlock)"
| "encode_started parse serialize e _ = Inl BeforeStart"

definition encode_event :: "(jsstring \<Rightarrow> json) \<Rightarrow> (json \<Rightarrow> jsstring) \<Rightarrow> frame_encoder \<Rightarrow> message_event \<Rightarrow> (replay_error, frame_encoder \<times> message_frame option) result" where
  "encode_event parse serialize e event =
     (if fe_terminal e then Inl AfterTerminal
      else case event of
        EvStart partial \<Rightarrow> if fe_started e then Inl SecondStart else Inr (e\<lparr>fe_started := True\<rparr>, Some (FrStart (cloneStartMessage partial)))
      | EvDone message \<Rightarrow> if \<not> fe_started e then Inl BeforeStart else Inr (e\<lparr>fe_terminal := True\<rparr>, None)
      | EvError message \<Rightarrow> Inr (e\<lparr>fe_terminal := True\<rparr>, None)
      | _ \<Rightarrow> if \<not> fe_started e then Inl BeforeStart else encode_started parse serialize e event)"

section \<open>The reducer\<close>

datatype reducer_block = RedText bool | RedThinking bool | RedTool bool jsstring

fun reducer_kind :: "reducer_block \<Rightarrow> block_kind" where
  "reducer_kind (RedText _) = TextKind"
| "reducer_kind (RedThinking _) = ThinkingKind"
| "reducer_kind (RedTool _ _) = ToolKind"

fun red_ended :: "reducer_block \<Rightarrow> bool" where
  "red_ended (RedText ended) = ended"
| "red_ended (RedThinking ended) = ended"
| "red_ended (RedTool ended _) = ended"

record reducer =
  rd_message :: "assistant_message option"
  rd_beforeStart :: bool
  rd_states :: "(nat \<times> reducer_block) list"

definition new_reducer :: reducer where
  "new_reducer = \<lparr>rd_message = None, rd_beforeStart = False, rd_states = []\<rparr>"

definition set_block :: "assistant_message \<Rightarrow> nat \<Rightarrow> block \<Rightarrow> assistant_message" where
  "set_block m i b = m\<lparr>am_content := (am_content m)[i := b]\<rparr>"

definition appendBlock :: "assistant_message \<Rightarrow> (nat \<times> reducer_block) list \<Rightarrow> jsnum \<Rightarrow> block \<Rightarrow> reducer_block \<Rightarrow>
    (replay_error, assistant_message \<times> (nat \<times> reducer_block) list) result" where
  "appendBlock m states index b state = rbind (assertContentIndex index) (\<lambda>i.
     if i \<noteq> length (am_content m) then Inl (if i < length (am_content m) then AlreadyExists else LeavesGap)
     else Inr (m\<lparr>am_content := am_content m @ [b]\<rparr>, map_set i state states))"

definition activeBlock :: "assistant_message \<Rightarrow> (nat \<times> reducer_block) list \<Rightarrow> jsnum \<Rightarrow> block_kind \<Rightarrow> (replay_error, nat \<times> block \<times> reducer_block) result" where
  "activeBlock m states index kind = rbind (assertContentIndex index) (\<lambda>i.
     case map_of states i of
       None \<Rightarrow> Inl NotStarted
     | Some state \<Rightarrow>
         if \<not> i < length (am_content m) then Inl NotStarted
         else let b = am_content m ! i in
           if reducer_kind state \<noteq> kind \<or> kind_of b \<noteq> kind then Inl WrongBlock
           else if red_ended state then Inl AfterEnd
           else Inr (i, b, state))"

fun reduce_frame :: "(jsstring \<Rightarrow> json) \<Rightarrow> assistant_message \<Rightarrow> (nat \<times> reducer_block) list \<Rightarrow> message_frame \<Rightarrow>
    (replay_error, assistant_message \<times> (nat \<times> reducer_block) list) result" where
  "reduce_frame parse m states (FrStart partial) = Inl SecondStart"
| "reduce_frame parse m states (FrTextStart index content) = appendBlock m states index (Text content) (RedText False)"
| "reduce_frame parse m states (FrTextDelta index delta) = rbind (activeBlock m states index TextKind) (\<lambda>(i, b, state). case b of
      Text t \<Rightarrow> Inr (set_block m i (Text (t\<lparr>tc_text := tc_text t @ delta\<rparr>)), states)
    | _ \<Rightarrow> Inl WrongBlock)"
| "reduce_frame parse m states (FrTextEnd index content signature) = rbind (activeBlock m states index TextKind) (\<lambda>(i, b, state). case b of
      Text t \<Rightarrow> Inr (set_block m i (Text (t\<lparr>tc_text := content, tc_signature := signature\<rparr>)), map_set i (RedText True) states)
    | _ \<Rightarrow> Inl WrongBlock)"
| "reduce_frame parse m states (FrThinkingStart index content) = appendBlock m states index (Thinking content) (RedThinking False)"
| "reduce_frame parse m states (FrThinkingDelta index delta) = rbind (activeBlock m states index ThinkingKind) (\<lambda>(i, b, state). case b of
      Thinking t \<Rightarrow> Inr (set_block m i (Thinking (t\<lparr>th_thinking := th_thinking t @ delta\<rparr>)), states)
    | _ \<Rightarrow> Inl WrongBlock)"
| "reduce_frame parse m states (FrThinkingEnd index content signature redacted) = rbind (activeBlock m states index ThinkingKind) (\<lambda>(i, b, state). case b of
      Thinking t \<Rightarrow> Inr (set_block m i (Thinking (t\<lparr>th_thinking := content, th_signature := signature, th_redacted := redacted\<rparr>)), map_set i (RedThinking True) states)
    | _ \<Rightarrow> Inl WrongBlock)"
| "reduce_frame parse m states (FrToolStart index toolCall) = appendBlock m states index (Tool toolCall) (RedTool False [])"
| "reduce_frame parse m states (FrToolCheckpoint index json) = rbind (activeBlock m states index ToolKind) (\<lambda>(i, b, state). case (b, state) of
      (Tool t, RedTool ended _) \<Rightarrow> Inr (set_block m i (Tool (t\<lparr>tl_arguments := parse json\<rparr>)), map_set i (RedTool ended json) states)
    | _ \<Rightarrow> Inl WrongBlock)"
| "reduce_frame parse m states (FrToolDelta index delta) = rbind (activeBlock m states index ToolKind) (\<lambda>(i, b, state). case (b, state) of
      (Tool t, RedTool ended json) \<Rightarrow> Inr (m, map_set i (RedTool ended (json @ delta)) states)
    | _ \<Rightarrow> Inl WrongBlock)"
| "reduce_frame parse m states (FrToolEnd index i' name arguments thoughtSignature namespace) = rbind (activeBlock m states index ToolKind) (\<lambda>(i, b, state). case (b, state) of
      (Tool t, RedTool _ json) \<Rightarrow>
        Inr (set_block m i (Tool \<lparr>tl_id = i', tl_name = name, tl_arguments = arguments, tl_thoughtSignature = thoughtSignature, tl_namespace = namespace\<rparr>),
          map_set i (RedTool True json) states)
    | _ \<Rightarrow> Inl WrongBlock)"

definition reduce_step :: "(jsstring \<Rightarrow> json) \<Rightarrow> reducer \<Rightarrow> message_frame \<Rightarrow> (replay_error, reducer) result" where
  "reduce_step parse r frame = (case frame of
      FrStart partial \<Rightarrow> if rd_message r \<noteq> None then Inl SecondStart else if rd_beforeStart r then Inl BeforeStart else Inr (r\<lparr>rd_message := Some partial\<rparr>)
    | _ \<Rightarrow> (case rd_message r of
        None \<Rightarrow> Inr (r\<lparr>rd_beforeStart := True\<rparr>)
      | Some m \<Rightarrow> rbind (reduce_frame parse m (rd_states r) frame) (\<lambda>(m', states). Inr (r\<lparr>rd_message := Some m', rd_states := states\<rparr>))))"

text \<open>At the end the arguments of the tool calls that have not ended are parsed from what has arrived.\<close>

fun finish_state :: "(jsstring \<Rightarrow> json) \<Rightarrow> assistant_message \<Rightarrow> nat \<times> reducer_block \<Rightarrow> (replay_error, assistant_message) result" where
  "finish_state parse m (i, RedTool False json) =
     (if json = [] then Inr m
      else if i < length (am_content m) then (case am_content m ! i of
        Tool t \<Rightarrow> Inr (set_block m i (Tool (t\<lparr>tl_arguments := parse json\<rparr>)))
      | _ \<Rightarrow> Inl WrongBlock)
      else Inl WrongBlock)"
| "finish_state parse m _ = Inr m"

definition reduceAssistantMessageFrames :: "(jsstring \<Rightarrow> json) \<Rightarrow> message_frame list \<Rightarrow> (replay_error, assistant_message option) result" where
  "reduceAssistantMessageFrames parse frames = rbind (rfold (reduce_step parse) new_reducer frames) (\<lambda>r. case rd_message r of
      None \<Rightarrow> Inr None
    | Some m \<Rightarrow> rbind (rfold (finish_state parse) m (rd_states r)) (\<lambda>m'. Inr (Some m')))"

end
