(* ===== verification/BoundedOutput.thy ===== *)
theory BoundedOutput
  imports Prelude
begin

text \<open>
  The bounded collector of bytes, from \<^verbatim>\<open>packages/agent/src/harness/pico3/bounded.ts\<close>. It retains the start or the end of a stream of
  chunks within a budget of bytes and a budget of newlines, and counts what it discards. Budgets are whole numbers. The decoding of the retained bytes to text
  is not part of the model.
\<close>

section \<open>The collector\<close>

record bounded =
  bd_bytes :: "byte list"
  bd_maxBytes :: nat
  bd_maxLines :: nat
  bd_head :: bool
  bd_droppedBytes :: nat
  bd_droppedLines :: nat
  bd_total :: nat

definition new_bounded :: "int \<Rightarrow> int \<Rightarrow> bool \<Rightarrow> bounded" where
  "new_bounded maxBytes maxLines head = \<lparr>bd_bytes = [], bd_maxBytes = nat (max 0 maxBytes), bd_maxLines = nat (max 0 maxLines), bd_head = head,
     bd_droppedBytes = 0, bd_droppedLines = 0, bd_total = 0\<rparr>"

fun countNewlines :: "byte list \<Rightarrow> nat" where
  "countNewlines [] = 0"
| "countNewlines (b # bs) = (if b = 10 then Suc (countNewlines bs) else countNewlines bs)"

text \<open>The loop that looks for the newline that fills the budget, and the loop that skips newlines over the budget.\<close>

fun head_take :: "byte list \<Rightarrow> nat \<Rightarrow> nat \<Rightarrow> nat \<Rightarrow> nat \<Rightarrow> nat" where
  "head_take [] i limit lines remainingLines = limit"
| "head_take (b # bs) i limit lines remainingLines =
     (if \<not> i < limit then limit
      else if b \<noteq> 10 then head_take bs (Suc i) limit lines remainingLines
      else if Suc lines = remainingLines then Suc i
      else head_take bs (Suc i) limit (Suc lines) remainingLines)"

fun tail_skip :: "byte list \<Rightarrow> nat \<Rightarrow> int \<Rightarrow> nat" where
  "tail_skip [] start excessLines = start"
| "tail_skip (b # bs) start excessLines =
     (if excessLines > 0 then tail_skip bs (Suc start) (if b = 10 then excessLines - 1 else excessLines) else start)"

definition tailStart :: "byte list \<Rightarrow> nat \<Rightarrow> nat \<Rightarrow> nat" where
  "tailStart bytes maxBytes maxLines =
     (let start = length bytes - maxBytes; excessLines = int (countNewlines (drop start bytes)) - int maxLines
      in tail_skip (drop start bytes) start excessLines)"

definition bd_drop :: "bounded \<Rightarrow> byte list \<Rightarrow> bounded" where
  "bd_drop d bytes = d\<lparr>bd_droppedBytes := bd_droppedBytes d + length bytes, bd_droppedLines := bd_droppedLines d + countNewlines bytes\<rparr>"

definition pushHead :: "bounded \<Rightarrow> byte list \<Rightarrow> bounded" where
  "pushHead d chunk =
     (let remainingBytes = int (bd_maxBytes d) - int (length (bd_bytes d));
          remainingLines = int (bd_maxLines d) - int (countNewlines (bd_bytes d)) in
      if remainingBytes \<le> 0 \<or> remainingLines \<le> 0 then bd_drop d chunk
      else let n = head_take chunk 0 (min (length chunk) (nat remainingBytes)) 0 (nat remainingLines)
           in bd_drop (d\<lparr>bd_bytes := bd_bytes d @ take n chunk\<rparr>) (drop n chunk))"

definition pushTail :: "bounded \<Rightarrow> byte list \<Rightarrow> bounded" where
  "pushTail d chunk =
     (let incomingStart = tailStart chunk (bd_maxBytes d) (bd_maxLines d);
          d1 = bd_drop d (take incomingStart chunk);
          combined = bd_bytes d1 @ drop incomingStart chunk;
          start = tailStart combined (bd_maxBytes d) (bd_maxLines d);
          d2 = bd_drop d1 (take start combined)
      in d2\<lparr>bd_bytes := drop start combined\<rparr>)"

definition bd_push :: "bounded \<Rightarrow> byte list \<Rightarrow> bounded" where
  "bd_push d chunk =
     (let d1 = d\<lparr>bd_total := bd_total d + length chunk\<rparr> in
      if chunk = [] then d1
      else if bd_maxBytes d1 = 0 \<or> bd_maxLines d1 = 0 then bd_drop d1 chunk
      else if bd_head d1 then pushHead d1 chunk
      else pushTail d1 chunk)"

section \<open>What is to be retained\<close>

text \<open>The start of a stream: bytes until one budget is used up. The end of a stream: its longest end within both budgets.\<close>

fun start_within :: "nat \<Rightarrow> nat \<Rightarrow> byte list \<Rightarrow> byte list" where
  "start_within B L [] = []"
| "start_within B L (b # bs) = (if B = 0 \<or> L = 0 then [] else b # start_within (B - 1) (if b = 10 then L - 1 else L) bs)"

fun end_within :: "nat \<Rightarrow> nat \<Rightarrow> byte list \<Rightarrow> byte list" where
  "end_within B L [] = []"
| "end_within B L (b # bs) = (if length (b # bs) \<le> B \<and> countNewlines (b # bs) \<le> L then b # bs else end_within B L bs)"

definition retained :: "bool \<Rightarrow> nat \<Rightarrow> nat \<Rightarrow> byte list \<Rightarrow> byte list" where
  "retained head B L bs = (if B = 0 \<or> L = 0 then [] else if head then start_within B L bs else end_within B L bs)"

lemma countNewlines_append [simp]: "countNewlines (xs @ ys) = countNewlines xs + countNewlines ys"
  by (induction xs) auto

lemma countNewlines_split: "countNewlines (take n xs) + countNewlines (drop n xs) = countNewlines xs"
  by (metis append_take_drop_id countNewlines_append)

lemma countNewlines_length: "countNewlines xs \<le> length xs"
  by (induction xs) auto

subsection \<open>The start\<close>

lemma start_within_zero [simp]: "start_within 0 L bs = []" "start_within B 0 bs = []"
  by (cases bs; simp)+

lemma start_within_prefix: "\<exists>rest. bs = start_within B L bs @ rest"
  by (induction bs arbitrary: B L) auto

lemma start_within_bounds: "length (start_within B L bs) \<le> B \<and> countNewlines (start_within B L bs) \<le> L"
proof (induction bs arbitrary: B L)
  case (Cons b bs)
  show ?case using Cons.IH [of "B - 1" "if b = 10 then L - 1 else L"] by auto
qed simp

lemma start_within_append:
  "start_within B L (xs @ ys) = start_within B L xs @
     (if start_within B L xs = xs then start_within (B - length xs) (L - countNewlines xs) ys else [])"
proof (induction xs arbitrary: B L)
  case (Cons x xs)
  show ?case using Cons.IH [of "B - 1" "if x = 10 then L - 1 else L"] by auto
qed simp

lemma head_take_shift: "head_take bs i limit lines m = (if limit < i then limit else i + head_take bs 0 (limit - i) lines m)"
proof (induction bs arbitrary: i limit lines)
  case (Cons b bs)
  show ?case using Cons.IH [of "Suc i" limit lines] Cons.IH [of "Suc i" limit "Suc lines"] Cons.IH [of 1 "limit - i" lines] Cons.IH [of 1 "limit - i" "Suc lines"]
    by auto
qed auto

lemma head_take_start:
  "0 < m \<Longrightarrow> take (head_take bs 0 (min (length bs) B) lines (lines + m)) bs = start_within B m bs"
proof (induction bs arbitrary: B lines m)
  case (Cons b bs)
  show ?case
  proof (cases B)
    case (Suc B')
    have rest: "head_take bs 1 (min (Suc (length bs)) (Suc B')) k n = Suc (head_take bs 0 (min (length bs) B') k n)" for k n
      using head_take_shift [of bs 1 "min (Suc (length bs)) (Suc B')" k n] by simp
    show ?thesis using Cons.IH [of m B' lines] Cons.IH [of "m - 1" B' "Suc lines"] Cons.prems rest Suc by (auto simp: not_less_eq le_Suc_eq)
  qed simp
qed simp

subsection \<open>The end\<close>

lemma end_within_suffix: "\<exists>dropped. bs = dropped @ end_within B L bs"
proof (induction bs)
  case (Cons b bs)
  then obtain dropped where "bs = dropped @ end_within B L bs" by blast
  then have "b # bs = (b # dropped) @ end_within B L bs" by simp
  then show ?case by (metis append_Nil end_within.simps(2))
qed simp

lemma end_within_bounds: "length (end_within B L bs) \<le> B" "countNewlines (end_within B L bs) \<le> L"
  by (induction bs) auto

lemma end_within_append: "end_within B L (end_within B L xs @ ys) = end_within B L (xs @ ys)"
  by (induction xs) auto

lemma end_within_all: "length xs \<le> B \<Longrightarrow> countNewlines xs \<le> L \<Longrightarrow> end_within B L xs = xs"
  by (cases xs) auto

lemma end_within_long: "B \<le> length ys \<Longrightarrow> end_within B L (xs @ ys) = end_within B L ys"
  by (induction xs) auto

lemma tail_skip_end: "length bs \<le> B \<Longrightarrow> start \<le> tail_skip bs start (int (countNewlines bs) - int L) \<and>
    drop (tail_skip bs start (int (countNewlines bs) - int L) - start) bs = end_within B L bs"
proof (induction bs arbitrary: start)
  case (Cons b bs)
  show ?case
  proof (cases "countNewlines (b # bs) \<le> L")
    case False
    then have "start \<le> Suc start" "length bs \<le> B" "(if b = 10 then int (countNewlines (b # bs)) - int L - 1 else int (countNewlines (b # bs)) - int L) = int (countNewlines bs) - int L"
      using Cons.prems by auto
    then show ?thesis using Cons.IH [of "Suc start"] False Suc_diff_le [of "Suc start"] by (auto simp: Suc_diff_le)
  qed (use Cons.prems in auto)
qed simp

lemma tailStart_end: "drop (tailStart bs B L) bs = end_within B L bs"
proof -
  let ?s = "length bs - B" and ?n = "tailStart bs B L"
  have "end_within B L bs = end_within B L (drop ?s bs)"
    using end_within_long [of B "drop ?s bs" L "take ?s bs"] by (cases "B \<le> length bs") auto
  moreover have skip: "?s \<le> ?n \<and> drop (?n - ?s) (drop ?s bs) = end_within B L (drop ?s bs)"
    unfolding tailStart_def Let_def by (rule tail_skip_end) simp
  moreover have "drop ?n bs = drop (?n - ?s) (drop ?s bs)" using skip by (metis drop_drop le_add_diff_inverse2)
  ultimately show ?thesis by metis
qed

section \<open>What is retained\<close>

text \<open>The counters of a collector that was given a stream.\<close>

definition accounted :: "nat \<Rightarrow> nat \<Rightarrow> bool \<Rightarrow> bounded \<Rightarrow> byte list \<Rightarrow> bool" where
  "accounted B L head d s \<longleftrightarrow> bd_maxBytes d = B \<and> bd_maxLines d = L \<and> bd_head d = head \<and> bd_total d = length s \<and>
     bd_droppedBytes d + length (bd_bytes d) = length s \<and> bd_droppedLines d + countNewlines (bd_bytes d) = countNewlines s"

lemma split_counts:
  "length (take n xs) + length (drop n xs) = length xs" "countNewlines (take n xs) + countNewlines (drop n xs) = countNewlines xs"
  using countNewlines_split [of n xs] by auto

lemma start_within_all: "length (start_within B L s) < B \<Longrightarrow> countNewlines (start_within B L s) < L \<Longrightarrow> start_within B L s = s"
proof (induction s arbitrary: B L)
  case (Cons b s)
  show ?case using Cons.IH [of "B - 1" "if b = 10 then L - 1 else L"] Cons.prems by (auto split: if_splits)
qed simp

lemma pushHead_bytes:
  assumes "bd_bytes d = start_within (bd_maxBytes d) (bd_maxLines d) s"
  shows "bd_bytes (pushHead d chunk) = start_within (bd_maxBytes d) (bd_maxLines d) (s @ chunk)"
proof (cases "length (bd_bytes d) < bd_maxBytes d \<and> countNewlines (bd_bytes d) < bd_maxLines d")
  case True
  then have all: "bd_bytes d = s" using assms start_within_all [of "bd_maxBytes d" "bd_maxLines d" s] by simp
  let ?B = "bd_maxBytes d - length s" and ?L = "bd_maxLines d - countNewlines s"
  have "take (head_take chunk 0 (min (length chunk) ?B) 0 ?L) chunk = start_within ?B ?L chunk"
    using head_take_start [of ?L chunk ?B 0] True all by simp
  moreover have "nat (int (bd_maxBytes d) - int (length s)) = ?B" "nat (int (bd_maxLines d) - int (countNewlines s)) = ?L" by linarith+
  ultimately show ?thesis using True all assms by (simp add: pushHead_def Let_def bd_drop_def start_within_append)
next
  case False
  then have "bd_bytes (pushHead d chunk) = bd_bytes d" by (auto simp: pushHead_def Let_def bd_drop_def)
  moreover have "start_within (bd_maxBytes d) (bd_maxLines d) (s @ chunk) = start_within (bd_maxBytes d) (bd_maxLines d) s"
    using False assms by (cases "bd_maxBytes d \<le> length s") (auto simp: start_within_append)
  ultimately show ?thesis using assms by simp
qed

lemma pushTail_bytes:
  "bd_bytes (pushTail d chunk) = end_within (bd_maxBytes d) (bd_maxLines d) (bd_bytes d @ end_within (bd_maxBytes d) (bd_maxLines d) chunk)"
  by (simp add: pushTail_def Let_def bd_drop_def tailStart_end)

text \<open>A chunk whose own end, as far as bytes go, is within the budget of newlines is joined to the end of what came before.\<close>

lemma end_within_chunk:
  assumes "countNewlines (drop (length c - B) c) \<le> L"
  shows "end_within B L (end_within B L s @ end_within B L c) = end_within B L (s @ c)"
proof (cases "length c \<le> B")
  case True
  then have "end_within B L c = c" using assms by (simp add: end_within_all)
  then show ?thesis by (simp add: end_within_append)
next
  case False
  have "end_within B L c = end_within B L (drop (length c - B) c)"
    using end_within_long [of B "drop (length c - B) c" L "take (length c - B) c"] False by simp
  also have "\<dots> = drop (length c - B) c" using assms by (simp add: end_within_all)
  finally have whole: "end_within B L c = drop (length c - B) c" .
  have "end_within B L (xs @ end_within B L c) = end_within B L c" for xs
    using end_within_long [of B "drop (length c - B) c" L xs] False assms by (simp add: whole end_within_all)
  moreover have "end_within B L (s @ c) = end_within B L c" using False by (simp add: end_within_long)
  ultimately show ?thesis by simp
qed

lemma push_fields:
  "bd_maxBytes (bd_push d chunk) = bd_maxBytes d" "bd_maxLines (bd_push d chunk) = bd_maxLines d" "bd_head (bd_push d chunk) = bd_head d"
  "bd_total (bd_push d chunk) = bd_total d + length chunk"
  by (simp_all add: bd_push_def pushHead_def pushTail_def bd_drop_def Let_def)

lemma push_counts:
  "bd_droppedBytes (bd_push d chunk) + length (bd_bytes (bd_push d chunk)) = bd_droppedBytes d + length (bd_bytes d) + length chunk"
  "bd_droppedLines (bd_push d chunk) + countNewlines (bd_bytes (bd_push d chunk)) = bd_droppedLines d + countNewlines (bd_bytes d) + countNewlines chunk"
proof -
  have head: "bd_droppedBytes (pushHead d chunk) + length (bd_bytes (pushHead d chunk)) = bd_droppedBytes d + length (bd_bytes d) + length chunk"
    "bd_droppedLines (pushHead d chunk) + countNewlines (bd_bytes (pushHead d chunk)) = bd_droppedLines d + countNewlines (bd_bytes d) + countNewlines chunk" for d
    using split_counts [of _ chunk] by (auto simp: pushHead_def Let_def bd_drop_def add.commute simp del: length_take length_drop)
  have tail: "bd_droppedBytes (pushTail d chunk) + length (bd_bytes (pushTail d chunk)) = bd_droppedBytes d + length (bd_bytes d) + length chunk"
    "bd_droppedLines (pushTail d chunk) + countNewlines (bd_bytes (pushTail d chunk)) = bd_droppedLines d + countNewlines (bd_bytes d) + countNewlines chunk" for d
  proof -
    let ?i = "tailStart chunk (bd_maxBytes d) (bd_maxLines d)"
    let ?all = "bd_bytes d @ drop ?i chunk"
    note counts = split_counts [of ?i chunk] split_counts [of "tailStart ?all (bd_maxBytes d) (bd_maxLines d)" ?all]
    show "bd_droppedBytes (pushTail d chunk) + length (bd_bytes (pushTail d chunk)) = bd_droppedBytes d + length (bd_bytes d) + length chunk"
      using counts(1,3) by (simp add: pushTail_def Let_def bd_drop_def del: length_drop length_take)
    show "bd_droppedLines (pushTail d chunk) + countNewlines (bd_bytes (pushTail d chunk)) = bd_droppedLines d + countNewlines (bd_bytes d) + countNewlines chunk"
      using counts(2,4) by (simp add: pushTail_def Let_def bd_drop_def del: take_append drop_append)
  qed
  let ?d = "d\<lparr>bd_total := bd_total d + length chunk\<rparr>"
  show "bd_droppedBytes (bd_push d chunk) + length (bd_bytes (bd_push d chunk)) = bd_droppedBytes d + length (bd_bytes d) + length chunk"
    using head(1) [of ?d] tail(1) [of ?d] by (auto simp: bd_push_def Let_def bd_drop_def)
  show "bd_droppedLines (bd_push d chunk) + countNewlines (bd_bytes (bd_push d chunk)) = bd_droppedLines d + countNewlines (bd_bytes d) + countNewlines chunk"
    using head(2) [of ?d] tail(2) [of ?d] by (auto simp: bd_push_def Let_def bd_drop_def)
qed

lemma accounted_push: "accounted B L head d s \<Longrightarrow> accounted B L head (bd_push d chunk) (s @ chunk)"
  using push_counts [of d chunk] by (simp add: accounted_def push_fields)

lemma accounted_pushes: "accounted B L head d s \<Longrightarrow> accounted B L head (foldl bd_push d chunks) (s @ concat chunks)"
proof (induction chunks arbitrary: d s)
  case (Cons c chunks)
  show ?case using Cons.IH [OF accounted_push [OF Cons.prems, of c]] by simp
qed simp

lemma accounted_new: "accounted (nat (max 0 maxBytes)) (nat (max 0 maxLines)) head (new_bounded maxBytes maxLines head) []"
  by (simp add: accounted_def new_bounded_def)

definition joins :: "nat \<Rightarrow> nat \<Rightarrow> byte list \<Rightarrow> bool" where
  "joins B L chunk \<longleftrightarrow> countNewlines (drop (length chunk - B) chunk) \<le> L"

lemma retained_push:
  assumes "accounted B L head d s" "bd_bytes d = retained head B L s" "head \<or> joins B L chunk"
  shows "bd_bytes (bd_push d chunk) = retained head B L (s @ chunk)"
proof -
  let ?d = "d\<lparr>bd_total := bd_total d + length chunk\<rparr>"
  have fields: "bd_maxBytes ?d = B" "bd_maxLines ?d = L" "bd_head ?d = head" "bd_bytes ?d = bd_bytes d" using assms(1) by (simp_all add: accounted_def)
  consider "B = 0 \<or> L = 0" | "head" "0 < B" "0 < L" | "\<not> head" "0 < B" "0 < L" by auto
  then show ?thesis
  proof cases
    case 1
    then show ?thesis using fields assms(2) by (auto simp: bd_push_def Let_def retained_def bd_drop_def)
  next
    case 2
    then show ?thesis using fields assms(2) pushHead_bytes [of ?d s chunk] by (auto simp: bd_push_def Let_def retained_def)
  next
    case 3
    then show ?thesis using fields assms(2,3) pushTail_bytes [of ?d chunk] end_within_chunk [of chunk B L s]
      by (auto simp: bd_push_def Let_def retained_def joins_def)
  qed
qed

lemma retained_pushes:
  "accounted B L head d s \<Longrightarrow> bd_bytes d = retained head B L s \<Longrightarrow> head \<or> list_all (joins B L) chunks \<Longrightarrow>
   bd_bytes (foldl bd_push d chunks) = retained head B L (s @ concat chunks)"
proof (induction chunks arbitrary: d s)
  case (Cons c chunks)
  show ?case using Cons.IH [OF accounted_push [OF Cons.prems(1), of c] retained_push [OF Cons.prems(1,2), of c]] Cons.prems(3) by auto
qed simp

text \<open>
  C32. A collector counts every byte and every newline it was given or discarded. It retains, whatever the chunks, the start of the stream up to where a
  budget is used up; of the end it retains the longest part within both budgets when no chunk holds, within its last bytes that fit, more newlines than the budget.
\<close>

theorem bounded_exact:
  assumes "head \<or> list_all (joins (nat (max 0 maxBytes)) (nat (max 0 maxLines))) chunks"
  shows "let d = foldl bd_push (new_bounded maxBytes maxLines head) chunks; s = concat chunks; kept = retained head (nat (max 0 maxBytes)) (nat (max 0 maxLines)) s in
    bd_bytes d = kept \<and> bd_total d = length s \<and> bd_droppedBytes d + length kept = length s \<and> bd_droppedLines d + countNewlines kept = countNewlines s"
  using retained_pushes [OF accounted_new _ assms] accounted_pushes [OF accounted_new, of maxBytes maxLines head chunks]
  by (auto simp: Let_def accounted_def new_bounded_def retained_def)

definition sample_chunks :: "byte list list" where
  "sample_chunks = [[120], [97, 10, 98, 10, 99]]"

theorem bounded_exact_witness:
  "list_all (joins 100 2) sample_chunks \<and> bd_bytes (foldl bd_push (new_bounded 100 2 False) sample_chunks) = [120, 97, 10, 98, 10, 99] \<and>
   bd_bytes (foldl bd_push (new_bounded 3 2 False) [[120, 97], [10, 98]]) = [97, 10, 98]"
proof -
  have ok: "list_all (joins 100 2) sample_chunks" by code_simp
  have ok': "list_all (joins 3 2) [[120, 97], [10, 98]]" by code_simp
  have "retained False 100 2 (concat sample_chunks) = [120, 97, 10, 98, 10, 99]" "retained False 3 2 (concat [[120, 97], [10, 98]]) = [97, 10, 98]"
    by code_simp+
  then show ?thesis using bounded_exact [of False 100 2 sample_chunks] bounded_exact [of False 3 2 "[[120, 97], [10, 98]]"] ok ok' by (simp add: Let_def)
qed


end
