(* ===== verification/OutputUpdates.thy ===== *)
theory OutputUpdates
  imports Complex_Main DeltaDiff Truncation
begin

text \<open>
  How shell output reaches a consumer, from \<^verbatim>\<open>packages/agent/src/harness/utils/output-capture.ts\<close> (the updates between two views) and
  \<^verbatim>\<open>packages/agent/src/harness/utils/adaptive-publisher.ts\<close> (when they are published). The publisher relies on its updates through the interface
  \<open>view_updates\<close>; the updates of shell output provide it. The collection of the output itself is not part of this theory.
\<close>

section \<open>Updates of shell output\<close>

record shell_truncation =
  sh_truncated :: bool
  sh_truncatedBy :: "truncated_by option"
  sh_totalLines :: nat
  sh_totalBytes :: nat
  sh_outputLines :: nat
  sh_outputBytes :: nat
  sh_lastLinePartial :: bool
  sh_firstLineExceedsLimit :: bool
  sh_maxLines :: nat
  sh_maxBytes :: nat

record shell_metadata =
  so_truncation :: shell_truncation
  so_spillPath :: "jsstring option"
  so_lastLineBytes :: "nat option"

record shell_view =
  sv_text :: jsstring
  sv_metadata :: shell_metadata

datatype shell_update =
    Replace shell_view
  | Append jsstring shell_metadata
  | Slide nat jsstring shell_metadata
  | Metadata shell_metadata

definition suffixPrefixOverlap :: "jsstring \<Rightarrow> jsstring \<Rightarrow> nat \<Rightarrow> nat" where
  "suffixPrefixOverlap before after scan = overlap_with before after scan 64 8"

definition updateFrom :: "shell_view option \<Rightarrow> shell_view \<Rightarrow> shell_update" where
  "updateFrom previous current = (case previous of
      None \<Rightarrow> Replace current
    | Some p \<Rightarrow>
        let before = sv_text p; after = sv_text current; metadata = sv_metadata current in
        if after = before then Metadata metadata
        else if length after > length before \<and> take (length before) after = before then Append (drop (length before) after) metadata
        else let shared = suffixPrefixOverlap before after (min (min (length before) (length after)) (sh_maxBytes (so_truncation metadata) * 2)) in
          if shared > 0 then Slide (length before - shared) (drop shared after) metadata
          else Replace current)"

definition applyShellOutputUpdate :: "shell_view option \<Rightarrow> shell_update \<Rightarrow> shell_view" where
  "applyShellOutputUpdate current update = (case update of
      Replace output \<Rightarrow> output
    | Append s metadata \<Rightarrow> \<lparr>sv_text = (case current of None \<Rightarrow> [] | Some c \<Rightarrow> sv_text c) @ s, sv_metadata = metadata\<rparr>
    | Slide n s metadata \<Rightarrow> \<lparr>sv_text = (case current of None \<Rightarrow> [] | Some c \<Rightarrow> drop n (sv_text c)) @ s, sv_metadata = metadata\<rparr>
    | Metadata metadata \<Rightarrow> \<lparr>sv_text = (case current of None \<Rightarrow> [] | Some c \<Rightarrow> sv_text c), sv_metadata = metadata\<rparr>)"

lemma apply_updateFrom: "applyShellOutputUpdate previous (updateFrom previous current) = current"
proof (cases previous)
  case (Some p)
  define shared where "shared = suffixPrefixOverlap (sv_text p) (sv_text current)
    (min (min (length (sv_text p)) (length (sv_text current))) (sh_maxBytes (so_truncation (sv_metadata current)) * 2))"
  have "drop (length (sv_text p) - shared) (sv_text p) = take shared (sv_text current)"
    using overlap_ok [OF shared_def [unfolded suffixPrefixOverlap_def]] by simp
  moreover have "sv_text p @ drop (length (sv_text p)) (sv_text current) = sv_text current" if "take (length (sv_text p)) (sv_text current) = sv_text p"
    using that by (metis append_take_drop_id)
  ultimately show ?thesis
    using Some by (auto simp: updateFrom_def applyShellOutputUpdate_def Let_def shared_def [symmetric])
qed (simp add: updateFrom_def applyShellOutputUpdate_def)

section \<open>The publisher\<close>

text \<open>Times are rational numbers of milliseconds. A timer is due when its delay is over; when it fires is up to the runtime.\<close>

record 'v publisher =
  pb_published :: "'v option"
  pb_dirty :: bool
  pb_nextEmitAt :: rat
  pb_timer :: "rat option"
  pb_disposed :: bool

record ('v, 'u) publisher_options =
  po_update :: "'v option \<Rightarrow> 'v \<Rightarrow> 'u option"
  po_measure :: "'u \<Rightarrow> nat"
  po_minIntervalMs :: rat
  po_targetBytesPerSecond :: rat

definition new_publisher :: "'v publisher" where
  "new_publisher = \<lparr>pb_published = None, pb_dirty = False, pb_nextEmitAt = 0, pb_timer = None, pb_disposed = False\<rparr>"

definition armTimer :: "rat \<Rightarrow> rat \<Rightarrow> 'v publisher \<Rightarrow> 'v publisher" where
  "armTimer now delay p = (if pb_timer p \<noteq> None then p else p\<lparr>pb_timer := Some (now + delay)\<rparr>)"

definition pub_delay :: "('v, 'u) publisher_options \<Rightarrow> 'u \<Rightarrow> rat" where
  "pub_delay opts u = max (po_minIntervalMs opts) (of_nat (po_measure opts u) * 1000 / po_targetBytesPerSecond opts)"

text \<open>A flush returns the update it publishes, which is its last step: what the consumer does then, also a call of the publisher, comes after.\<close>

definition pub_flush :: "('v, 'u) publisher_options \<Rightarrow> bool \<Rightarrow> rat \<Rightarrow> 'v \<Rightarrow> 'v publisher \<Rightarrow> 'v publisher \<times> 'u option" where
  "pub_flush opts force now current p =
     (if pb_disposed p \<or> \<not> pb_dirty p then (p, None)
      else if \<not> force \<and> now < pb_nextEmitAt p then (armTimer now (pb_nextEmitAt p - now) p, None)
      else let p1 = p\<lparr>pb_timer := None\<rparr> in (case po_update opts (pb_published p1) current of
          None \<Rightarrow> (p1\<lparr>pb_published := Some current, pb_dirty := False\<rparr>, None)
        | Some u \<Rightarrow> (p1\<lparr>pb_published := Some current, pb_dirty := False, pb_nextEmitAt := now + pub_delay opts u\<rparr>, Some u)))"

text \<open>The clock is read twice: for the wait, and by the flush.\<close>

definition markDirty :: "('v, 'u) publisher_options \<Rightarrow> rat \<Rightarrow> rat \<Rightarrow> 'v \<Rightarrow> 'v publisher \<Rightarrow> 'v publisher \<times> 'u option" where
  "markDirty opts now now' current p =
     (if pb_disposed p then (p, None)
      else let p1 = p\<lparr>pb_dirty := True\<rparr>; wait = pb_nextEmitAt p1 - now in
        if wait \<le> 0 then pub_flush opts False now' current p1 else (armTimer now wait p1, None))"

definition timer_fires :: "('v, 'u) publisher_options \<Rightarrow> rat \<Rightarrow> 'v \<Rightarrow> 'v publisher \<Rightarrow> 'v publisher \<times> 'u option" where
  "timer_fires opts now current p = pub_flush opts False now current (p\<lparr>pb_timer := None\<rparr>)"

definition pub_dispose :: "'v publisher \<Rightarrow> 'v publisher" where
  "pub_dispose p = p\<lparr>pb_timer := None, pb_disposed := True\<rparr>"

section \<open>Producer, publisher and consumer\<close>

text \<open>
  The producer changes its state and marks it dirty, the timer fires at any time, flushes and the disposal come in between. The consumer applies each
  published update to its view.
\<close>

datatype 'v pub_event = Produce 'v rat rat | Flush bool rat | Fires rat | Dispose

record ('v, 'u) published_stream =
  ps_current :: 'v
  ps_publisher :: "'v publisher"
  ps_view :: "'v option"
  ps_log :: "(rat \<times> bool \<times> 'u) list"

definition start_publishing :: "'v \<Rightarrow> ('v, 'u) published_stream" where
  "start_publishing v = \<lparr>ps_current = v, ps_publisher = new_publisher, ps_view = None, ps_log = []\<rparr>"

definition deliver :: "('v option \<Rightarrow> 'u \<Rightarrow> 'v) \<Rightarrow> rat \<Rightarrow> bool \<Rightarrow> 'v publisher \<times> 'u option \<Rightarrow> ('v, 'u) published_stream \<Rightarrow> ('v, 'u) published_stream" where
  "deliver apply_update now force r s = (case r of
      (p, None) \<Rightarrow> s\<lparr>ps_publisher := p\<rparr>
    | (p, Some u) \<Rightarrow> s\<lparr>ps_publisher := p, ps_view := Some (apply_update (ps_view s) u), ps_log := ps_log s @ [(now, force, u)]\<rparr>)"

fun pub_step :: "('v, 'u) publisher_options \<Rightarrow> ('v option \<Rightarrow> 'u \<Rightarrow> 'v) \<Rightarrow> ('v, 'u) published_stream \<Rightarrow> 'v pub_event \<Rightarrow> ('v, 'u) published_stream" where
  "pub_step opts apply_update s (Produce v now now') = deliver apply_update now' False (markDirty opts now now' v (ps_publisher s)) (s\<lparr>ps_current := v\<rparr>)"
| "pub_step opts apply_update s (Flush force now) = deliver apply_update now force (pub_flush opts force now (ps_current s) (ps_publisher s)) s"
| "pub_step opts apply_update s (Fires now) = (if pb_timer (ps_publisher s) = None then s
     else deliver apply_update now False (timer_fires opts now (ps_current s) (ps_publisher s)) s)"
| "pub_step opts apply_update s Dispose = s\<lparr>ps_publisher := pub_dispose (ps_publisher s)\<rparr>"

text \<open>An update that is not forced comes no sooner than the one before it has bought.\<close>

fun spaced :: "('v, 'u) publisher_options \<Rightarrow> (rat \<times> bool \<times> 'u) list \<Rightarrow> bool" where
  "spaced opts ((t, f, u) # (t', f', u') # rest) = ((if f' then True else t + pub_delay opts u \<le> t') \<and> spaced opts ((t', f', u') # rest))"
| "spaced opts _ = True"

lemma spaced_snoc:
  "spaced opts (rest @ [(t', f', u')]) \<longleftrightarrow> spaced opts rest \<and> (rest = [] \<or> f' \<or> fst (last rest) + pub_delay opts (snd (snd (last rest))) \<le> t')"
  by (induction opts rest rule: spaced.induct) (auto split: if_splits)

definition publishing_ok :: "('v, 'u) publisher_options \<Rightarrow> ('v, 'u) published_stream \<Rightarrow> bool" where
  "publishing_ok opts s \<longleftrightarrow> (let p = ps_publisher s in
     ps_view s = pb_published p \<and>
     (pb_disposed p \<or> (if pb_dirty p then pb_timer p \<noteq> None else ps_view s = None \<or> ps_view s = Some (ps_current s))) \<and>
     spaced opts (ps_log s) \<and> (ps_log s = [] \<or> pb_nextEmitAt p = fst (last (ps_log s)) + pub_delay opts (snd (snd (last (ps_log s))))))"

text \<open>What the publisher needs of its updates.\<close>

locale view_updates =
  fixes update :: "'v option \<Rightarrow> 'v \<Rightarrow> 'u option" and apply_update :: "'v option \<Rightarrow> 'u \<Rightarrow> 'v"
  assumes applied: "update previous current = Some u \<Longrightarrow> apply_update previous u = current"
    and unchanged: "update previous current = None \<Longrightarrow> previous = Some current"
begin

lemma flush_ok:
  assumes opts: "po_update opts = update" and view: "ps_view s = pb_published p" "ps_publisher s = q" "pb_published q = pb_published p"
    and log: "spaced opts (ps_log s)" "ps_log s = [] \<or> pb_nextEmitAt p = fst (last (ps_log s)) + pub_delay opts (snd (snd (last (ps_log s))))"
    and clean: "pb_disposed p \<or> pb_dirty p \<or> ps_view s = None \<or> ps_view s = Some (ps_current s)"
  shows "publishing_ok opts (deliver apply_update now force (pub_flush opts force now (ps_current s) p) s)"
proof (cases "pb_disposed p \<or> \<not> pb_dirty p \<or> (\<not> force \<and> now < pb_nextEmitAt p)")
  case True
  then show ?thesis using assms by (auto simp: publishing_ok_def pub_flush_def deliver_def armTimer_def Let_def)
next
  case False
  show ?thesis
  proof (cases "update (pb_published p) (ps_current s)")
    case None
    then show ?thesis using False assms unchanged [OF None] by (auto simp: publishing_ok_def pub_flush_def deliver_def Let_def)
  next
    case (Some u)
    then show ?thesis using False assms applied [OF Some] by (auto simp: publishing_ok_def pub_flush_def deliver_def Let_def spaced_snoc)
  qed
qed

lemma step_ok:
  assumes opts: "po_update opts = update" and ok: "publishing_ok opts s"
  shows "publishing_ok opts (pub_step opts apply_update s event)"
proof (cases event)
  case (Produce v now now')
  let ?p = "(ps_publisher s)\<lparr>pb_dirty := True\<rparr>" and ?s = "s\<lparr>ps_current := v\<rparr>"
  have "publishing_ok opts (deliver apply_update now' False (pub_flush opts False now' (ps_current ?s) ?p) ?s)"
    using ok opts by (intro flush_ok) (auto simp: publishing_ok_def Let_def)
  moreover have "publishing_ok opts (deliver apply_update now' False (armTimer now delay ?p, None) ?s)" if "\<not> pb_disposed (ps_publisher s)" for delay
    using ok that by (auto simp: publishing_ok_def Let_def deliver_def armTimer_def)
  moreover have "publishing_ok opts (deliver apply_update now' False (ps_publisher s, None) ?s)" if "pb_disposed (ps_publisher s)"
    using ok that by (auto simp: publishing_ok_def Let_def deliver_def)
  ultimately show ?thesis by (auto simp: Produce markDirty_def Let_def)
next
  case (Flush force now)
  have "publishing_ok opts (deliver apply_update now force (pub_flush opts force now (ps_current s) (ps_publisher s)) s)"
    using ok opts by (intro flush_ok) (auto simp: publishing_ok_def Let_def split: if_splits)
  then show ?thesis by (simp add: Flush)
next
  case (Fires now)
  have "publishing_ok opts (deliver apply_update now False (pub_flush opts False now (ps_current s) ((ps_publisher s)\<lparr>pb_timer := None\<rparr>)) s)"
    using ok opts by (intro flush_ok) (auto simp: publishing_ok_def Let_def split: if_splits)
  then show ?thesis using ok by (simp add: Fires timer_fires_def)
next
  case Dispose
  then show ?thesis using ok by (simp add: publishing_ok_def Let_def pub_dispose_def)
qed

lemma run_ok: "po_update opts = update \<Longrightarrow> publishing_ok opts (foldl (pub_step opts apply_update) (start_publishing v) events)"
proof (induction events rule: rev_induct)
  case Nil
  show ?case by (simp add: publishing_ok_def start_publishing_def new_publisher_def)
next
  case (snoc e events)
  then show ?case using step_ok by simp
qed

text \<open>The pending timer, when it fires late enough, and a forced flush bring the consumer up to date.\<close>

lemma flush_delivers:
  assumes "po_update opts = update" "publishing_ok opts s" "pb_dirty (ps_publisher s)" "\<not> pb_disposed (ps_publisher s)" "force \<or> pb_nextEmitAt (ps_publisher s) \<le> now"
  shows "ps_view (pub_step opts apply_update s (Flush force now)) = Some (ps_current s)"
    and "pb_nextEmitAt (ps_publisher s) \<le> now \<Longrightarrow> ps_view (pub_step opts apply_update s (Fires now)) = Some (ps_current s)"
proof -
  have view: "ps_view s = pb_published (ps_publisher s)" "pb_timer (ps_publisher s) \<noteq> None" using assms(2-4) by (auto simp: publishing_ok_def Let_def)
  show "ps_view (pub_step opts apply_update s (Flush force now)) = Some (ps_current s)"
    using assms view applied unchanged by (auto simp: pub_flush_def deliver_def Let_def split: option.splits)
  show "ps_view (pub_step opts apply_update s (Fires now)) = Some (ps_current s)" if "pb_nextEmitAt (ps_publisher s) \<le> now"
    using assms view that applied unchanged by (auto simp: timer_fires_def pub_flush_def deliver_def Let_def split: option.splits)
qed

end

interpretation shell: view_updates "\<lambda>previous current. Some (updateFrom previous current)" applyShellOutputUpdate
  by unfold_locales (auto simp: apply_updateFrom)

text \<open>The options of the capture of shell output.\<close>

definition shell_options :: "(shell_update \<Rightarrow> nat) \<Rightarrow> (shell_view, shell_update) publisher_options" where
  "shell_options encodedBytes = \<lparr>po_update = (\<lambda>previous current. Some (updateFrom previous current)), po_measure = encodedBytes, po_minIntervalMs = 100,
     po_targetBytesPerSecond = 100 * 1024\<rparr>"

section \<open>Once something was produced, it is published or waits for the timer\<close>

fun produces :: "'v pub_event \<Rightarrow> bool" where
  "produces (Produce _ _ _) = True"
| "produces _ = False"

definition outstanding :: "'v publisher \<Rightarrow> bool" where
  "outstanding p \<longleftrightarrow> pb_disposed p \<or> pb_dirty p \<or> pb_published p \<noteq> None"

lemma outstanding_flush: "outstanding p \<Longrightarrow> outstanding (fst (pub_flush opts force now v p))"
  by (auto simp: outstanding_def pub_flush_def armTimer_def Let_def split: option.splits)

lemma outstanding_deliver: "ps_publisher (deliver apply_update now force r s) = fst r"
  by (cases r) (auto simp: deliver_def split: option.splits)

lemma outstanding_dirty: "outstanding (p\<lparr>pb_dirty := True\<rparr>)"
  by (simp add: outstanding_def)

lemma outstanding_step: "produces e \<or> outstanding (ps_publisher s) \<Longrightarrow> outstanding (ps_publisher (pub_step opts apply_update s e))"
proof (cases e)
  case (Produce v now now')
  show ?thesis using outstanding_flush [OF outstanding_dirty [of "ps_publisher s"]]
    by (auto simp: Produce outstanding_deliver markDirty_def Let_def armTimer_def outstanding_def [of "ps_publisher s"] outstanding_def [of "_\<lparr>pb_timer := _\<rparr>"] intro: outstanding_dirty)
next
  case Dispose
  then show ?thesis by (simp add: pub_dispose_def outstanding_def)
qed (auto simp: outstanding_deliver timer_fires_def outstanding_def [of "_\<lparr>pb_timer := _\<rparr>"] outstanding_def [of "ps_publisher s"] intro!: outstanding_flush)

lemma outstanding_run: "list_ex produces events \<Longrightarrow> outstanding (ps_publisher (foldl (pub_step opts apply_update) s events))"
proof (induction events rule: rev_induct)
  case (snoc e events)
  then show ?case using outstanding_step [of e "foldl (pub_step opts apply_update) s events"] by auto
qed simp

lemma disposed_step: "pb_disposed (ps_publisher (pub_step opts apply_update s e)) \<longleftrightarrow> pb_disposed (ps_publisher s) \<or> e = Dispose"
proof -
  have flush: "pb_disposed (fst (pub_flush opts force now v p)) = pb_disposed p" for force now v p
    by (auto simp: pub_flush_def armTimer_def Let_def split: option.splits)
  then show ?thesis by (cases e) (auto simp: outstanding_deliver markDirty_def timer_fires_def pub_dispose_def armTimer_def Let_def)
qed

lemma disposed_run: "pb_disposed (ps_publisher (foldl (pub_step opts apply_update) s events)) \<longleftrightarrow> pb_disposed (ps_publisher s) \<or> Dispose \<in> set events"
proof (induction events arbitrary: s)
  case (Cons e events)
  show ?case using Cons.IH [of "pub_step opts apply_update s e"] by (auto simp: disposed_step)
qed simp

text \<open>
  C18. Whatever the order of output, timers, flushes and the disposal, the view of a consumer that applies the published updates is the last published view.
  Until the disposal it is the current view, or nothing was produced, or the timer is pending; when it fires after the next time of emission, or on a forced
  flush, the consumer has the current view. An update that is not forced comes no sooner than the interval and the size of the one before it demand.
\<close>

theorem shell_view_follows:
  "let opts = shell_options encodedBytes; s = foldl (pub_step opts applyShellOutputUpdate) (start_publishing v) events; p = ps_publisher s in
    ps_view s = pb_published p \<and> spaced opts (ps_log s) \<and>
    (if pb_disposed p then Dispose \<in> set events
     else if pb_dirty p then pb_timer p \<noteq> None \<and>
       ps_view (pub_step opts applyShellOutputUpdate s (Fires (max now (pb_nextEmitAt p)))) = Some (ps_current s) \<and>
       ps_view (pub_step opts applyShellOutputUpdate s (Flush True now)) = Some (ps_current s)
     else ps_view s = (if list_ex produces events then Some (ps_current s) else ps_view s) \<and> ps_view s \<in> {None, Some (ps_current s)})"
proof -
  let ?opts = "shell_options encodedBytes"
  let ?s = "foldl (pub_step ?opts applyShellOutputUpdate) (start_publishing v) events"
  have opts: "po_update ?opts = (\<lambda>previous current. Some (updateFrom previous current))" by (simp add: shell_options_def)
  have ok: "publishing_ok ?opts ?s" by (rule shell.run_ok [OF opts])
  have disposed: "pb_disposed (ps_publisher ?s) = (Dispose \<in> set events)"
    by (simp add: disposed_run) (simp add: start_publishing_def new_publisher_def)
  have "outstanding (ps_publisher ?s)" if "list_ex produces events" using that by (rule outstanding_run)
  then show ?thesis
    using ok disposed shell.flush_delivers [OF opts ok, of True now] shell.flush_delivers(2) [OF opts ok, of False "max now (pb_nextEmitAt (ps_publisher ?s))"]
    by (auto simp: Let_def publishing_ok_def outstanding_def split: if_splits)
qed

end
