(* ===== verification/EventWatch.thy ===== *)
theory EventWatch
  imports Prelude
begin

text \<open>
  How a client follows a lane, from \<^verbatim>\<open>packages/agent/src/harness/events.ts\<close>: the watcher with its buffer, its delivery tail and its fresh snapshots
  (\<^verbatim>\<open>BufferedEventWatcher\<close>), and the delivery tail of the bus with its barriers (\<^verbatim>\<open>HarnessEventBus\<close>). Listeners of single event types and the reports
  of failing handlers are not modelled.
\<close>

section \<open>The watcher\<close>

datatype watch_status = Buffering | Started | Unsubscribed

datatype resnapshot_phase = Dropping | Holding

record 'e resnapshot =
  rs_phase :: resnapshot_phase
  rs_held :: "'e list"

datatype watch_error = AlreadyStarted | WatchUnsubscribed | NoResnapshot | ResnapshotInProgress

text \<open>The delivery tail is the list of the events whose turn has not come, with the epoch they were pushed in.\<close>

record ('e, 's) watcher =
  wt_snapshot :: 's
  wt_canResnapshot :: bool
  wt_buffer :: "('e \<times> nat) list"
  wt_listening :: bool
  wt_tail :: "('e \<times> nat) list"
  wt_epoch :: nat
  wt_resnapshot :: "'e resnapshot option"
  wt_status :: watch_status

definition new_watcher :: "'s \<Rightarrow> bool \<Rightarrow> ('e, 's) watcher" where
  "new_watcher snapshot canResnapshot = \<lparr>wt_snapshot = snapshot, wt_canResnapshot = canResnapshot, wt_buffer = [], wt_listening = False, wt_tail = [], wt_epoch = 0, wt_resnapshot = None, wt_status = Buffering\<rparr>"

definition wt_enqueue :: "'e \<Rightarrow> nat \<Rightarrow> ('e, 's) watcher \<Rightarrow> ('e, 's) watcher" where
  "wt_enqueue e epoch w = (if \<not> wt_listening w then w else w\<lparr>wt_tail := wt_tail w @ [(e, epoch)]\<rparr>)"

definition wt_push :: "('e, 's) watcher \<Rightarrow> 'e \<Rightarrow> ('e, 's) watcher" where
  "wt_push w e =
     (if wt_status w = Unsubscribed then w
      else (case wt_resnapshot w of
        Some r \<Rightarrow> (case rs_phase r of
            Dropping \<Rightarrow> w
          | Holding \<Rightarrow> w\<lparr>wt_resnapshot := Some (r\<lparr>rs_held := rs_held r @ [e]\<rparr>)\<rparr>)
      | None \<Rightarrow>
          if wt_status w = Buffering then w\<lparr>wt_buffer := wt_buffer w @ [(e, wt_epoch w)]\<rparr>
          else wt_enqueue e (wt_epoch w) w))"

definition wt_start :: "('e, 's) watcher \<Rightarrow> (watch_error, ('e, 's) watcher) result" where
  "wt_start w = (if wt_status w \<noteq> Buffering then Inl AlreadyStarted
     else Inr (foldl (\<lambda>w b. wt_enqueue (fst b) (snd b) w) (w\<lparr>wt_status := Started, wt_listening := True, wt_buffer := []\<rparr>) (wt_buffer w)))"

text \<open>A fresh snapshot: the call up to the capture, the boundary, and the end with the snapshot or with an error.\<close>

definition resnapshot_begin :: "('e, 's) watcher \<Rightarrow> (watch_error, ('e, 's) watcher) result" where
  "resnapshot_begin w =
     (if wt_status w = Unsubscribed then Inl WatchUnsubscribed
      else if \<not> wt_canResnapshot w then Inl NoResnapshot
      else if wt_resnapshot w \<noteq> None then Inl ResnapshotInProgress
      else Inr (w\<lparr>wt_epoch := Suc (wt_epoch w), wt_resnapshot := Some \<lparr>rs_phase = Dropping, rs_held = []\<rparr>\<rparr>))"

definition markResnapshotBoundary :: "('e, 's) watcher \<Rightarrow> ('e, 's) watcher" where
  "markResnapshotBoundary w = (case wt_resnapshot w of
      None \<Rightarrow> w
    | Some r \<Rightarrow> if rs_phase r \<noteq> Dropping then w else w\<lparr>wt_resnapshot := Some (r\<lparr>rs_phase := Holding\<rparr>)\<rparr>)"

definition resnapshot_end :: "'s option \<Rightarrow> ('e, 's) watcher \<Rightarrow> ('e, 's) watcher" where
  "resnapshot_end captured w = (case wt_resnapshot w of
      None \<Rightarrow> w
    | Some r \<Rightarrow> foldl wt_push ((case captured of None \<Rightarrow> w | Some s \<Rightarrow> w\<lparr>wt_snapshot := s\<rparr>)\<lparr>wt_resnapshot := None\<rparr>) (rs_held r))"

definition wt_unsubscribe :: "('e, 's) watcher \<Rightarrow> ('e, 's) watcher" where
  "wt_unsubscribe w = (if wt_status w = Unsubscribed then w else w\<lparr>wt_status := Unsubscribed, wt_buffer := [], wt_listening := False\<rparr>)"

text \<open>The turn of the next event of the tail; it reaches the listener only in its own epoch.\<close>

definition wt_turn :: "('e, 's) watcher \<Rightarrow> ('e, 's) watcher \<times> 'e option" where
  "wt_turn w = (case wt_tail w of
      [] \<Rightarrow> (w, None)
    | (e, epoch) # rest \<Rightarrow> (w\<lparr>wt_tail := rest\<rparr>, if wt_status w = Started \<and> epoch = wt_epoch w then Some e else None))"

section \<open>The bus\<close>

text \<open>What waits in the delivery tail of the bus: events, and the barriers that mark the boundary of a capture.\<close>

datatype 'e bus_item = Event 'e | Barrier

definition emitBatch :: "'e list \<Rightarrow> 'e bus_item list \<Rightarrow> 'e bus_item list" where
  "emitBatch es bus = bus @ map Event es"

definition enqueueBarrier :: "'e bus_item list \<Rightarrow> 'e bus_item list" where
  "enqueueBarrier bus = bus @ [Barrier]"

fun bus_deliver :: "('e \<Rightarrow> bool) \<Rightarrow> 'e bus_item \<Rightarrow> ('e, 's) watcher \<Rightarrow> ('e, 's) watcher" where
  "bus_deliver relevant (Event e) w = (if relevant e then wt_push w e else w)"
| "bus_deliver relevant Barrier w = markResnapshotBoundary w"

section \<open>A lane, the bus and a client\<close>

text \<open>
  The lane changes its state and emits the events of the change; \<open>advance\<close> is what one event does to a snapshot of it. The client has the snapshot of its
  watcher and applies each event its listener gets. A capture reads the lane and marks its boundary as its last step, as the capture of a lane
  does; when it fails, it has not.
\<close>

datatype 'e watch_event = Emit "'e list" | BusTurn | WatchTurn | StartWatch | Resnapshot | Mark | Resolve | CaptureFails | Unsubscribe

record ('e, 's) watch_system =
  ws_lane :: 's
  ws_emitted :: "'e list"
  ws_bus :: "'e bus_item list"
  ws_watcher :: "('e, 's) watcher"
  ws_client :: 's
  ws_captured :: "'s option"
  ws_lost :: bool

definition start_watching :: "'s \<Rightarrow> bool \<Rightarrow> ('e, 's) watch_system" where
  "start_watching s canResnapshot = \<lparr>ws_lane = s, ws_emitted = [], ws_bus = [], ws_watcher = new_watcher s canResnapshot, ws_client = s, ws_captured = None, ws_lost = False\<rparr>"

fun watch_step :: "('s \<Rightarrow> 'e \<Rightarrow> 's) \<Rightarrow> ('e \<Rightarrow> bool) \<Rightarrow> ('e, 's) watch_system \<Rightarrow> 'e watch_event \<Rightarrow> ('e, 's) watch_system" where
  "watch_step advance relevant s (Emit es) = s\<lparr>ws_lane := foldl advance (ws_lane s) (filter relevant es), ws_emitted := ws_emitted s @ filter relevant es,
     ws_bus := emitBatch es (ws_bus s)\<rparr>"
| "watch_step advance relevant s BusTurn = (case ws_bus s of
      [] \<Rightarrow> s
    | item # rest \<Rightarrow> s\<lparr>ws_bus := rest, ws_watcher := bus_deliver relevant item (ws_watcher s)\<rparr>)"
| "watch_step advance relevant s WatchTurn = (case wt_turn (ws_watcher s) of
      (w, None) \<Rightarrow> s\<lparr>ws_watcher := w\<rparr>
    | (w, Some e) \<Rightarrow> s\<lparr>ws_watcher := w, ws_client := advance (ws_client s) e\<rparr>)"
| "watch_step advance relevant s StartWatch = (case wt_start (ws_watcher s) of Inl _ \<Rightarrow> s | Inr w \<Rightarrow> s\<lparr>ws_watcher := w\<rparr>)"
| "watch_step advance relevant s Resnapshot = (case resnapshot_begin (ws_watcher s) of Inl _ \<Rightarrow> s | Inr w \<Rightarrow> s\<lparr>ws_watcher := w, ws_captured := None\<rparr>)"
| "watch_step advance relevant s Mark = (if wt_resnapshot (ws_watcher s) = None \<or> ws_captured s \<noteq> None then s
     else s\<lparr>ws_captured := Some (ws_lane s), ws_bus := enqueueBarrier (ws_bus s)\<rparr>)"
| "watch_step advance relevant s Resolve = (case (wt_resnapshot (ws_watcher s), ws_captured s) of
      (Some r, Some c) \<Rightarrow> if rs_phase r \<noteq> Holding then s
        else s\<lparr>ws_watcher := resnapshot_end (Some c) (ws_watcher s), ws_client := c, ws_captured := None, ws_lost := False\<rparr>
    | _ \<Rightarrow> s)"
| "watch_step advance relevant s CaptureFails = (if wt_resnapshot (ws_watcher s) = None \<or> ws_captured s \<noteq> None then s
     else s\<lparr>ws_watcher := resnapshot_end None (ws_watcher s), ws_lost := True\<rparr>)"
| "watch_step advance relevant s Unsubscribe = s\<lparr>ws_watcher := wt_unsubscribe (ws_watcher s)\<rparr>"

section \<open>The invariant\<close>

text \<open>The events that wait: in the bus, behind its barrier, and for the listener.\<close>

fun waiting_events :: "('e \<Rightarrow> bool) \<Rightarrow> 'e bus_item list \<Rightarrow> 'e list" where
  "waiting_events relevant [] = []"
| "waiting_events relevant (Event e # bus) = (if relevant e then e # waiting_events relevant bus else waiting_events relevant bus)"
| "waiting_events relevant (Barrier # bus) = waiting_events relevant bus"

fun behind_barrier :: "'e bus_item list \<Rightarrow> 'e bus_item list option" where
  "behind_barrier [] = None"
| "behind_barrier (Barrier # bus) = Some bus"
| "behind_barrier (Event e # bus) = behind_barrier bus"

definition current_tail :: "('e, 's) watcher \<Rightarrow> 'e list" where
  "current_tail w = map fst (filter (\<lambda>b. snd b = wt_epoch w) (wt_tail w @ wt_buffer w))"

definition watcher_ok :: "('e, 's) watcher \<Rightarrow> bool" where
  "watcher_ok w \<longleftrightarrow> (wt_listening w \<longleftrightarrow> wt_status w = Started) \<and> (wt_status w = Buffering \<or> wt_buffer w = []) \<and> (wt_status w = Buffering \<longrightarrow> wt_tail w = []) \<and>
     (\<forall>b \<in> set (wt_tail w) \<union> set (wt_buffer w). snd b \<le> wt_epoch w)"

text \<open>\<open>state_at s0\<close> of a list of events is the state of the lane after them.\<close>

definition follows_from :: "('s \<Rightarrow> 'e \<Rightarrow> 's) \<Rightarrow> 's \<Rightarrow> 'e list \<Rightarrow> 's \<Rightarrow> 'e list \<Rightarrow> bool" where
  "follows_from advance s0 emitted state rest \<longleftrightarrow> (\<exists>before. emitted = before @ rest \<and> state = foldl advance s0 before)"

definition seen :: "('s \<Rightarrow> 'e \<Rightarrow> 's) \<Rightarrow> 's \<Rightarrow> 'e list \<Rightarrow> 's \<Rightarrow> bool" where
  "seen advance s0 emitted state \<longleftrightarrow> (\<exists>rest. follows_from advance s0 emitted state rest)"

definition watch_inv :: "('s \<Rightarrow> 'e \<Rightarrow> 's) \<Rightarrow> ('e \<Rightarrow> bool) \<Rightarrow> 's \<Rightarrow> ('e, 's) watch_system \<Rightarrow> bool" where
  "watch_inv advance relevant s0 s \<longleftrightarrow> (let w = ws_watcher s; live = (wt_status w \<noteq> Unsubscribed) in
     watcher_ok w \<and> ws_lane s = foldl advance s0 (ws_emitted s) \<and>
     (ws_lost s \<or> seen advance s0 (ws_emitted s) (ws_client s)) \<and>
     (case wt_resnapshot w of
        None \<Rightarrow> ws_captured s = None \<and> behind_barrier (ws_bus s) = None \<and>
          (ws_lost s \<or> \<not> live \<or> follows_from advance s0 (ws_emitted s) (ws_client s) (current_tail w @ waiting_events relevant (ws_bus s)))
      | Some r \<Rightarrow> current_tail w = [] \<and> (case ws_captured s of
            None \<Rightarrow> rs_phase r = Dropping \<and> rs_held r = [] \<and> behind_barrier (ws_bus s) = None
          | Some c \<Rightarrow> seen advance s0 (ws_emitted s) c \<and> (case rs_phase r of
              Dropping \<Rightarrow> rs_held r = [] \<and> (\<exists>after. behind_barrier (ws_bus s) = Some after \<and> behind_barrier after = None \<and>
                follows_from advance s0 (ws_emitted s) c (waiting_events relevant after))
            | Holding \<Rightarrow> behind_barrier (ws_bus s) = None \<and>
                (live \<longrightarrow> follows_from advance s0 (ws_emitted s) c (rs_held r @ waiting_events relevant (ws_bus s)))))))"

lemma waiting_append [simp]: "waiting_events relevant (bus @ bus') = waiting_events relevant bus @ waiting_events relevant bus'"
  by (induction relevant bus rule: waiting_events.induct) auto

lemma waiting_map [simp]: "waiting_events relevant (map Event es) = filter relevant es"
  by (induction es) auto

lemma behind_append: "behind_barrier (bus @ bus') = (case behind_barrier bus of None \<Rightarrow> behind_barrier bus' | Some after \<Rightarrow> Some (after @ bus'))"
  by (induction bus rule: behind_barrier.induct) auto

lemma behind_map [simp]: "behind_barrier (map Event es) = None"
  by (induction es) auto

lemma follows_emit: "follows_from advance s0 em st rest \<Longrightarrow> follows_from advance s0 (em @ xs) st (rest @ xs)"
  by (auto simp: follows_from_def)

lemma follows_seen: "follows_from advance s0 em st rest \<Longrightarrow> seen advance s0 em st"
  by (auto simp: seen_def)

lemma seen_emit: "seen advance s0 em st \<Longrightarrow> seen advance s0 (em @ xs) st"
  by (auto simp: seen_def intro: follows_emit)

lemma follows_next: "follows_from advance s0 em st (e # rest) \<Longrightarrow> follows_from advance s0 em (advance st e) rest"
  unfolding follows_from_def by (metis append.assoc append_Cons append_Nil foldl_Cons foldl_Nil foldl_append)

lemma follows_lane: "follows_from advance s0 em (foldl advance s0 em) []"
  by (simp add: follows_from_def)

text \<open>A push and the pushes of held events.\<close>

lemma push_open:
  assumes "watcher_ok w" "wt_resnapshot w = None"
  shows "watcher_ok (wt_push w e)" "wt_resnapshot (wt_push w e) = None" "wt_status (wt_push w e) = wt_status w"
    "wt_status w \<noteq> Unsubscribed \<Longrightarrow> current_tail (wt_push w e) = current_tail w @ [e]"
    "wt_status w = Unsubscribed \<Longrightarrow> wt_push w e = w"
  using assms by (cases "wt_status w"; auto simp: wt_push_def wt_enqueue_def watcher_ok_def current_tail_def)+

lemma pushes_open:
  assumes "watcher_ok w" "wt_resnapshot w = None"
  shows "watcher_ok (foldl wt_push w es) \<and> wt_resnapshot (foldl wt_push w es) = None \<and> wt_status (foldl wt_push w es) = wt_status w \<and>
    (wt_status w = Unsubscribed \<or> current_tail (foldl wt_push w es) = current_tail w @ es)"
  using assms
proof (induction es arbitrary: w)
  case (Cons e es)
  then show ?case using Cons.IH [of "wt_push w e"] push_open [OF Cons.prems, of e] by (cases "wt_status w = Unsubscribed") auto
qed simp

lemma watcher_ok_resnapshot [simp]: "watcher_ok (w\<lparr>wt_resnapshot := x\<rparr>) = watcher_ok w"
  by (simp add: watcher_ok_def)

lemma foldl_enqueue: "wt_listening w \<Longrightarrow> foldl (\<lambda>w b. wt_enqueue (fst b) (snd b) w) w bs = w\<lparr>wt_tail := wt_tail w @ bs\<rparr>"
  by (induction bs arbitrary: w) (auto simp: wt_enqueue_def)

section \<open>Every step keeps it\<close>

lemma inv_emit: "watch_inv advance relevant s0 s \<Longrightarrow> watch_inv advance relevant s0 (watch_step advance relevant s (Emit es))"
  by (auto simp: watch_inv_def Let_def emitBatch_def behind_append
      split: option.splits resnapshot_phase.splits intro: seen_emit dest: follows_emit [of _ _ _ _ _ "filter relevant es"])

lemma inv_start: "watch_inv advance relevant s0 s \<Longrightarrow> watch_inv advance relevant s0 (watch_step advance relevant s StartWatch)"
proof (cases "wt_status (ws_watcher s) = Buffering")
  case True
  assume inv: "watch_inv advance relevant s0 s"
  let ?w = "ws_watcher s"
  let ?w' = "?w\<lparr>wt_status := Started, wt_listening := True, wt_buffer := [], wt_tail := wt_buffer ?w\<rparr>"
  have ok: "watcher_ok ?w" using inv by (auto simp: watch_inv_def Let_def)
  then have "wt_start ?w = Inr ?w'" "current_tail ?w' = current_tail ?w" "watcher_ok ?w'"
    using True by (auto simp: wt_start_def foldl_enqueue watcher_ok_def current_tail_def)
  then show ?thesis using inv True by (auto simp: watch_inv_def Let_def split: option.splits resnapshot_phase.splits)
qed (simp add: wt_start_def)

lemma inv_turn: "watch_inv advance relevant s0 s \<Longrightarrow> watch_inv advance relevant s0 (watch_step advance relevant s WatchTurn)"
proof (cases "wt_tail (ws_watcher s)")
  case Nil
  then show "watch_inv advance relevant s0 s \<Longrightarrow> ?thesis" by (simp add: wt_turn_def)
next
  case (Cons b rest)
  assume inv: "watch_inv advance relevant s0 s"
  let ?w = "ws_watcher s"
  let ?w' = "?w\<lparr>wt_tail := rest\<rparr>"
  obtain e epoch where b: "b = (e, epoch)" by (cases b)
  have ok: "watcher_ok ?w'" using inv Cons by (auto simp: watch_inv_def Let_def watcher_ok_def)
  have tail: "current_tail ?w = (if epoch = wt_epoch ?w then e # current_tail ?w' else current_tail ?w')" by (simp add: current_tail_def Cons b)
  show ?thesis
  proof (cases "wt_status ?w = Started \<and> epoch = wt_epoch ?w")
    case True
    then have none: "wt_resnapshot ?w = None" using inv tail by (auto simp: watch_inv_def Let_def split: option.splits)
    then have "ws_lost s \<or> follows_from advance s0 (ws_emitted s) (advance (ws_client s) e) (current_tail ?w' @ waiting_events relevant (ws_bus s))"
      using inv True tail by (auto simp: watch_inv_def Let_def dest: follows_next)
    then show ?thesis using inv True ok none Cons b by (auto simp: watch_inv_def Let_def wt_turn_def dest: follows_seen)
  next
    case False
    have "wt_status ?w \<noteq> Buffering" using inv Cons by (auto simp: watch_inv_def Let_def watcher_ok_def)
    then have "current_tail ?w = [] \<Longrightarrow> current_tail ?w' = []" "wt_status ?w \<noteq> Unsubscribed \<Longrightarrow> current_tail ?w' = current_tail ?w"
      using False tail by (cases "wt_status ?w"; auto split: if_splits)+
    then show ?thesis using inv False ok Cons b
      by (cases "wt_status ?w = Unsubscribed") (auto simp: watch_inv_def Let_def wt_turn_def split: option.splits resnapshot_phase.splits)
  qed
qed

lemma inv_bus: "watch_inv advance relevant s0 s \<Longrightarrow> watch_inv advance relevant s0 (watch_step advance relevant s BusTurn)"
proof (cases "ws_bus s")
  case Nil
  then show "watch_inv advance relevant s0 s \<Longrightarrow> ?thesis" by simp
next
  case (Cons item rest)
  assume inv: "watch_inv advance relevant s0 s"
  let ?w = "ws_watcher s"
  have ok: "watcher_ok ?w" using inv by (simp add: watch_inv_def Let_def)
  show ?thesis
  proof (cases "wt_resnapshot ?w")
    case None
    then obtain e where e: "item = Event e" using inv Cons by (cases item) (auto simp: watch_inv_def Let_def)
    show ?thesis using inv Cons None e push_open [OF ok None, of e]
      by (cases "wt_status ?w = Unsubscribed") (auto simp: watch_inv_def Let_def)
  next
    case (Some r)
    have push: "wt_push ?w e = (if wt_status ?w = Unsubscribed \<or> rs_phase r = Dropping then ?w else ?w\<lparr>wt_resnapshot := Some (r\<lparr>rs_held := rs_held r @ [e]\<rparr>)\<rparr>)" for e
      using Some by (auto simp: wt_push_def split: resnapshot_phase.splits)
    have mark: "markResnapshotBoundary ?w = (if rs_phase r \<noteq> Dropping then ?w else ?w\<lparr>wt_resnapshot := Some (r\<lparr>rs_phase := Holding\<rparr>)\<rparr>)"
      using Some by (simp add: markResnapshotBoundary_def)
    have same: "current_tail (?w\<lparr>wt_resnapshot := x\<rparr>) = current_tail ?w" "watcher_ok (?w\<lparr>wt_resnapshot := x\<rparr>) = watcher_ok ?w" for x
      by (simp_all add: current_tail_def watcher_ok_def)
    show ?thesis using inv Cons Some push mark same
      by (cases item; cases "rs_phase r"; cases "ws_captured s") (auto simp: watch_inv_def Let_def)
  qed
qed

lemma inv_resnapshot: "watch_inv advance relevant s0 s \<Longrightarrow> watch_inv advance relevant s0 (watch_step advance relevant s Resnapshot)"
proof (cases "wt_status (ws_watcher s) = Unsubscribed \<or> \<not> wt_canResnapshot (ws_watcher s) \<or> wt_resnapshot (ws_watcher s) \<noteq> None")
  case True
  then show "watch_inv advance relevant s0 s \<Longrightarrow> ?thesis" by (auto simp: resnapshot_begin_def)
next
  case False
  assume inv: "watch_inv advance relevant s0 s"
  let ?w = "ws_watcher s"
  let ?w' = "?w\<lparr>wt_epoch := Suc (wt_epoch ?w), wt_resnapshot := Some \<lparr>rs_phase = Dropping, rs_held = []\<rparr>\<rparr>"
  have ok: "watcher_ok ?w" using inv by (simp add: watch_inv_def Let_def)
  have "snd b \<noteq> Suc (wt_epoch ?w)" if "b \<in> set (wt_tail ?w) \<union> set (wt_buffer ?w)" for b
    using ok that unfolding watcher_ok_def by (metis not_less_eq_eq order_refl)
  then have none: "current_tail ?w' = []" by (auto simp: current_tail_def filter_empty_conv)
  have "watcher_ok ?w'" using ok unfolding watcher_ok_def by (auto intro: le_SucI)
  then show ?thesis using inv False none by (auto simp: watch_inv_def Let_def resnapshot_begin_def)
qed

lemma inv_mark: "watch_inv advance relevant s0 s \<Longrightarrow> watch_inv advance relevant s0 (watch_step advance relevant s Mark)"
proof (cases "wt_resnapshot (ws_watcher s) = None \<or> ws_captured s \<noteq> None")
  case False
  assume inv: "watch_inv advance relevant s0 s"
  have lane: "follows_from advance s0 (ws_emitted s) (ws_lane s) []" using inv follows_lane [of advance s0] by (simp add: watch_inv_def Let_def)
  then show ?thesis using inv False follows_seen [OF lane] by (auto simp: watch_inv_def Let_def enqueueBarrier_def behind_append)
qed simp

lemma inv_unsubscribe: "watch_inv advance relevant s0 s \<Longrightarrow> watch_inv advance relevant s0 (watch_step advance relevant s Unsubscribe)"
  by (auto simp: watch_inv_def Let_def wt_unsubscribe_def watcher_ok_def current_tail_def split: option.splits resnapshot_phase.splits)

lemma inv_fails: "watch_inv advance relevant s0 s \<Longrightarrow> watch_inv advance relevant s0 (watch_step advance relevant s CaptureFails)"
  by (auto simp: watch_inv_def Let_def resnapshot_end_def split: option.splits)

lemma inv_resolve: "watch_inv advance relevant s0 s \<Longrightarrow> watch_inv advance relevant s0 (watch_step advance relevant s Resolve)"
proof (cases "\<exists>r c. wt_resnapshot (ws_watcher s) = Some r \<and> ws_captured s = Some c \<and> rs_phase r = Holding")
  case False
  then show "watch_inv advance relevant s0 s \<Longrightarrow> ?thesis" by (auto split: option.splits)
next
  case True
  assume inv: "watch_inv advance relevant s0 s"
  obtain r c where rc: "wt_resnapshot (ws_watcher s) = Some r" "ws_captured s = Some c" "rs_phase r = Holding" using True by blast
  let ?w = "(ws_watcher s)\<lparr>wt_snapshot := c, wt_resnapshot := None\<rparr>"
  have w: "watcher_ok ?w" "wt_resnapshot ?w = None" "current_tail ?w = []"
    using inv rc by (auto simp: watch_inv_def Let_def watcher_ok_def current_tail_def)
  have end_eq: "resnapshot_end (Some c) (ws_watcher s) = foldl wt_push ?w (rs_held r)" using rc by (simp add: resnapshot_end_def)
  show ?thesis using inv rc w(3) pushes_open [OF w(1,2), of "rs_held r"] by (auto simp: watch_inv_def Let_def end_eq)
qed

lemmas watch_steps = inv_emit inv_start inv_turn inv_bus inv_resnapshot inv_mark inv_unsubscribe inv_fails inv_resolve

lemma watch_run: "watch_inv advance relevant s0 (foldl (watch_step advance relevant) (start_watching s0 canResnapshot) events)"
proof (induction events rule: rev_induct)
  case Nil
  show ?case by (simp add: watch_inv_def start_watching_def new_watcher_def watcher_ok_def current_tail_def seen_def follows_from_def)
next
  case (snoc e events)
  show ?case using watch_steps [OF snoc] by (cases e) (simp_all del: watch_step.simps)
qed

lemma seen_take: "seen advance s0 em st \<Longrightarrow> \<exists>n. st = foldl advance s0 (take n em)"
  unfolding seen_def follows_from_def by (metis append_eq_conv_conj)

lemma watch_idle:
  assumes "watch_inv advance relevant s0 s" "wt_status (ws_watcher s) = Started" "wt_resnapshot (ws_watcher s) = None" "ws_bus s = []"
    "wt_tail (ws_watcher s) = []" "\<not> ws_lost s"
  shows "ws_client s = ws_lane s"
  using assms by (auto simp: watch_inv_def Let_def current_tail_def watcher_ok_def follows_from_def)

lemma lost_step: "ws_lost (watch_step advance relevant s e) \<Longrightarrow> ws_lost s \<or> e = CaptureFails"
  by (cases e) (auto split: list.splits option.splits prod.splits sum.splits if_splits)

lemma lost_run: "ws_lost (foldl (watch_step advance relevant) (start_watching s0 canResnapshot) events) \<Longrightarrow> CaptureFails \<in> set events"
proof (induction events rule: rev_induct)
  case Nil
  then show ?case by (simp add: start_watching_def)
next
  case (snoc e events)
  then show ?case using lost_step by fastforce
qed


end
