(* ===== verification/Spec2Isabelle.thy ===== *)
theory Spec2Isabelle
  imports ProtocolCodec ReplicatedState StorageHistory ServiceWire Truncation SessionBranches AssistantStream BoundedOutput OutputUpdates EventWatch
begin

text \<open>
  \<^bold>\<open>The program.\<close> The repository is an agent for coding: a set of packages around a loop that sends a conversation to a model,
  runs the tools the model asks for and keeps what happened in a session. This development models the packages its other parts
  rest on: what is sent between processes, what is stored, what a state is replicated as, and how the output of a model and of a
  tool is brought to a bounded size and to its readers. Paths below are under \<^verbatim>\<open>src/packages\<close>.

  \<^item> \<^verbatim>\<open>protocol\<close>: client and server exchange messages. A message is checked against a schema, encoded as CBOR and sent in a frame
    with its length in front; the receiver cuts the bytes it gets into frames again.
  \<^item> \<^verbatim>\<open>chord\<close>: a service has states. The source of a state commits revisions, computes the operations from one revision to the next and
    publishes them with a sequence number; a codec shortens the operations for the wire; a replica applies them. A subscription
    has one codec for each state.
  \<^item> \<^verbatim>\<open>durable\<close>: conversations, entries, submissions, tasks and documents, written by commits and read by scans and lookups.
  \<^item> \<^verbatim>\<open>agent\<close>: the sessions of the harness, a tree of entries with current values, named branches, forks; the truncation
    of tool output, the bounded collector of output, the publisher of shell output, the watchers of a lane.
  \<^item> \<^verbatim>\<open>ai\<close>: the frames in which a streamed message of a model is stored and replayed.

  \<^bold>\<open>How the code is modelled.\<close> A class is a record and its methods are functions from state to state. A function that may throw returns
  a sum with the error on the left (type \<open>result\<close>, \<open>rbind\<close> and \<open>rfold\<close> of \<open>Prelude\<close>); where a throw leaves a changed
  state, the state is returned beside the result. Strings are lists of 16 bit code units, numbers are the type \<open>jsnum\<close>, objects are
  property lists in the order of \<^verbatim>\<open>Object.keys\<close>, a \<^verbatim>\<open>Map\<close> whose order is visible is an association list and otherwise a map.
  An asynchronous method that does not wait is one step; where methods queue or call back, the orders are explicit: lists of
  events, or a step relation. A function of a package that is not in the repository is an argument (the check of a schema, the
  parser of unfinished Json), with what is needed of it as a hypothesis.

  \<^bold>\<open>The theories.\<close>

  \<^item> \<open>Prelude\<close>, \<open>JsValues\<close>, \<open>Utf8\<close>, \<open>KeyText\<close>: the errors, the bytes, the values of JavaScript, text as UTF-8 and the texts of
    \<^verbatim>\<open>JSON.stringify\<close> that are used as keys.
  \<^item> \<open>Framing\<close> (\<^verbatim>\<open>protocol/src/framing.ts\<close>): the encoder and the incremental decoder with its blocks. The decoder computes what splitting the
    whole stream computes, for every division of the stream into chunks.
  \<^item> \<open>Cbor\<close> (\<^verbatim>\<open>protocol/src/cbor\<close>): writer, encoder, reader, decoder. What is encoded is read back; only strict values are read.
  \<^item> \<open>ProtocolCodec\<close> (\<^verbatim>\<open>protocol/src/protocol.ts\<close>, \<^verbatim>\<open>codec.ts\<close>): the schemas and the message codec over frames and CBOR. Messages arrive as they
    were sent; whatever arrives, the decoder returns valid messages or fails for good.
  \<^item> \<open>DeltaOps\<close>, \<open>DeltaRewrite\<close>, \<open>DeltaCodec\<close> (\<^verbatim>\<open>chord/src/delta/index.ts\<close>), \<open>DeltaDiff\<close> (\<^verbatim>\<open>chord/src/state/diff.ts\<close>): operations and
    their two appliers, what an operation does below a path, the codec with its dictionary, the diff. The diff is sound, the codec is exact and
    recovers at a base, no operation brings in a reserved key.
  \<^item> \<open>ReplicatedState\<close> (\<^verbatim>\<open>chord/src/services/state.ts\<close>): source, delivery under reentrant commits and throwing listeners, replica. The
    replica follows its source, and never holds a value the source did not have at that sequence.
  \<^item> \<open>StateCodec\<close>, \<open>ServiceWire\<close> (\<^verbatim>\<open>chord/src/services/state-codec.ts\<close>, \<^verbatim>\<open>wire.ts\<close>): the codecs of a subscription and the validators. A
    subscription arrives as it was sent.
  \<^item> \<open>DurableTypes\<close>, \<open>SortedIds\<close>, \<open>MemoryStorage\<close>, \<open>StorageRecords\<close>, \<open>StorageDocuments\<close>, \<open>StorageCommit\<close>, \<open>StorageReads\<close>,
    \<open>StorageScans\<close>, \<open>StorageHistory\<close> (\<^verbatim>\<open>durable/src/types.ts\<close>, \<^verbatim>\<open>storage/memory.ts\<close>): records, sorted indexes, every operation of the storage; that a
    commit is atomic and keeps the tables and indexes consistent, that lookups at a point in time and histories are exact, that pages are complete.
  \<^item> \<open>SessionState\<close>, \<open>SessionRuns\<close>, \<open>SessionPaths\<close>, \<open>SessionForks\<close>, \<open>SessionStorage\<close>, \<open>SessionBranches\<close> (\<^verbatim>\<open>agent/src/harness/session\<close>): the state of a
    session, its invariant, the walks to the root, forks, the queue of the memory storage, sessions with branches. A commit refines a plain
    specification over entries, values and lists; a fork is exact; queued jobs have the outcomes of a serial run; every branch can be read.
  \<^item> \<open>Truncation\<close> (\<^verbatim>\<open>agent/src/harness/utils/truncate.ts\<close>, \<^verbatim>\<open>coding-agent/src/core/tools/truncate.ts\<close>): both versions, that they agree, and that
    they keep the most that fits.
  \<^item> \<open>BoundedOutput\<close> (\<^verbatim>\<open>agent/src/harness/pico3/bounded.ts\<close>): the collector of a start or an end of a stream. It is exact for the start; for the end
    it is exact unless one chunk alone has more newlines than are allowed, and then it can retain bytes that are no end of the stream.
  \<^item> \<open>OutputUpdates\<close> (\<^verbatim>\<open>agent/src/harness/utils/output-capture.ts\<close>, \<^verbatim>\<open>adaptive-publisher.ts\<close>): the updates between two views and the publisher
    with its timer. A consumer has the last published view and, when the timer fires or on a forced flush, the current one.
  \<^item> \<open>EventWatch\<close> (\<^verbatim>\<open>agent/src/harness/events.ts\<close>): the watcher of a lane with its buffer, epochs and fresh snapshots, and the delivery tail of the bus.
    Under every interleaving a client has a state that the lane had, and the current one when nothing waits.
  \<^item> \<open>AssistantFrames\<close>, \<open>AssistantStream\<close> (\<^verbatim>\<open>ai/src/utils/assistant-message-frame.ts\<close>): the encoder of events as frames and the replay. While the
    provider changes the shared message ahead of the queue, no event is refused, the replayed text is always a prefix of the live text, and the
    replay is complete when the queue is empty.

  \<^bold>\<open>Interfaces.\<close> Where one part relies on another, the laws it needs are a locale that the model of the provider interprets:
  \<open>frame_stream\<close> (messages over frames), \<open>batch_codec\<close> (a codec of batches with a relation of both ends), \<open>registry_codec\<close> (a subscription over
  the codecs of its states), \<open>replication\<close> (a diff and an applier), \<open>hereditary\<close> (what operations keep of all parts of a value), \<open>durable_store\<close> (what a
  client of the storage may rely on), \<open>paged_scan\<close> (cursors), \<open>forest\<close> (parents that come before their children), \<open>view_updates\<close> (updates of a view).

  \<^bold>\<open>Termination, fuel.\<close> Loops over data are structural or have a measure. The walks over parents (\<open>path_loop\<close>, \<open>select_loop\<close>, \<open>visible_from\<close> and
  \<open>marker_from\<close>), the loops of the frame decoder (\<open>push_loop\<close>, \<open>copy_payload\<close>) and the delivery loop of a commit (\<open>drain\<close>) are partial functions to an
  option, where None is a loop that does not end. That they return is proved: for the walks of a session in every state that commits and forks can reach,
  because parents are earlier; for the walks of the durable storage when a conversation is forked from an older one, which a commit does not check; for the
  decoder on all bytes; for the delivery when the listeners stop committing. The client of a paged scan in \<open>SortedIds\<close>
  has fuel for its pages; more than the number of records suffices since every page but the last has at least one.

  \<^bold>\<open>Not modelled.\<close> The tracker of mutations and the drafts of states (proxies over a heap with ownership), so that a change is given by the value it
  results in. The asynchronous routing of service calls, facets and bundles (loading of code). The storage in SQLite, the sockets and processes of client
  and server. Of the agent: the lanes with their operations, compaction, hooks, tools and skills, the mutation line that makes session operations run
  alone, the repository of sessions, the capture of shell output with its text decoder. The clients of model providers. The application with
  its terminal and web interfaces and the packages around it. These are input and output, calls of external services, or presentation; the lanes
  and the compaction are logic of the program that is left open here.
\<close>

end
